(* ===== verification/Prelude.thy ===== *)
theory Prelude
  imports Main "HOL-Library.Word" "HOL-Library.Multiset"
begin

section \<open>Prelude: machine types, errors, shared lemmas\<close>

text \<open>
  What every component theory shares: the machine integer types of
  \<^verbatim>\<open>common/misc/fixed_types.h\<close> (with \<open>IntPtr\<close> at 64 bits), the ways in
  which the simulator stops (\<open>assert\<close>, \<open>LOG_ASSERT_ERROR\<close> and
  \<open>LOG_PRINT_ERROR\<close> of \<^verbatim>\<open>common/misc/log.h\<close> in a build without
  \<open>NDEBUG\<close>, and accesses the C++ standard leaves undefined) as an error type,
  sequencing of fallible steps, and the facts on lists and words that the component
  proofs use. Logging macros (\<open>LOG_PRINT\<close>, \<open>PRAK_LOG\<close>, \<open>VERI_LOG\<close>) have no
  effect on the simulated state and are not modelled.
\<close>

unbundle bit_operations_syntax

type_synonym u8 = "8 word"
type_synonym u16 = "16 word"
type_synonym u32 = "32 word"
type_synonym u64 = "64 word"
type_synonym IntPtr = "64 word"

subsection \<open>Errors\<close>

datatype sim_error =
    AssertFailed \<comment> \<open>a failed \<open>assert\<close> or \<open>LOG_ASSERT_ERROR\<close>\<close>
  | LogError \<comment> \<open>a reached \<open>LOG_PRINT_ERROR\<close>, which exits\<close>
  | Undefined \<comment> \<open>out-of-range array access, use of a dead object, over-long shift, division by zero\<close>
  | OutOfFuel \<comment> \<open>the bound a model sets on a recursion of the source is used up\<close>

type_synonym 'a res = "sim_error + 'a"

definition rbind :: "'a res \<Rightarrow> ('a \<Rightarrow> 'b res) \<Rightarrow> 'b res" where
  "rbind m f = (case m of Inl e \<Rightarrow> Inl e | Inr x \<Rightarrow> f x)"

definition ensure :: "sim_error \<Rightarrow> bool \<Rightarrow> unit res" where
  "ensure e b = (if b then Inr () else Inl e)"

definition nth_res :: "'a list \<Rightarrow> nat \<Rightarrow> 'a res" where
  "nth_res xs i = (if i < length xs then Inr (xs ! i) else Inl Undefined)"

named_theorems res_simps \<open>unfolding of fallible steps\<close>

lemma rbind_Inl [simp, res_simps]: "rbind (Inl e) f = Inl e"
  by (simp add: rbind_def)

lemma rbind_Inr [simp, res_simps]: "rbind (Inr x) f = f x"
  by (simp add: rbind_def)

lemma rbind_eq_Inr [simp]: "rbind m f = Inr y \<longleftrightarrow> (\<exists>x. m = Inr x \<and> f x = Inr y)"
  by (cases m) auto

lemma rbind_eq_Inl: "rbind m f = Inl e \<longleftrightarrow> m = Inl e \<or> (\<exists>x. m = Inr x \<and> f x = Inl e)"
  by (cases m) auto

lemma rbind_assoc: "rbind (rbind m f) g = rbind m (\<lambda>x. rbind (f x) g)"
  by (cases m) auto

lemma ensure_True [simp, res_simps]: "ensure e True = Inr ()"
  by (simp add: ensure_def)

lemma ensure_False [simp, res_simps]: "ensure e False = Inl e"
  by (simp add: ensure_def)

lemma ensure_eq_Inr [simp]: "ensure e b = Inr u \<longleftrightarrow> b"
  by (simp add: ensure_def)

lemma nth_res_in [simp, res_simps]: "i < length xs \<Longrightarrow> nth_res xs i = Inr (xs ! i)"
  by (simp add: nth_res_def)

lemma nth_res_out [simp, res_simps]: "length xs \<le> i \<Longrightarrow> nth_res xs i = Inl Undefined"
  by (simp add: nth_res_def)

lemma nth_res_eq_Inr [simp]: "nth_res xs i = Inr x \<longleftrightarrow> i < length xs \<and> x = xs ! i"
  by (auto simp: nth_res_def)

subsection \<open>Searching an index range\<close>

text \<open>
  \<open>for (i = 0; i < n; i++) if (P i) return i;\<close> and its downward twin
  \<open>for (i = n - 1; i >= 0; i--)\<close> occur throughout the sources.
\<close>

definition first_index :: "(nat \<Rightarrow> bool) \<Rightarrow> nat \<Rightarrow> nat option" where
  "first_index P n = find P [0..<n]"

fun last_index :: "(nat \<Rightarrow> bool) \<Rightarrow> nat \<Rightarrow> nat option" where
  "last_index P 0 = None"
| "last_index P (Suc n) = (if P n then Some n else last_index P n)"

lemma first_index_0 [simp]: "first_index P 0 = None"
  by (simp add: first_index_def)

lemma find_append: "find P (xs @ ys) = (case find P xs of None \<Rightarrow> find P ys | Some x \<Rightarrow> Some x)"
  by (induction xs) auto

lemma first_index_Suc [simp]:
  "first_index P (Suc n) =
     (case first_index P n of None \<Rightarrow> if P n then Some n else None | Some i \<Rightarrow> Some i)"
  by (simp add: first_index_def find_append split: option.split)

lemma first_index_SomeD:
  assumes "first_index P n = Some i"
  shows "i < n" and "P i" and "\<And>j. j < i \<Longrightarrow> \<not> P j"
proof -
  have "i < n \<and> P i \<and> (\<forall>j<i. \<not> P j)"
    using assms
  proof (induction n arbitrary: i)
    case (Suc n)
    show ?case
    proof (cases "first_index P n")
      case None
      then have "\<forall>j<n. \<not> P j"
        by (auto simp: first_index_def find_None_iff)
      with Suc.prems None show ?thesis by (auto split: if_splits)
    next
      case (Some k)
      with Suc show ?thesis by fastforce
    qed
  qed simp
  then show "i < n" and "P i" and "\<And>j. j < i \<Longrightarrow> \<not> P j" by auto
qed

lemma first_index_None: "first_index P n = None \<longleftrightarrow> (\<forall>i<n. \<not> P i)"
  by (auto simp: first_index_def find_None_iff)

lemma first_index_eqI: "i < n \<Longrightarrow> P i \<Longrightarrow> (\<And>j. j < i \<Longrightarrow> \<not> P j) \<Longrightarrow> first_index P n = Some i"
  by (metis first_index_None first_index_SomeD(2,3) linorder_neqE_nat not_Some_eq)

lemma last_index_SomeD:
  "last_index P n = Some i \<Longrightarrow> i < n \<and> P i \<and> (\<forall>j. i < j \<and> j < n \<longrightarrow> \<not> P j)"
  by (induction n) (auto split: if_splits simp: less_Suc_eq)

lemma last_index_None: "last_index P n = None \<longleftrightarrow> (\<forall>i<n. \<not> P i)"
  by (induction n) (auto simp: less_Suc_eq)

lemma last_index_eqI: "i < n \<Longrightarrow> P i \<Longrightarrow> (\<And>j. i < j \<Longrightarrow> j < n \<Longrightarrow> \<not> P j) \<Longrightarrow> last_index P n = Some i"
  by (metis last_index_None last_index_SomeD linorder_neqE_nat not_Some_eq)

lemma last_index_cong:
  "n = m \<Longrightarrow> (\<And>i. i < m \<Longrightarrow> P i = Q i) \<Longrightarrow> last_index P n = last_index Q m"
proof (induction m arbitrary: n)
  case (Suc m)
  then show ?case by (simp add: less_SucI)
qed simp

subsection \<open>Lists\<close>

lemma distinct_list_update:
  assumes "distinct xs" and "v \<notin> set xs"
  shows "distinct (xs[i := v])"
  using assms by (simp add: distinct_list_update)

lemma map_upt_eq: "length xs = n \<Longrightarrow> (\<And>i. i < n \<Longrightarrow> f i = xs ! i) \<Longrightarrow> map f [0..<n] = xs"
  by (intro nth_equalityI) auto

lemma list_update_nth: "xs[k := x] ! i = xs ! i \<or> xs[k := x] ! i = x"
  by (cases "i = k"; cases "k < length xs") (auto simp: list_update_beyond)

subsection \<open>Words\<close>

lemma fold_update_nth:
  "n \<le> length b \<Longrightarrow> fold (\<lambda>i b. b[i := f i (b ! i)]) [0..<n] b =
    map (\<lambda>i. if i < n then f i (b ! i) else b ! i) [0..<length b]"
proof (induction n)
  case 0
  show ?case by (simp add: map_nth)
next
  case (Suc n)
  then show ?case by (intro nth_equalityI) (auto simp: nth_list_update)
qed

lemma unat_lt_two_power: "unat (x :: 'a::len word) < 2 ^ LENGTH('a)"
  by (rule unsigned_less)

lemma unat_drop: "unat (drop_bit n (x :: 'a::len word)) = unat x div 2 ^ n"
  by (metis drop_bit_eq_div unat_drop_bit_eq)

lemma word_drop_eq_0_iff: "drop_bit n (x :: 'a::len word) = 0 \<longleftrightarrow> unat x < 2 ^ n"
proof -
  have "drop_bit n x = 0 \<longleftrightarrow> unat (drop_bit n x) = 0"
    by (simp only: unat_eq_0)
  then show ?thesis by (simp add: unat_drop div_eq_0_iff)
qed

lemma unat_inc_less: "(x :: 'a::len word) < y \<Longrightarrow> unat (x + 1) = Suc (unat x)"
proof -
  assume "x < y"
  moreover have "unat y < 2 ^ LENGTH('a)"
    by (rule unat_lt_two_power)
  ultimately have "unat x + 1 < 2 ^ LENGTH('a)"
    unfolding word_less_nat_alt by linarith
  then show ?thesis by (simp add: unat_word_ariths)
qed

lemma unat_mask: "k \<le> LENGTH('a) \<Longrightarrow> unat (mask k :: 'a::len word) = 2 ^ k - 1"
proof -
  assume "k \<le> LENGTH('a)"
  then have "unat (mask k :: 'a word) = mask k"
    by (intro bit_eqI) (auto simp: bit_simps)
  then show ?thesis by (simp add: mask_eq_exp_minus_1)
qed

end
