(* ===== verification/Utils.thy ===== *)
theory Utils
  imports Prelude
begin

section \<open>Utilities: logarithms, bit counts, random numbers, modular counters\<close>

text \<open>
  \<^verbatim>\<open>common/misc/utils.cc\<close> (\<open>isPower2\<close>, \<open>floorLog2\<close>, \<open>ceilLog2\<close>,
  \<open>countBits\<close>), \<^verbatim>\<open>common/misc/rng.h\<close>, \<^verbatim>\<open>common/misc/random.h\<close> and
  \<^verbatim>\<open>common/misc/modulo_num.cc\<close>, at the widths of the sources. The lemmas show that the
  branchy \<open>floorLog2\<close> is the integer logarithm, that the bit trick of \<open>isPower2\<close>
  decides powers of two, that Kernighan's loop of \<open>countBits\<close> terminates with the
  number of one bits, and that \<open>ModuloNum\<close> is arithmetic modulo its maximum where
  its 32-bit sum does not wrap.
\<close>

subsection \<open>Definitions\<close>

definition isPower2 :: "u32 \<Rightarrow> bool" where
  "isPower2 n \<longleftrightarrow> n AND (n - 1) = 0"

definition floorLog2_step :: "u32 \<Rightarrow> nat \<Rightarrow> int \<times> u32 \<Rightarrow> int \<times> u32" where
  "floorLog2_step m k = (\<lambda>(p, n). if n AND m \<noteq> 0 then (p + int k, drop_bit k n) else (p, n))"

definition floorLog2 :: "u32 \<Rightarrow> int" where
  "floorLog2 n =
     (if n = 0 then - 1
      else
        let s = floorLog2_step 0xffff0000 16 (0, n);
            s = floorLog2_step 0x0000ff00 8 s;
            s = floorLog2_step 0x000000f0 4 s;
            s = floorLog2_step 0x0000000c 2 s;
            (p, n) = s
        in if n AND 0x00000002 \<noteq> 0 then p + 1 else p)"

definition ceilLog2 :: "u32 \<Rightarrow> int" where
  "ceilLog2 n = floorLog2 (n - 1) + 1"

lemma and_pred_less: "(n :: 'a::len word) \<noteq> 0 \<Longrightarrow> unat (n AND (n - 1)) < unat n"
proof -
  assume n: "n \<noteq> 0"
  have "n AND (n - 1) \<le> n - 1"
    by (rule word_and_le1)
  also have "n - 1 < n"
    using measure_unat [OF n] by (simp add: word_less_nat_alt)
  finally show ?thesis by (simp add: word_less_nat_alt)
qed

text \<open>The body of \<open>for(result = 1; n &= n - 1; ++result);\<close>, entered with the old \<open>n\<close>.\<close>

function countBits_loop :: "u64 \<Rightarrow> u64 \<Rightarrow> u64" where
  "countBits_loop n result =
     (if n AND (n - 1) \<noteq> 0 then countBits_loop (n AND (n - 1)) (result + 1) else result)"
  by pat_completeness auto
termination
proof (relation "measure (\<lambda>(n, _). unat n)", goal_cases)
  case (2 n result)
  then have "n \<noteq> 0" by auto
  then show ?case by (simp add: and_pred_less)
qed simp

declare countBits_loop.simps [simp del]

definition countBits :: "u64 \<Rightarrow> u64" where
  "countBits n = (if n = 0 then 0 else countBits_loop n 1)"

definition rng_next :: "u64 \<Rightarrow> u64 \<times> u64" where
  \<comment> \<open>the returned value and the new state\<close>
  "rng_next state =
     (let state = (0x5DEECE66D * state + 0xB) AND (push_bit 48 1 - 1)
      in (drop_bit 16 state, state))"

definition rng_seed :: "u64 \<Rightarrow> u64" where
  "rng_seed seed = push_bit 16 seed + 0x330E"

definition Random_next :: "u32 \<Rightarrow> u32 \<Rightarrow> u32 res \<times> u32" where
  \<comment> \<open>the value drawn below \<open>limit\<close> and the new \<open>_seed\<close>\<close>
  "Random_next seed limit =
     (let seed = seed * 1103515245 + 12345
      in (if limit = 0 then Inl Undefined else Inr ((seed div 65536) mod limit), seed))"

record ModuloNum =
  m_value :: u32
  m_max_value :: u32

definition ModuloNum_plus :: "ModuloNum \<Rightarrow> ModuloNum \<Rightarrow> ModuloNum res" where
  "ModuloNum_plus a b =
     rbind (ensure AssertFailed (m_max_value a = m_max_value b)) (\<lambda>_.
     rbind (ensure Undefined (m_max_value a \<noteq> 0)) (\<lambda>_.
     Inr \<lparr>m_value = (m_value a + m_value b) mod m_max_value a, m_max_value = m_max_value a\<rparr>))"

definition ModuloNum_minus :: "ModuloNum \<Rightarrow> ModuloNum \<Rightarrow> ModuloNum res" where
  "ModuloNum_minus a b =
     rbind (ensure AssertFailed (m_max_value a = m_max_value b)) (\<lambda>_.
     Inr (if m_value a \<ge> m_value b
          then \<lparr>m_value = m_value a - m_value b, m_max_value = m_max_value a\<rparr>
          else \<lparr>m_value = m_max_value a - m_value b + m_value a, m_max_value = m_max_value a\<rparr>))"

definition ModuloNum_plus_value :: "ModuloNum \<Rightarrow> u32 \<Rightarrow> ModuloNum res" where
  "ModuloNum_plus_value a v =
     rbind (ensure Undefined (m_max_value a \<noteq> 0)) (\<lambda>_.
     ModuloNum_plus a \<lparr>m_value = v mod m_max_value a, m_max_value = m_max_value a\<rparr>)"

definition ModuloNum_minus_value :: "ModuloNum \<Rightarrow> u32 \<Rightarrow> ModuloNum res" where
  "ModuloNum_minus_value a v =
     rbind (ensure Undefined (m_max_value a \<noteq> 0)) (\<lambda>_.
     ModuloNum_minus a \<lparr>m_value = v mod m_max_value a, m_max_value = m_max_value a\<rparr>)"

definition ModuloNum_eq :: "ModuloNum \<Rightarrow> ModuloNum \<Rightarrow> bool" where
  "ModuloNum_eq a b \<longleftrightarrow> m_value a = m_value b \<and> m_max_value a = m_max_value b"

definition ModuloNum_wf :: "ModuloNum \<Rightarrow> bool" where
  "ModuloNum_wf a \<longleftrightarrow> m_value a < m_max_value a"

subsection \<open>The integer logarithm\<close>

text \<open>One test of the branch ladder asks whether a bit in the upper half of the window is set.\<close>

lemma and_window_eq_0:
  fixes n :: "'a::len word"
  assumes "unat n < 2 ^ (2 * k)"
  shows "n AND push_bit k (mask k) = 0 \<longleftrightarrow> unat n < 2 ^ k"
proof -
  have hi: "\<not> bit n j" if "2 * k \<le> j" for j
  proof -
    have "drop_bit (2 * k) n = 0"
      using assms by (simp add: word_drop_eq_0_iff)
    then have "\<not> bit (drop_bit (2 * k) n) (j - 2 * k)" by simp
    with that show ?thesis by (simp add: bit_simps)
  qed
  have "n AND push_bit k (mask k) = 0 \<longleftrightarrow> (\<forall>j\<ge>k. \<not> bit n j)"
  proof
    assume z: "n AND push_bit k (mask k) = 0"
    show "\<forall>j\<ge>k. \<not> bit n j"
    proof (intro allI impI notI)
      fix j assume j: "k \<le> j" and b: "bit n j"
      with hi have "j < 2 * k" by (meson not_less)
      with j b have "bit (n AND push_bit k (mask k)) j"
        by (auto simp: bit_simps dest: bit_imp_le_length)
      with z show False by simp
    qed
  next
    assume "\<forall>j\<ge>k. \<not> bit n j"
    then show "n AND push_bit k (mask k) = 0"
      by (intro bit_word_eqI) (auto simp: bit_simps)
  qed
  also have "\<dots> \<longleftrightarrow> (\<forall>j. \<not> bit n (k + j))"
    by (auto simp: le_iff_add)
  also have "\<dots> \<longleftrightarrow> drop_bit k n = 0"
    by (auto simp: bit_eq_iff bit_simps) (meson bit_imp_le_length le_add2 le_less_trans)
  finally show ?thesis by (simp add: word_drop_eq_0_iff)
qed

definition log_inv :: "nat \<Rightarrow> nat \<Rightarrow> int \<times> u32 \<Rightarrow> bool" where
  "log_inv n0 w s \<longleftrightarrow>
     0 \<le> fst s \<and> 0 < unat (snd s) \<and> unat (snd s) < 2 ^ w \<and>
     unat (snd s) * 2 ^ nat (fst s) \<le> n0 \<and> n0 < Suc (unat (snd s)) * 2 ^ nat (fst s)"

lemma floorLog2_step_inv:
  assumes "log_inv n0 (2 * k) s" and "m = push_bit k (mask k)"
  shows "log_inv n0 k (floorLog2_step m k s)"
proof -
  obtain p n where s: "s = (p, n)" by (cases s)
  have inv: "0 \<le> p" "0 < unat n" "unat n < 2 ^ (2 * k)"
      "unat n * 2 ^ nat p \<le> n0" "n0 < Suc (unat n) * 2 ^ nat p"
    using assms(1) by (auto simp: log_inv_def s)
  have test: "n AND m \<noteq> 0 \<longleftrightarrow> 2 ^ k \<le> unat n"
    using and_window_eq_0 [OF inv(3)] assms(2) by (simp add: not_less)
  show ?thesis
  proof (cases "2 ^ k \<le> unat n")
    case False
    with inv test show ?thesis by (simp add: floorLog2_step_def s log_inv_def)
  next
    case True
    let ?q = "unat n div 2 ^ k"
    have q: "0 < ?q" "?q < 2 ^ k"
      using True inv(3) by (simp_all add: div_greater_zero_iff less_mult_imp_div_less power_add mult_2)
    have p: "nat (p + int k) = nat p + k"
      using inv(1) by (simp add: nat_add_distrib)
    have "?q * 2 ^ (nat p + k) \<le> n0"
    proof -
      have "?q * 2 ^ k * 2 ^ nat p \<le> unat n * 2 ^ nat p"
        by (intro mult_right_mono) simp_all
      also note inv(4)
      finally show ?thesis by (simp add: power_add mult.assoc mult.commute mult.left_commute)
    qed
    moreover have "n0 < Suc ?q * 2 ^ (nat p + k)"
    proof -
      have "unat n < Suc ?q * 2 ^ k"
        using dividend_less_div_times [of "2 ^ k" "unat n"] by simp
      then have "Suc (unat n) * 2 ^ nat p \<le> Suc ?q * 2 ^ k * 2 ^ nat p"
        by (intro mult_right_mono) simp_all
      with inv(5) have "n0 < Suc ?q * 2 ^ k * 2 ^ nat p"
        by (rule less_le_trans)
      then show ?thesis by (simp only: power_add mult.assoc mult.commute [of "2 ^ nat p"])
    qed
    ultimately show ?thesis
      using True test q inv(1) by (simp add: floorLog2_step_def s log_inv_def p unat_drop)
  qed
qed

lemma floorLog2_masks:
  "(0xffff0000 :: u32) = push_bit 16 (mask 16)"
  "(0x0000ff00 :: u32) = push_bit 8 (mask 8)"
  "(0x000000f0 :: u32) = push_bit 4 (mask 4)"
  "(0x0000000c :: u32) = push_bit 2 (mask 2)"
  "(0x00000002 :: u32) = push_bit 1 (mask 1)"
  by (simp_all add: mask_eq_exp_minus_1 push_bit_eq_mult)

lemma floorLog2_step_last:
  "(if snd s AND 0x00000002 \<noteq> 0 then fst s + 1 else fst s) = fst (floorLog2_step 0x00000002 1 s)"
  by (cases s) (simp add: floorLog2_step_def)

lemma floorLog2_inv:
  assumes "n \<noteq> 0"
  shows "\<exists>s. floorLog2 n = fst s \<and> log_inv (unat n) 1 s"
proof -
  define s1 where "s1 = floorLog2_step 0xffff0000 16 (0, n)"
  define s2 where "s2 = floorLog2_step 0x0000ff00 8 s1"
  define s3 where "s3 = floorLog2_step 0x000000f0 4 s2"
  define s4 where "s4 = floorLog2_step 0x0000000c 2 s3"
  define s5 where "s5 = floorLog2_step 0x00000002 1 s4"
  have "log_inv (unat n) (2 * 16) (0, n)"
    using assms unat_lt_two_power [of n] by (simp add: log_inv_def unat_gt_0)
  then have "log_inv (unat n) 16 s1"
    unfolding s1_def by (rule floorLog2_step_inv [OF _ floorLog2_masks(1)])
  then have "log_inv (unat n) 8 s2"
    unfolding s2_def by (intro floorLog2_step_inv [OF _ floorLog2_masks(2)]) simp
  then have "log_inv (unat n) 4 s3"
    unfolding s3_def by (intro floorLog2_step_inv [OF _ floorLog2_masks(3)]) simp
  then have "log_inv (unat n) 2 s4"
    unfolding s4_def by (intro floorLog2_step_inv [OF _ floorLog2_masks(4)]) simp
  then have "log_inv (unat n) 1 s5"
    unfolding s5_def by (intro floorLog2_step_inv [OF _ floorLog2_masks(5)]) simp
  moreover have "floorLog2 n = fst s5"
    using assms unfolding s5_def s4_def s3_def s2_def s1_def floorLog2_def
    by (simp only: Let_def case_prod_beta floorLog2_step_last if_False)
  ultimately show ?thesis by blast
qed

text \<open>The ladder computes the integer logarithm, which is never negative on nonzero input.\<close>

lemma floorLog2_bounds:
  assumes "n \<noteq> 0"
  shows "0 \<le> floorLog2 n" and "2 ^ nat (floorLog2 n) \<le> unat n"
    and "unat n < 2 ^ Suc (nat (floorLog2 n))"
proof -
  obtain s where s: "floorLog2 n = fst s" "log_inv (unat n) 1 s"
    using floorLog2_inv [OF assms] by blast
  then have "unat (snd s) = 1" by (auto simp: log_inv_def)
  with s show "0 \<le> floorLog2 n" and "2 ^ nat (floorLog2 n) \<le> unat n"
    and "unat n < 2 ^ Suc (nat (floorLog2 n))"
    by (auto simp: log_inv_def)
qed

subsection \<open>Powers of two and bit counts\<close>

lemma and_pred_0_iff: "(n :: u32) \<noteq> 0 \<Longrightarrow> n AND (n - 1) = 0 \<longleftrightarrow> unat n = 2 ^ nat (floorLog2 n)"
proof -
  assume n: "n \<noteq> 0"
  let ?k = "nat (floorLog2 n)"
  note lb = floorLog2_bounds(2) [OF n] and ub = floorLog2_bounds(3) [OF n]
  have hi: "bit m ?k" if "2 ^ ?k \<le> unat m" and "unat m < 2 ^ Suc ?k" for m :: u32
  proof -
    have "unat m div 2 ^ ?k = 1"
      using that by (intro div_nat_eqI) auto
    then have "bit (unat m) ?k"
      by (simp add: bit_iff_odd)
    then show ?thesis by (simp add: bit_simps)
  qed
  show ?thesis
  proof
    assume z: "n AND (n - 1) = 0"
    show "unat n = 2 ^ ?k"
    proof (rule ccontr)
      assume "unat n \<noteq> 2 ^ ?k"
      then have "2 ^ ?k \<le> unat (n - 1)" "unat (n - 1) < 2 ^ Suc ?k"
        using lb ub n by (simp_all add: unat_minus_one)
      then have "bit (n AND (n - 1)) ?k"
        using hi lb ub by (simp add: bit_and_iff)
      with z show False by simp
    qed
  next
    assume p: "unat n = 2 ^ ?k"
    have "unat (n AND (n - 1)) = 2 ^ ?k AND (2 ^ ?k - 1)"
      using n by (simp add: unsigned_and_eq unat_minus_one p)
    also have "\<dots> = take_bit ?k (2 ^ ?k)"
      by (simp add: take_bit_eq_mask mask_eq_exp_minus_1)
    also have "\<dots> = 0" by (simp add: take_bit_eq_mod)
    finally show "n AND (n - 1) = 0" by (simp only: unat_0_iff)
  qed
qed

lemma isPower2_iff: "n \<noteq> 0 \<Longrightarrow> isPower2 n \<longleftrightarrow> (\<exists>k. unat n = 2 ^ k)"
proof -
  assume n: "n \<noteq> 0"
  have "unat n = 2 ^ nat (floorLog2 n)" if k: "unat n = 2 ^ k" for k
  proof -
    have "2 ^ nat (floorLog2 n) \<le> (2 :: nat) ^ k" "(2 :: nat) ^ k < 2 ^ Suc (nat (floorLog2 n))"
      using floorLog2_bounds(2,3) [OF n] k by simp_all
    then have "nat (floorLog2 n) \<le> k" "k < Suc (nat (floorLog2 n))"
      by (simp_all only: power_increasing_iff power_strict_increasing_iff one_less_numeral_iff semiring_norm(76))
    then show ?thesis using k by simp
  qed
  then show ?thesis
    using and_pred_0_iff [OF n] by (auto simp: isPower2_def)
qed

lemma isPower2_floorLog2: "n \<noteq> 0 \<Longrightarrow> isPower2 n \<Longrightarrow> unat n = 2 ^ nat (floorLog2 n)"
  using and_pred_0_iff by (simp add: isPower2_def)

definition ones :: "nat \<Rightarrow> nat" where
  "ones n = card {k. bit n k}"

lemma ones_0: "ones 0 = 0"
  by (simp add: ones_def)

lemma bits_double: "{k. bit (2 * n :: nat) k} = Suc ` {k. bit n k}"
proof -
  have "bit (2 * n) k \<longleftrightarrow> (\<exists>j. k = Suc j \<and> bit n j)" for k
    by (cases k) (auto simp: bit_0 bit_Suc)
  then show ?thesis by auto
qed

lemma bits_double_Suc: "{k. bit (Suc (2 * n)) k} = insert 0 (Suc ` {k. bit n k})"
proof -
  have "bit (Suc (2 * n)) k \<longleftrightarrow> k = 0 \<or> (\<exists>j. k = Suc j \<and> bit n j)" for k
    by (cases k) (auto simp: bit_0 bit_Suc)
  then show ?thesis by auto
qed

lemma bit_nat_le: "bit (n :: nat) k \<Longrightarrow> 2 ^ k \<le> n"
  by (rule ccontr) (simp add: bit_iff_odd)

lemma finite_bits: "finite {k. bit (n :: nat) k}"
proof (rule finite_subset)
  show "{k. bit n k} \<subseteq> {..<n}"
    using less_le_trans [OF less_exp bit_nat_le] by auto
qed simp

lemma ones_double: "ones (2 * n) = ones n"
  by (simp add: ones_def bits_double card_image)

lemma ones_double_Suc: "ones (Suc (2 * n)) = Suc (ones n)"
  by (simp add: ones_def bits_double_Suc card_image finite_bits)

text \<open>Clearing the lowest one bit removes exactly one.\<close>

lemma ones_and_pred: "0 < n \<Longrightarrow> ones n = Suc (ones (n AND (n - 1)))"
proof (induction n rule: nat_bit_induct)
  case (even n)
  then obtain m where m: "n = Suc m" by (cases n) auto
  have "(2 * n) AND (2 * n - 1) = 2 * (n AND (n - 1))"
    by (simp add: m and_nat_rec [of "Suc (Suc (2 * m))"])
  with even show ?case by (simp add: ones_double)
next
  case (odd n)
  have "Suc (2 * n) AND (Suc (2 * n) - 1) = 2 * n"
    by (simp add: and_nat_rec [of "Suc (2 * n)"])
  then show ?case by (simp only: ones_double_Suc ones_double)
qed simp

lemma unat_and_pred: "(n :: 'a::len word) \<noteq> 0 \<Longrightarrow> unat (n AND (n - 1)) = unat n AND (unat n - 1)"
  by (simp add: unsigned_and_eq unat_minus_one)

lemma countBits_loop_ones:
  "n \<noteq> 0 \<Longrightarrow> countBits_loop n r = r + of_nat (ones (unat n)) - 1"
proof (induction n r rule: countBits_loop.induct)
  case (1 n r)
  note step = ones_and_pred [of "unat n", folded unat_and_pred [OF "1.prems"]]
  show ?case
  proof (cases "n AND (n - 1) = 0")
    case True
    with step "1.prems" show ?thesis
      by (simp add: countBits_loop.simps [of n] unat_gt_0 ones_0)
  next
    case False
    with "1.IH" step "1.prems" show ?thesis
      by (simp add: countBits_loop.simps [of n] unat_gt_0)
  qed
qed

lemma ones_le: "n < 2 ^ w \<Longrightarrow> ones n \<le> w"
proof -
  assume "n < 2 ^ w"
  then have "{k. bit n k} \<subseteq> {..<w}"
    using power_less_imp_less_exp [of 2, OF _ le_less_trans [OF bit_nat_le]] by auto
  then have "card {k. bit n k} \<le> card {..<w}"
    by (rule card_mono [rotated]) simp
  then show ?thesis by (simp add: ones_def)
qed

lemma countBits_ones: "unat (countBits n) = ones (unat n)"
proof (cases "n = 0")
  case False
  have "ones (unat n) \<le> 64"
    using unat_lt_two_power [of n] by (intro ones_le) simp
  with False show ?thesis
    by (simp add: countBits_def countBits_loop_ones unat_of_nat)
qed (simp add: countBits_def ones_0)

subsection \<open>Modular counters\<close>

lemma ModuloNum_plus_value_nat:
  assumes "ModuloNum_wf a" and "ModuloNum_wf b" and "m_max_value a = m_max_value b"
    and "unat (m_max_value a) \<le> 2 ^ 31"
  shows "ModuloNum_plus a b = Inr \<lparr>m_value = (m_value a + m_value b) mod m_max_value a, m_max_value = m_max_value a\<rparr>"
    and "unat ((m_value a + m_value b) mod m_max_value a) = (unat (m_value a) + unat (m_value b)) mod unat (m_max_value a)"
proof -
  have lt: "unat (m_value a) < 2 ^ 31" "unat (m_value b) < 2 ^ 31" and nz: "m_max_value a \<noteq> 0"
    using assms by (auto simp: ModuloNum_wf_def word_less_nat_alt)
  from nz assms(3) show "ModuloNum_plus a b = Inr \<lparr>m_value = (m_value a + m_value b) mod m_max_value a, m_max_value = m_max_value a\<rparr>"
    by (simp add: ModuloNum_plus_def)
  from lt have "unat (m_value a + m_value b) = unat (m_value a) + unat (m_value b)"
    by (simp add: unat_word_ariths)
  then show "unat ((m_value a + m_value b) mod m_max_value a) = (unat (m_value a) + unat (m_value b)) mod unat (m_max_value a)"
    by (simp add: unat_mod)
qed

lemma mod_sum_cases:
  fixes x y m :: nat
  assumes "x < m" and "y < m"
  shows "(x + y) mod m = (if x + y < m then x + y else x + y - m)"
  using assms by (simp add: mod_if)

lemma unat_sub_add_wrap:
  fixes a b m :: u32
  assumes "a < m" and "b < m" and "a < b"
  shows "unat (m - b + a) = unat m - unat b + unat a"
proof -
  have "unat (m - b) = unat m - unat b"
    using assms(2) by (intro unat_sub) simp
  moreover have "unat m - unat b + unat a < 2 ^ 32"
    using assms unat_lt_two_power [of m] by (simp add: word_less_nat_alt)
  ultimately show ?thesis by (simp add: unat_word_ariths)
qed

lemma ModuloNum_minus_plus:
  assumes wf: "ModuloNum_wf a" "ModuloNum_wf b" and m: "m_max_value a = m_max_value b"
    and c: "m_max_value c = m_max_value a"
      "unat (m_value c) = (unat (m_value a) + unat (m_value b)) mod unat (m_max_value a)"
  shows "ModuloNum_minus c b = Inr a"
proof -
  let ?M = "m_max_value a"
  have lt: "unat (m_value a) < unat ?M" "unat (m_value b) < unat ?M"
    using wf m by (auto simp: ModuloNum_wf_def word_less_nat_alt)
  note mc = c(2) [unfolded mod_sum_cases [OF lt]]
  have "(if m_value b \<le> m_value c then m_value c - m_value b else ?M - m_value b + m_value c) = m_value a"
  proof (cases "unat (m_value a) + unat (m_value b) < unat ?M")
    case True
    then have "m_value b \<le> m_value c"
      using mc by (simp add: word_le_nat_alt)
    with True mc show ?thesis by (simp add: word_unat_eq_iff unat_sub)
  next
    case False
    then have less: "m_value c < m_value b" and cM: "m_value c < ?M"
      using mc lt by (simp_all add: word_less_nat_alt)
    from lt have bM: "m_value b < ?M" by (simp add: word_less_nat_alt)
    have "unat (?M - m_value b + m_value c) = unat (m_value a)"
      using unat_sub_add_wrap [OF cM bM less] mc lt False by simp
    with less show ?thesis by (auto simp: word_unat_eq_iff)
  qed
  with c(1) m show ?thesis
    by (auto simp: ModuloNum_minus_def)
qed

subsection \<open>Properties\<close>

text \<open>
  C8. \<open>floorLog2\<close> (utils.cc) is the integer base-2 logarithm of every nonzero 32-bit
  argument and \<open>-1\<close> at zero; in particular its five-branch ladder never misses the
  most significant bit.
\<close>

theorem floorLog2_correct:
  "if n = 0 then floorLog2 n = - 1
   else 0 \<le> floorLog2 n \<and> 2 ^ nat (floorLog2 n) \<le> unat n \<and> unat n < 2 ^ Suc (nat (floorLog2 n))"
  using floorLog2_bounds by (auto simp: floorLog2_def)

text \<open>
  C9. \<open>countBits\<close> (utils.cc) terminates on every 64-bit argument and returns the
  number of its one bits.
\<close>

theorem countBits_correct: "unat (countBits n) = card {k. bit n k}"
  by (simp add: countBits_ones ones_def bit_simps)

text \<open>
  C10. \<open>ModuloNum\<close> (modulo_num.cc): for operands below a common maximum of at most
  \<open>2 ^ 31\<close>, \<open>operator+\<close> succeeds with the sum modulo that maximum, stays below it, and
  \<open>operator-\<close> undoes it. The bound matters: above it the 32-bit sum wraps before the
  reduction.
\<close>

theorem ModuloNum_add_sub:
  assumes "ModuloNum_wf a" and "ModuloNum_wf b" and "m_max_value a = m_max_value b"
    and "unat (m_max_value a) \<le> 2 ^ 31"
  shows "\<exists>c. ModuloNum_plus a b = Inr c \<and> ModuloNum_wf c \<and>
    unat (m_value c) = (unat (m_value a) + unat (m_value b)) mod unat (m_max_value a) \<and>
    ModuloNum_minus c b = Inr a"
proof -
  let ?c = "\<lparr>m_value = (m_value a + m_value b) mod m_max_value a, m_max_value = m_max_value a\<rparr>"
  note plus = ModuloNum_plus_value_nat [OF assms]
  have "0 < unat (m_max_value a)"
    using assms(1) by (auto simp: ModuloNum_wf_def word_less_nat_alt)
  then have "ModuloNum_wf ?c"
    using plus(2) by (simp add: ModuloNum_wf_def word_less_nat_alt)
  moreover have "ModuloNum_minus ?c b = Inr a"
    using plus(2) assms(1-3) by (intro ModuloNum_minus_plus) simp_all
  ultimately show ?thesis
    using plus by auto
qed

theorem ModuloNum_add_sub_witness:
  "\<exists>c. ModuloNum_plus \<lparr>m_value = 5, m_max_value = 7\<rparr> \<lparr>m_value = 6, m_max_value = 7\<rparr> = Inr c \<and>
     unat (m_value c) = 4 \<and>
     ModuloNum_minus c \<lparr>m_value = 6, m_max_value = 7\<rparr> = Inr \<lparr>m_value = 5, m_max_value = 7\<rparr>"
  using ModuloNum_add_sub [of "\<lparr>m_value = 5, m_max_value = 7\<rparr>" "\<lparr>m_value = 6, m_max_value = 7\<rparr>"]
  by (auto simp: ModuloNum_wf_def)

end
