(* ===== verification/CacheBlock.thy ===== *)
theory CacheBlock
  imports Prelude
begin

section \<open>Cache line metadata\<close>

text \<open>
  The coherence states of \<^verbatim>\<open>cache/cache_state.h\<close>, the per-line record
  \<open>CacheBlockInfo\<close> of \<^verbatim>\<open>cache/cache_block_info.{h,cc}\<close> and the extension
  \<open>PrL2CacheBlockInfo\<close> of \<^verbatim>\<open>cache/pr_l2_cache_block_info.{h,cc}\<close>, which tracks which
  first-level cache holds a copy. \<open>PrL1CacheBlockInfo\<close> and (without
  \<open>ENABLE_TRACK_SHARING_PREVCACHES\<close>, as the sources are built)
  \<open>SharedCacheBlockInfo\<close> add no state to the base record, and their
  \<open>invalidate\<close> and \<open>clone\<close> are the base ones. A line is valid iff its tag is not the
  all-ones word. The lemmas give the exact usage mask, the laws of the option bits and of
  the cached-location bits, errors included.
\<close>

subsection \<open>Coherence states\<close>

datatype cstate_t =
    INVALID | SHARED | SHARED_UPGRADING | EXCLUSIVE | OWNED | MODIFIED
  | INVALID_COLD | INVALID_EVICT | INVALID_COHERENCY

fun cstate_index :: "cstate_t \<Rightarrow> nat" where
  "cstate_index INVALID = 0"
| "cstate_index SHARED = 1"
| "cstate_index SHARED_UPGRADING = 2"
| "cstate_index EXCLUSIVE = 3"
| "cstate_index OWNED = 4"
| "cstate_index MODIFIED = 5"
| "cstate_index INVALID_COLD = 6"
| "cstate_index INVALID_EVICT = 7"
| "cstate_index INVALID_COHERENCY = 8"

definition readable :: "cstate_t \<Rightarrow> bool" where
  "readable c \<longleftrightarrow> c = MODIFIED \<or> c = OWNED \<or> c = SHARED \<or> c = EXCLUSIVE"

definition writable :: "cstate_t \<Rightarrow> bool" where
  "writable c \<longleftrightarrow> c = MODIFIED"

lemma cstate_index_inj: "cstate_index a = cstate_index b \<longleftrightarrow> a = b"
  by (cases a; cases b) simp_all

text \<open>The enumeration is ordered by its numeric values, as the C++ loops over it assume.\<close>

instantiation cstate_t :: linorder
begin

definition less_eq_cstate_t :: "cstate_t \<Rightarrow> cstate_t \<Rightarrow> bool" where
  "less_eq_cstate_t a b \<longleftrightarrow> cstate_index a \<le> cstate_index b"

definition less_cstate_t :: "cstate_t \<Rightarrow> cstate_t \<Rightarrow> bool" where
  "less_cstate_t a b \<longleftrightarrow> cstate_index a < cstate_index b"

instance
  by standard (auto simp: less_eq_cstate_t_def less_cstate_t_def cstate_index_inj)

end

lemma writable_readable: "writable c \<Longrightarrow> readable c"
  by (simp add: readable_def writable_def)

subsection \<open>Block information\<close>

datatype option_t = PREFETCH | WARMUP

fun option_index :: "option_t \<Rightarrow> nat" where
  "option_index PREFETCH = 0"
| "option_index WARMUP = 1"

definition getOptionName :: "nat \<Rightarrow> string" where
  "getOptionName i = (if i < 2 then [''prefetch'', ''warmup''] ! i else ''invalid'')"

record cache_block_info =
  m_tag :: IntPtr
  m_cstate :: cstate_t
  m_owner :: u64
  m_used :: u8
  m_options :: u8

definition CacheBlockInfo :: "IntPtr \<Rightarrow> cstate_t \<Rightarrow> u64 \<Rightarrow> cache_block_info" where
  "CacheBlockInfo tag cstate options =
     \<lparr>m_tag = tag, m_cstate = cstate, m_owner = 0, m_used = 0, m_options = ucast options\<rparr>"

text \<open>\<open>CacheBlockInfo::create\<close> for the cache types whose record has no extra fields.\<close>

definition CacheBlockInfo_create :: "cache_block_info" where
  "CacheBlockInfo_create = CacheBlockInfo (- 1) INVALID 0"

definition isValid :: "('a) cache_block_info_scheme \<Rightarrow> bool" where
  "isValid b \<longleftrightarrow> m_tag b \<noteq> - 1"

definition block_invalidate :: "('a) cache_block_info_scheme \<Rightarrow> ('a) cache_block_info_scheme" where
  "block_invalidate b = b\<lparr>m_tag := - 1, m_cstate := INVALID\<rparr>"

definition block_clone ::
    "('a) cache_block_info_scheme \<Rightarrow> ('b) cache_block_info_scheme \<Rightarrow> ('a) cache_block_info_scheme" where
  "block_clone dst src =
     dst\<lparr>m_tag := m_tag src, m_cstate := m_cstate src, m_owner := m_owner src,
         m_used := m_used src, m_options := m_options src\<rparr>"

definition hasOption :: "('a) cache_block_info_scheme \<Rightarrow> option_t \<Rightarrow> bool" where
  "hasOption b opt \<longleftrightarrow> m_options b AND push_bit (option_index opt) 1 \<noteq> 0"

definition setOption :: "('a) cache_block_info_scheme \<Rightarrow> option_t \<Rightarrow> ('a) cache_block_info_scheme" where
  "setOption b opt = b\<lparr>m_options := m_options b OR push_bit (option_index opt) 1\<rparr>"

definition clearOption :: "('a) cache_block_info_scheme \<Rightarrow> option_t \<Rightarrow> ('a) cache_block_info_scheme" where
  "clearOption b opt =
     b\<lparr>m_options := ucast (ucast (m_options b) AND NOT (push_bit (option_index opt) (1 :: u64)))\<rparr>"

definition updateUsage_bits ::
    "('a) cache_block_info_scheme \<Rightarrow> u8 \<Rightarrow> bool \<times> ('a) cache_block_info_scheme" where
  "updateUsage_bits b used =
     (used AND NOT (m_used b) \<noteq> 0, b\<lparr>m_used := m_used b OR used\<rparr>)"

definition shift_one :: "u64 \<Rightarrow> u64 res" where
  \<comment> \<open>\<open>1ull << n\<close>, undefined from 64 on\<close>
  "shift_one n = (if unat n < 64 then Inr (push_bit (unat n) 1) else Inl Undefined)"

definition updateUsage ::
    "('a) cache_block_info_scheme \<Rightarrow> u32 \<Rightarrow> u32 \<Rightarrow> (bool \<times> ('a) cache_block_info_scheme) res" where
  "updateUsage b offset sz =
     (let first = ucast (drop_bit 3 offset) :: u64;
          last = ucast (drop_bit 3 (offset + sz - 1)) :: u64
      in rbind (shift_one first) (\<lambda>f.
         rbind (shift_one (last + 1)) (\<lambda>l.
           let first_mask = f - 1; last_mask = l - 1;
               usage_mask = last_mask AND NOT first_mask
           in Inr (updateUsage_bits b (ucast usage_mask)))))"

subsection \<open>Private L2 lines: where the copy is cached\<close>

type_synonym component_t = nat

definition INVALID_MEM_COMPONENT :: component_t where "INVALID_MEM_COMPONENT = 0"
definition L1_ICACHE :: component_t where "L1_ICACHE = 2"
definition L1_DCACHE :: component_t where "L1_DCACHE = 3"
definition MAX_MEM_COMPONENT :: component_t where "MAX_MEM_COMPONENT = 24"

record pr_l2_cache_block_info = cache_block_info +
  m_cached_loc_bitvec :: u32

definition PrL2CacheBlockInfo :: "IntPtr \<Rightarrow> cstate_t \<Rightarrow> pr_l2_cache_block_info" where
  "PrL2CacheBlockInfo tag cstate =
     cache_block_info.extend (CacheBlockInfo tag cstate 0) \<lparr>m_cached_loc_bitvec = 0\<rparr>"

definition getCachedLoc :: "pr_l2_cache_block_info \<Rightarrow> component_t res" where
  "getCachedLoc b =
     rbind (ensure AssertFailed
        (m_cached_loc_bitvec b \<noteq> (push_bit L1_ICACHE 1 OR push_bit L1_DCACHE 1))) (\<lambda>_.
     if m_cached_loc_bitvec b = push_bit L1_ICACHE 1 then Inr L1_ICACHE
     else if m_cached_loc_bitvec b = push_bit L1_DCACHE 1 then Inr L1_DCACHE
     else if m_cached_loc_bitvec b = 0 then Inr INVALID_MEM_COMPONENT
     else Inl LogError)"

definition setCachedLoc :: "pr_l2_cache_block_info \<Rightarrow> component_t \<Rightarrow> pr_l2_cache_block_info res" where
  "setCachedLoc b loc =
     rbind (ensure AssertFailed (loc \<noteq> INVALID_MEM_COMPONENT)) (\<lambda>_.
     rbind (ensure Undefined (loc < 32)) (\<lambda>_.
     rbind (ensure AssertFailed (m_cached_loc_bitvec b AND push_bit loc 1 = 0)) (\<lambda>_.
     Inr (b\<lparr>m_cached_loc_bitvec := m_cached_loc_bitvec b OR push_bit loc 1\<rparr>))))"

definition clearCachedLoc :: "pr_l2_cache_block_info \<Rightarrow> component_t \<Rightarrow> pr_l2_cache_block_info res" where
  "clearCachedLoc b loc =
     rbind (ensure AssertFailed (loc \<noteq> INVALID_MEM_COMPONENT)) (\<lambda>_.
     rbind (ensure Undefined (loc < 32)) (\<lambda>_.
     rbind (ensure AssertFailed (m_cached_loc_bitvec b AND push_bit loc 1 \<noteq> 0)) (\<lambda>_.
     Inr (b\<lparr>m_cached_loc_bitvec := m_cached_loc_bitvec b AND NOT (push_bit loc 1)\<rparr>))))"

definition pr_l2_invalidate :: "pr_l2_cache_block_info \<Rightarrow> pr_l2_cache_block_info" where
  "pr_l2_invalidate b = block_invalidate (b\<lparr>m_cached_loc_bitvec := 0\<rparr>)"

definition pr_l2_clone :: "pr_l2_cache_block_info \<Rightarrow> pr_l2_cache_block_info \<Rightarrow> pr_l2_cache_block_info" where
  "pr_l2_clone dst src =
     block_clone (dst\<lparr>m_cached_loc_bitvec := m_cached_loc_bitvec src\<rparr>) src"

subsection \<open>Lemmas\<close>

lemma isValid_create [simp]: "\<not> isValid CacheBlockInfo_create"
  by (simp add: isValid_def CacheBlockInfo_create_def CacheBlockInfo_def)

lemma isValid_invalidate [simp]: "\<not> isValid (block_invalidate b)"
  by (simp add: isValid_def block_invalidate_def)

lemma m_tag_invalidate [simp]: "m_tag (block_invalidate b) = - 1"
  by (simp add: block_invalidate_def)

lemma m_cstate_invalidate [simp]: "m_cstate (block_invalidate b) = INVALID"
  by (simp add: block_invalidate_def)

lemma m_tag_create [simp]: "m_tag CacheBlockInfo_create = - 1"
  by (simp add: CacheBlockInfo_create_def CacheBlockInfo_def)

lemma m_cstate_create [simp]: "m_cstate CacheBlockInfo_create = INVALID"
  by (simp add: CacheBlockInfo_create_def CacheBlockInfo_def)

lemma block_clone_eq: "block_clone (dst :: cache_block_info) src = src"
  by (simp add: block_clone_def)

lemma isValid_clone [simp]: "isValid (block_clone dst src) = isValid src"
  by (simp add: isValid_def block_clone_def)

lemma m_tag_clone [simp]: "m_tag (block_clone dst src) = m_tag src"
  by (simp add: block_clone_def)

lemma and_push_bit_1: "(x :: 'a::len word) AND push_bit k 1 \<noteq> 0 \<longleftrightarrow> bit x k"
proof -
  have "x AND push_bit k 1 = (if bit x k then push_bit k 1 else 0)"
    by (rule bit_word_eqI) (auto simp: bit_simps)
  moreover have "push_bit k (1 :: 'a word) \<noteq> 0" if "bit x k"
    using bit_imp_le_length [OF that] by simp
  ultimately show ?thesis by auto
qed

lemma hasOption_bit: "hasOption b opt \<longleftrightarrow> bit (m_options b) (option_index opt)"
  unfolding hasOption_def by (rule and_push_bit_1)

lemma option_index_inj [simp]: "option_index a = option_index b \<longleftrightarrow> a = b"
  by (cases a; cases b) simp_all

lemma option_index_less: "option_index a < 8"
  by (cases a) simp_all

lemma hasOption_setOption: "hasOption (setOption b a) opt \<longleftrightarrow> opt = a \<or> hasOption b opt"
  using option_index_less [of opt] unfolding hasOption_bit
  by (auto simp: setOption_def bit_simps)

lemma hasOption_clearOption: "hasOption (clearOption b a) opt \<longleftrightarrow> opt \<noteq> a \<and> hasOption b opt"
  using option_index_less [of opt] unfolding hasOption_bit
  by (auto simp: clearOption_def bit_simps)

lemma shift_one_mask: "unat n < 64 \<Longrightarrow> shift_one n = Inr (mask (unat n) + 1)"
  by (simp add: shift_one_def mask_eq_exp_minus_1)

text \<open>An access inside a 64-byte line marks exactly the 8-byte elements it touches.\<close>

lemma updateUsage_mask:
  assumes "0 < unat sz" and "unat offset + unat sz \<le> 64"
  shows "updateUsage b offset sz =
    Inr (updateUsage_bits b
      (ucast ((mask (Suc ((unat offset + unat sz - 1) div 8)) :: u64) AND NOT (mask (unat offset div 8)))))"
proof -
  have sum: "unat (offset + sz) = unat offset + unat sz"
    using assms(2) by (simp add: unat_word_ariths)
  have "unat (offset + sz - 1) = unat offset + unat sz - 1"
    using assms(1) sum by (subst unat_minus_one) (auto simp: word_unat_eq_iff)
  then have last: "unat (ucast (drop_bit 3 (offset + sz - 1)) :: u64) = (unat offset + unat sz - 1) div 8"
    using assms(2) by (simp add: unat_drop unsigned_ucast_eq take_bit_nat_eq_self_iff)
  have first: "unat (ucast (drop_bit 3 offset) :: u64) = unat offset div 8"
    using assms by (simp add: unat_drop unsigned_ucast_eq take_bit_nat_eq_self_iff)
  have "(unat offset + unat sz - 1) div 8 \<le> 7" "unat offset div 8 \<le> 7"
    using assms by auto
  with first last show ?thesis
    by (simp add: updateUsage_def Let_def shift_one_mask unat_word_ariths)
qed

lemma bit_usage_mask:
  "bit (ucast ((mask m :: u64) AND NOT (mask n)) :: u8) k \<longleftrightarrow> k < 8 \<and> n \<le> k \<and> k < m"
  by (auto simp: bit_simps)

lemma and_not_eq_0_iff: "(m :: 'a::len word) AND NOT u = 0 \<longleftrightarrow> u OR m = u"
  by (auto simp: bit_eq_iff bit_simps)

lemma setCachedLoc_eq:
  assumes "loc \<noteq> INVALID_MEM_COMPONENT" and "loc < 32"
  shows "setCachedLoc b loc =
    (if bit (m_cached_loc_bitvec b) loc then Inl AssertFailed
     else Inr (b\<lparr>m_cached_loc_bitvec := m_cached_loc_bitvec b OR push_bit loc 1\<rparr>))"
  using assms and_push_bit_1 [of "m_cached_loc_bitvec b" loc]
  by (auto simp: setCachedLoc_def ensure_def)

lemma clearCachedLoc_eq:
  assumes "loc \<noteq> INVALID_MEM_COMPONENT" and "loc < 32"
  shows "clearCachedLoc b loc =
    (if bit (m_cached_loc_bitvec b) loc
     then Inr (b\<lparr>m_cached_loc_bitvec := m_cached_loc_bitvec b AND NOT (push_bit loc 1)\<rparr>)
     else Inl AssertFailed)"
  using assms and_push_bit_1 [of "m_cached_loc_bitvec b" loc]
  by (auto simp: clearCachedLoc_def ensure_def)

lemma or_and_not_bit: "\<not> bit (x :: 'a::len word) k \<Longrightarrow> (x OR push_bit k 1) AND NOT (push_bit k 1) = x"
  by (rule bit_word_eqI) (auto simp: bit_simps)

lemma bit_or_push: "k < LENGTH('a) \<Longrightarrow> bit ((x :: 'a::len word) OR push_bit k 1) k"
  by (simp add: bit_simps)

subsection \<open>Properties\<close>

text \<open>
  C11. \<open>CacheBlockInfo::updateUsage(offset, size)\<close>: for a nonempty access inside a
  64-byte line the call neither shifts out of range nor loses bits. Afterwards the usage
  mask has exactly its old bits and one bit for every 8-byte element the access touches,
  the result says whether a bit is new, and nothing else of the line changes.
\<close>

theorem updateUsage_correct:
  assumes "0 < unat sz" and "unat offset + unat sz \<le> 64"
  shows "\<exists>used new. updateUsage b offset sz = Inr (new, b\<lparr>m_used := used\<rparr>) \<and>
    (\<forall>k. bit used k = (bit (m_used b) k \<or>
       (k < 8 \<and> unat offset div 8 \<le> k \<and> k \<le> (unat offset + unat sz - 1) div 8))) \<and>
    new = (used \<noteq> m_used b)"
proof -
  let ?m = "ucast ((mask (Suc ((unat offset + unat sz - 1) div 8)) :: u64) AND NOT (mask (unat offset div 8))) :: u8"
  show ?thesis
    unfolding updateUsage_mask [OF assms] updateUsage_bits_def
    by (intro exI [of _ "m_used b OR ?m"] exI [of _ "?m AND NOT (m_used b) \<noteq> 0"])
      (auto simp: and_not_eq_0_iff bit_or_iff bit_usage_mask less_Suc_eq_le)
qed

theorem updateUsage_correct_witness:
  "\<exists>used new. updateUsage (CacheBlockInfo 5 SHARED 0) 12 8 = Inr (new, (CacheBlockInfo 5 SHARED 0)\<lparr>m_used := used\<rparr>) \<and>
     bit used 1 \<and> bit used 2 \<and> \<not> bit used 3 \<and> new"
  using updateUsage_correct [of 8 12 "CacheBlockInfo 5 SHARED 0"]
  by (force simp: CacheBlockInfo_def)

text \<open>
  C12. \<open>PrL2CacheBlockInfo\<close>: for every real memory component, recording a cached
  location succeeds exactly when that location is not recorded yet (else the assertion
  fails), records that bit, a second recording is refused, and \<open>clearCachedLoc\<close> restores
  the line.
\<close>

theorem setCachedLoc_clearCachedLoc:
  assumes "loc \<noteq> INVALID_MEM_COMPONENT" and "loc \<le> MAX_MEM_COMPONENT"
  shows "if bit (m_cached_loc_bitvec b) loc then setCachedLoc b loc = Inl AssertFailed
    else \<exists>b'. setCachedLoc b loc = Inr b' \<and> bit (m_cached_loc_bitvec b') loc \<and>
      setCachedLoc b' loc = Inl AssertFailed \<and> clearCachedLoc b' loc = Inr b"
proof -
  have loc: "loc < 32" using assms(2) by (simp add: MAX_MEM_COMPONENT_def)
  show ?thesis
    using loc bit_or_push [of loc "m_cached_loc_bitvec b"] or_and_not_bit [of "m_cached_loc_bitvec b" loc]
    by (auto simp: setCachedLoc_eq [OF assms(1) loc] clearCachedLoc_eq [OF assms(1) loc])
qed

theorem setCachedLoc_clearCachedLoc_witness:
  "\<exists>b'. setCachedLoc (PrL2CacheBlockInfo 9 SHARED) L1_DCACHE = Inr b' \<and>
     clearCachedLoc b' L1_DCACHE = Inr (PrL2CacheBlockInfo 9 SHARED)"
  using setCachedLoc_clearCachedLoc [of L1_DCACHE "PrL2CacheBlockInfo 9 SHARED"]
  by (auto simp: L1_DCACHE_def INVALID_MEM_COMPONENT_def MAX_MEM_COMPONENT_def PrL2CacheBlockInfo_def
    CacheBlockInfo_def cache_block_info.defs)

end
