(* ===== verification/CacheGeom.thy ===== *)
theory CacheGeom
  imports Utils CacheBlock
begin

section \<open>Cache geometry: splitting addresses into tags, sets and offsets\<close>

text \<open>
  \<^verbatim>\<open>cache/cache_base.{h,cc}\<close> (\<open>CacheBase\<close>) and
  \<^verbatim>\<open>address_home_lookup.{h,cc}\<close> (\<open>AddressHomeLookup\<close>). The tag of this cache is the
  whole block number, so a tag determines its address; the set index is a hash of the
  (possibly linearised) block number. The lemmas show that the set index is in range for
  every constructible cache, that splitting loses nothing, that all addresses of one block
  fall into one set also under linearisation, and that linearisation is strictly increasing
  within a home node.
\<close>

subsection \<open>Definitions\<close>

record AddressHomeLookup =
  m_ahl_param :: u32
  m_ahl_mask :: u64
  m_core_list :: "int list"
  m_total_modules :: u32
  m_cache_block_size :: u32

definition AddressHomeLookup_new :: "u32 \<Rightarrow> int list \<Rightarrow> u32 \<Rightarrow> AddressHomeLookup res" where
  "AddressHomeLookup_new ahl_param core_list cache_block_size =
     rbind (ensure Undefined (unat ahl_param < 31)) (\<lambda>_. \<comment> \<open>\<open>1 << m_ahl_param\<close> at type int\<close>
     rbind (ensure AssertFailed (2 ^ unat ahl_param \<ge> sint cache_block_size)) (\<lambda>_.
     Inr \<lparr>m_ahl_param = ahl_param, m_ahl_mask = push_bit (unat ahl_param) 1 - 1,
          m_core_list = core_list, m_total_modules = of_nat (length core_list),
          m_cache_block_size = cache_block_size\<rparr>))"

definition getHome :: "AddressHomeLookup \<Rightarrow> IntPtr \<Rightarrow> int res" where
  "getHome a address =
     rbind (ensure Undefined (m_total_modules a \<noteq> 0)) (\<lambda>_.
     let module_num = sint (ucast (drop_bit (unat (m_ahl_param a)) address mod ucast (m_total_modules a)) :: u32)
     in rbind (ensure AssertFailed (0 \<le> module_num \<and> module_num < sint (m_total_modules a))) (\<lambda>_.
        nth_res (m_core_list a) (nat module_num)))"

definition getLinearBlock :: "AddressHomeLookup \<Rightarrow> IntPtr \<Rightarrow> IntPtr res" where
  "getLinearBlock a address =
     rbind (ensure Undefined (m_total_modules a \<noteq> 0)) (\<lambda>_.
     Inr (drop_bit (unat (m_ahl_param a)) address div ucast (m_total_modules a)))"

definition getLinearAddress :: "AddressHomeLookup \<Rightarrow> IntPtr \<Rightarrow> IntPtr res" where
  "getLinearAddress a address =
     rbind (getLinearBlock a address) (\<lambda>b.
     Inr (push_bit (unat (m_ahl_param a)) b OR (address AND m_ahl_mask a)))"

datatype hash_t = INVALID_HASH_TYPE | HASH_MASK | HASH_MOD | HASH_RNG1_MOD | HASH_RNG2_MOD

record CacheBase =
  cb_name :: string
  cb_cache_size :: u64
  cb_associativity :: u32
  cb_blocksize :: u32
  cb_hash :: hash_t
  cb_num_sets :: u32
  cb_ahl :: "AddressHomeLookup option"
  cb_log_blocksize :: u32

definition CacheBase_new ::
    "string \<Rightarrow> u32 \<Rightarrow> u32 \<Rightarrow> u32 \<Rightarrow> hash_t \<Rightarrow> AddressHomeLookup option \<Rightarrow> CacheBase res" where
  "CacheBase_new name num_sets associativity cache_block_size hash ahl =
     rbind (ensure Undefined (num_sets \<noteq> 0)) (\<lambda>_. \<comment> \<open>else \<open>1UL << -1\<close>\<close>
     rbind (ensure AssertFailed
        (ucast num_sets = (push_bit (nat (floorLog2 num_sets)) 1 :: u64) \<or> hash \<noteq> HASH_MASK)) (\<lambda>_.
     Inr \<lparr>cb_name = name,
          cb_cache_size = ucast num_sets * ucast associativity * ucast cache_block_size,
          cb_associativity = associativity, cb_blocksize = cache_block_size, cb_hash = hash,
          cb_num_sets = num_sets, cb_ahl = ahl,
          cb_log_blocksize = word_of_int (floorLog2 cache_block_size)\<rparr>))"

definition parseAddressHash :: "string \<Rightarrow> hash_t res" where
  "parseAddressHash s =
     (if s = ''mask'' then Inr HASH_MASK
      else if s = ''mod'' then Inr HASH_MOD
      else if s = ''rng1_mod'' then Inr HASH_RNG1_MOD
      else if s = ''rng2_mod'' then Inr HASH_RNG2_MOD
      else Inl LogError)"

definition hash_set_index :: "hash_t \<Rightarrow> u32 \<Rightarrow> IntPtr \<Rightarrow> u32 res" where
  \<comment> \<open>the \<open>switch(m_hash)\<close> of \<open>splitAddress\<close>\<close>
  "hash_set_index h num_sets block_num =
     (case h of
        HASH_MASK \<Rightarrow> Inr (ucast (block_num AND ucast (num_sets - 1)))
      | HASH_MOD \<Rightarrow>
          if num_sets = 0 then Inl Undefined else Inr (ucast (block_num mod ucast num_sets))
      | HASH_RNG1_MOD \<Rightarrow>
          if num_sets = 0 then Inl Undefined
          else Inr (ucast (fst (rng_next (rng_seed block_num)) mod ucast num_sets))
      | HASH_RNG2_MOD \<Rightarrow>
          if num_sets = 0 then Inl Undefined
          else Inr (ucast (fst (rng_next (snd (rng_next (rng_seed block_num)))) mod ucast num_sets))
      | INVALID_HASH_TYPE \<Rightarrow> Inl LogError)"

definition splitAddress :: "CacheBase \<Rightarrow> IntPtr \<Rightarrow> (IntPtr \<times> u32) res" where
  "splitAddress c addr =
     rbind (ensure Undefined (unat (cb_log_blocksize c) < 64)) (\<lambda>_.
     let tag = drop_bit (unat (cb_log_blocksize c)) addr
     in rbind (case cb_ahl c of None \<Rightarrow> Inr addr | Some a \<Rightarrow> getLinearAddress a addr) (\<lambda>linearAddress.
        let block_num = drop_bit (unat (cb_log_blocksize c)) linearAddress
        in rbind (hash_set_index (cb_hash c) (cb_num_sets c) block_num) (\<lambda>set_index.
           Inr (tag, set_index))))"

definition splitAddress_offset :: "CacheBase \<Rightarrow> IntPtr \<Rightarrow> (IntPtr \<times> u32 \<times> u32) res" where
  "splitAddress_offset c addr =
     (let block_offset = ucast (addr AND ucast (cb_blocksize c - 1))
      in rbind (splitAddress c addr) (\<lambda>(tag, set_index). Inr (tag, set_index, block_offset)))"

definition tagToAddress :: "CacheBase \<Rightarrow> IntPtr \<Rightarrow> IntPtr" where
  "tagToAddress c tag = push_bit (unat (cb_log_blocksize c)) tag"

text \<open>
  The caches the simulator builds: constructed without error, with a block size that is a
  power of two of at least the address-interleaving granularity, and a known hash.
\<close>

definition ahl_wf :: "AddressHomeLookup \<Rightarrow> bool" where
  "ahl_wf a \<longleftrightarrow> AddressHomeLookup_new (m_ahl_param a) (m_core_list a) (m_cache_block_size a) = Inr a \<and>
     0 < length (m_core_list a) \<and> length (m_core_list a) < 2 ^ 31"

definition CacheBase_wf :: "CacheBase \<Rightarrow> bool" where
  "CacheBase_wf c \<longleftrightarrow>
     CacheBase_new (cb_name c) (cb_num_sets c) (cb_associativity c) (cb_blocksize c) (cb_hash c) (cb_ahl c) = Inr c \<and>
     cb_hash c \<noteq> INVALID_HASH_TYPE \<and> cb_blocksize c \<noteq> 0 \<and> isPower2 (cb_blocksize c) \<and>
     (case cb_ahl c of None \<Rightarrow> True
      | Some a \<Rightarrow> ahl_wf a \<and> unat (cb_log_blocksize c) \<le> unat (m_ahl_param a))"

subsection \<open>Set indices\<close>

lemma unat_ucast_64 [simp]: "unat (ucast (n :: u32) :: u64) = unat n"
proof -
  have "unat n < 2 ^ 64" using unat_lt_two_power [of n] by simp
  then show ?thesis by (simp add: unsigned_ucast_eq take_bit_nat_eq_self)
qed

lemma ucast_mod_less: "n \<noteq> 0 \<Longrightarrow> (ucast ((b :: u64) mod ucast (n :: u32)) :: u32) < n"
proof -
  assume "n \<noteq> 0"
  then have "unat (b mod ucast n) < unat n"
    by (simp add: unat_mod unat_gt_0)
  then show ?thesis
    using unat_lt_two_power [of n]
    by (simp add: word_less_nat_alt unsigned_ucast_eq take_bit_nat_eq_self)
qed

lemma ucast_mask_less: "n \<noteq> 0 \<Longrightarrow> (ucast ((b :: u64) AND ucast ((n :: u32) - 1)) :: u32) < n"
proof -
  assume n: "n \<noteq> 0"
  have "unat (b AND ucast (n - 1)) \<le> unat (ucast (n - 1) :: u64)"
    using word_and_le1 [of b "ucast (n - 1)"] by (simp only: word_le_nat_alt)
  also have "\<dots> < unat n"
    using n by (simp add: unat_minus_one unat_gt_0)
  finally show ?thesis
    using unat_lt_two_power [of n]
    by (simp add: word_less_nat_alt unsigned_ucast_eq take_bit_nat_eq_self)
qed

lemma hash_set_index_total:
  assumes "num_sets \<noteq> 0" and "h \<noteq> INVALID_HASH_TYPE"
  shows "\<exists>i. hash_set_index h num_sets b = Inr i \<and> i < num_sets"
  using assms ucast_mod_less [OF assms(1)] ucast_mask_less [OF assms(1)]
  by (cases h) (simp_all add: hash_set_index_def)

subsection \<open>Constructed caches\<close>

lemma CacheBase_wf_facts:
  assumes "CacheBase_wf c"
  shows "cb_num_sets c \<noteq> 0" and "cb_hash c \<noteq> INVALID_HASH_TYPE"
    and "unat (cb_log_blocksize c) < 32"
    and "unat (cb_blocksize c) = 2 ^ unat (cb_log_blocksize c)"
proof -
  note wf = assms [unfolded CacheBase_wf_def]
  from wf show "cb_num_sets c \<noteq> 0" and "cb_hash c \<noteq> INVALID_HASH_TYPE"
    by (auto simp: CacheBase_new_def)
  have log: "cb_log_blocksize c = word_of_int (floorLog2 (cb_blocksize c))"
    using wf by (cases c) (auto simp: CacheBase_new_def)
  have bs: "cb_blocksize c \<noteq> 0" "isPower2 (cb_blocksize c)" using wf by auto
  have p2: "unat (cb_blocksize c) = 2 ^ nat (floorLog2 (cb_blocksize c))"
    using bs by (rule isPower2_floorLog2)
  have "(2 :: nat) ^ nat (floorLog2 (cb_blocksize c)) < 2 ^ 32"
    using p2 unat_lt_two_power [of "cb_blocksize c"] by simp
  then have lt: "nat (floorLog2 (cb_blocksize c)) < 32"
    by (rule power_less_imp_less_exp [rotated]) simp
  have "unat (cb_log_blocksize c) = nat (floorLog2 (cb_blocksize c))"
    using lt floorLog2_bounds(1) [OF bs(1)]
    by (simp add: log unsigned_of_int take_bit_int_eq_self nat_less_iff)
  with lt p2 show "unat (cb_log_blocksize c) < 32"
    and "unat (cb_blocksize c) = 2 ^ unat (cb_log_blocksize c)" by simp_all
qed

lemma CacheBase_wf_ahl:
  assumes "CacheBase_wf c" and "cb_ahl c = Some a"
  shows "ahl_wf a" and "unat (cb_log_blocksize c) \<le> unat (m_ahl_param a)"
  using assms by (auto simp: CacheBase_wf_def)

lemma ahl_wf_facts:
  assumes "ahl_wf a"
  shows "unat (m_ahl_param a) < 31" and "m_ahl_mask a = mask (unat (m_ahl_param a))"
    and "unat (m_total_modules a) = length (m_core_list a)" and "m_total_modules a \<noteq> 0"
proof -
  note wf = assms [unfolded ahl_wf_def AddressHomeLookup_new_def]
  then show "unat (m_ahl_param a) < 31" by auto
  from wf show "m_ahl_mask a = mask (unat (m_ahl_param a))"
    by (cases a) (auto simp: mask_eq_exp_minus_1)
  have "m_total_modules a = of_nat (length (m_core_list a))"
    using wf by (cases a) auto
  with wf show n: "unat (m_total_modules a) = length (m_core_list a)"
    by (simp add: unat_of_nat)
  with wf show "m_total_modules a \<noteq> 0" by auto
qed

text \<open>The linear address as a natural number.\<close>

lemma unat_or_disjoint:
  fixes x y :: "'a::len word"
  assumes "unat x * 2 ^ p < 2 ^ LENGTH('a)"
  shows "unat (push_bit p x OR (y AND mask p)) = unat x * 2 ^ p + unat y mod 2 ^ p"
proof -
  have "unat (push_bit p x OR (y AND mask p)) = unat (push_bit p x) OR take_bit p (unat y)"
    by (simp add: unsigned_or_eq unsigned_take_bit_eq flip: take_bit_eq_mask)
  also have "unat (push_bit p x) = push_bit p (unat x)"
    unfolding unsigned_push_bit_eq using assms by (simp add: push_bit_eq_mult take_bit_nat_eq_self)
  also have "push_bit p (unat x) OR take_bit p (unat y) = push_bit p (unat x) + take_bit p (unat y)"
    by (rule disjunctive_add [symmetric]) (auto simp: bit_simps)
  finally show ?thesis by (simp add: push_bit_eq_mult take_bit_eq_mod)
qed

lemma getLinearAddress_nat:
  assumes "ahl_wf a"
  shows "\<exists>l. getLinearAddress a addr = Inr l \<and>
    unat l = (unat addr div 2 ^ unat (m_ahl_param a) div length (m_core_list a)) * 2 ^ unat (m_ahl_param a)
           + unat addr mod 2 ^ unat (m_ahl_param a)"
proof -
  note f = ahl_wf_facts [OF assms]
  let ?p = "unat (m_ahl_param a)" and ?n = "length (m_core_list a)"
  let ?b = "drop_bit ?p addr div ucast (m_total_modules a)"
  have b: "unat ?b = unat addr div 2 ^ ?p div ?n"
    by (simp add: unat_div unat_drop f(3))
  have "unat ?b * 2 ^ ?p \<le> unat addr div 2 ^ ?p * 2 ^ ?p"
    unfolding b by (rule mult_right_mono) simp_all
  also have "\<dots> \<le> unat addr" by simp
  finally have "unat ?b * 2 ^ ?p < 2 ^ LENGTH(64)"
    using unat_lt_two_power [of addr] by (rule le_less_trans)
  from unat_or_disjoint [OF this, of addr] f show ?thesis
    by (simp add: getLinearAddress_def getLinearBlock_def b)
qed

subsection \<open>Splitting succeeds and is in range\<close>

lemma linear_ok:
  assumes "CacheBase_wf c"
  shows "\<exists>l. (case cb_ahl c of None \<Rightarrow> Inr addr | Some a \<Rightarrow> getLinearAddress a addr) = Inr l"
  using getLinearAddress_nat [OF CacheBase_wf_ahl(1) [OF assms], of _ addr]
  by (cases "cb_ahl c") auto

lemma splitAddress_ok:
  assumes "CacheBase_wf c"
  obtains i where "splitAddress c addr = Inr (drop_bit (unat (cb_log_blocksize c)) addr, i)"
    and "i < cb_num_sets c"
proof -
  note f = CacheBase_wf_facts [OF assms]
  obtain l where l: "(case cb_ahl c of None \<Rightarrow> Inr addr | Some a \<Rightarrow> getLinearAddress a addr) = Inr l"
    using linear_ok [OF assms] by blast
  obtain i where i: "hash_set_index (cb_hash c) (cb_num_sets c) (drop_bit (unat (cb_log_blocksize c)) l) = Inr i"
      "i < cb_num_sets c"
    using hash_set_index_total [OF f(1,2)] by blast
  from l i f(3) have "splitAddress c addr = Inr (drop_bit (unat (cb_log_blocksize c)) addr, i)"
    by (simp add: splitAddress_def)
  with i(2) that show ?thesis by blast
qed

subsection \<open>Blocks and sets\<close>

lemma div_mult_mod_split:
  fixes x p q :: nat
  assumes "l \<le> p"
  shows "(q * 2 ^ p + x mod 2 ^ p) div 2 ^ l = q * 2 ^ (p - l) + (x div 2 ^ l) mod 2 ^ (p - l)"
proof -
  have p: "(2 :: nat) ^ p = 2 ^ (p - l) * 2 ^ l"
    using assms by (simp flip: power_add)
  have "x mod (2 ^ (p - l) * 2 ^ l) div 2 ^ l = x div 2 ^ l mod 2 ^ (p - l)"
    using drop_bit_take_bit [of l p x] unfolding p [symmetric]
    by (simp only: drop_bit_eq_div take_bit_eq_mod)
  moreover have "(q * 2 ^ p + x mod 2 ^ p) div 2 ^ l = q * 2 ^ (p - l) + x mod 2 ^ p div 2 ^ l"
    unfolding p by (subst mult.assoc [symmetric], subst div_mult_self3) simp_all
  ultimately show ?thesis by (simp add: p)
qed

lemma linear_block_eq:
  assumes wf: "CacheBase_wf c" and a: "cb_ahl c = Some a"
    and same: "drop_bit (unat (cb_log_blocksize c)) addr = drop_bit (unat (cb_log_blocksize c)) addr'"
    and l: "getLinearAddress a addr = Inr l" "getLinearAddress a addr' = Inr l'"
  shows "drop_bit (unat (cb_log_blocksize c)) l = drop_bit (unat (cb_log_blocksize c)) l'"
proof -
  let ?k = "unat (cb_log_blocksize c)" and ?p = "unat (m_ahl_param a)" and ?n = "length (m_core_list a)"
  note ahl = CacheBase_wf_ahl [OF wf a]
  have k: "unat addr div 2 ^ ?k = unat addr' div 2 ^ ?k"
    using same by (metis unat_drop)
  have "unat x div 2 ^ ?p = unat x div 2 ^ ?k div 2 ^ (?p - ?k)" for x :: IntPtr
    using ahl(2) by (simp add: div_mult2_eq [symmetric] power_add [symmetric])
  with k have p: "unat addr div 2 ^ ?p = unat addr' div 2 ^ ?p" by simp
  have "unat l div 2 ^ ?k = unat l' div 2 ^ ?k"
    using getLinearAddress_nat [OF ahl(1), of addr] getLinearAddress_nat [OF ahl(1), of addr'] l
      div_mult_mod_split [OF ahl(2)] k p by auto
  then show ?thesis by (simp add: word_unat_eq_iff unat_drop)
qed

lemma splitAddress_same_block:
  assumes wf: "CacheBase_wf c"
    and same: "drop_bit (unat (cb_log_blocksize c)) addr = drop_bit (unat (cb_log_blocksize c)) addr'"
  shows "splitAddress c addr = splitAddress c addr'"
proof (cases "cb_ahl c")
  case None
  with same show ?thesis by (simp add: splitAddress_def)
next
  case (Some a)
  obtain l l' where l: "getLinearAddress a addr = Inr l" "getLinearAddress a addr' = Inr l'"
    using getLinearAddress_nat [OF CacheBase_wf_ahl(1) [OF wf Some]] by blast
  with linear_block_eq [OF wf Some same l] same Some show ?thesis
    by (simp add: splitAddress_def)
qed

lemma drop_bit_eq_iff_same_block:
  "drop_bit k (x :: 'a::len word) = drop_bit k y \<longleftrightarrow> unat x div 2 ^ k = unat y div 2 ^ k"
  by (simp add: word_unat_eq_iff unat_drop)

lemma push_drop_offset:
  fixes x :: u64
  assumes "k < 32" and "unat b = 2 ^ k"
  shows "push_bit k (drop_bit k x) + ucast (ucast (x AND ucast ((b :: u32) - 1)) :: u32) = x"
    and "unat (ucast (x AND ucast (b - 1)) :: u32) < 2 ^ k"
proof -
  have b0: "b \<noteq> 0" using assms(2) by (auto simp: word_unat_eq_iff)
  have "unat (ucast (b - 1) :: u64) = unat (mask k :: u64)"
    using assms b0 by (simp add: unat_minus_one unat_mask)
  then have m: "ucast (b - 1) = (mask k :: u64)" by (simp only: word_unat_eq_iff)
  have t: "unat (take_bit k x) = unat x mod 2 ^ k"
    unfolding unsigned_take_bit_eq by (rule take_bit_eq_mod)
  have lt: "unat x mod 2 ^ k < 2 ^ k" by simp
  also have "(2 :: nat) ^ k \<le> 2 ^ 32"
    using assms(1) by (intro power_increasing) simp_all
  finally have lt32: "unat x mod 2 ^ k < 2 ^ 32" .
  have o: "unat (ucast (x AND ucast (b - 1)) :: u32) = unat x mod 2 ^ k"
    unfolding m take_bit_eq_mask [symmetric]
    using lt32 by (simp add: unsigned_ucast_eq t take_bit_nat_eq_self)
  with lt show "unat (ucast (x AND ucast (b - 1)) :: u32) < 2 ^ k" by simp
  have "ucast (ucast (x AND ucast (b - 1)) :: u32) = take_bit k x"
    by (simp only: word_unat_eq_iff unat_ucast_64 o t)
  moreover have "push_bit k (drop_bit k x) + take_bit k x = x"
    by (simp add: bits_ident)
  ultimately show "push_bit k (drop_bit k x) + ucast (ucast (x AND ucast (b - 1)) :: u32) = x"
    by simp
qed

subsection \<open>Order of linear addresses\<close>

lemma linear_strict_mono:
  fixes x y :: nat
  assumes "x < y" and "x div P mod n = y div P mod n" and "0 < P"
  shows "(x div P div n) * P + x mod P < (y div P div n) * P + y mod P"
proof -
  have le: "x div P \<le> y div P"
    using assms(1) by (intro div_le_mono) simp
  have ex: "x div P = (x div P div n) * n + x div P mod n" and ey: "y div P = (y div P div n) * n + y div P mod n"
    by simp_all
  show ?thesis
  proof (cases "x div P div n = y div P div n")
    case True
    with ex ey assms(2) have "x div P = y div P" by metis
    with assms(1) have "x mod P < y mod P"
      by (metis div_mult_mod_eq add_less_cancel_left)
    with True show ?thesis by simp
  next
    case False
    with le have "x div P div n < y div P div n"
      using div_le_mono [OF le, of n] by simp
    then have "Suc (x div P div n) * P \<le> (y div P div n) * P"
      by (intro mult_right_mono) simp_all
    moreover have "x mod P < P" using assms(3) by simp
    ultimately show ?thesis by simp
  qed
qed

subsection \<open>Properties\<close>


definition example_base :: CacheBase where
  "example_base =
     \<lparr>cb_name = ''L2'', cb_cache_size = 0x200000, cb_associativity = 8, cb_blocksize = 64,
      cb_hash = HASH_MASK, cb_num_sets = 4096, cb_ahl = None, cb_log_blocksize = 6\<rparr>"

lemma example_base_wf: "CacheBase_wf example_base"
  by (simp add: CacheBase_wf_def CacheBase_new_def example_base_def floorLog2_def floorLog2_step_def
    isPower2_def Let_def)


text \<open>
  C14. Two addresses split to the same tag exactly when they lie in the same block, and then
  they also split to the same set, even where the set is computed from the linearised
  address of an \<open>AddressHomeLookup\<close>: a line can only ever be looked up in one set.
\<close>

theorem splitAddress_same_set:
  assumes "CacheBase_wf c"
    and "splitAddress c addr = Inr (tag, set_index)" and "splitAddress c addr' = Inr (tag', set_index')"
  shows "(tag = tag') = (unat addr div unat (cb_blocksize c) = unat addr' div unat (cb_blocksize c)) \<and>
    (if tag = tag' then set_index = set_index' else True)"
proof -
  note f = CacheBase_wf_facts [OF assms(1)]
  have tags: "tag = drop_bit (unat (cb_log_blocksize c)) addr" "tag' = drop_bit (unat (cb_log_blocksize c)) addr'"
    using splitAddress_ok [OF assms(1)] assms(2,3) by (metis Pair_inject sum.inject(2))+
  then show ?thesis
    using splitAddress_same_block [OF assms(1), of addr addr'] assms(2,3)
    by (auto simp: drop_bit_eq_iff_same_block f(4))
qed

theorem splitAddress_same_set_witness:
  "splitAddress example_base 0x1041 = Inr (0x41, 0x41) \<and> splitAddress example_base 0x107f = Inr (0x41, 0x41) \<and>
   unat (0x1041 :: IntPtr) div 64 = unat (0x107f :: IntPtr) div 64"
proof -
  have s: "splitAddress example_base 0x1041 = Inr (0x41, 0x41)" "splitAddress example_base 0x107f = Inr (0x41, 0x41)"
    by (simp_all add: splitAddress_def example_base_def hash_set_index_def)
  show ?thesis using splitAddress_same_set [OF example_base_wf s] s by (simp add: example_base_def)
qed

text \<open>
  C15. \<open>AddressHomeLookup::getLinearAddress\<close>: among addresses with the same home module
  the linear address is strictly increasing, hence unique, as its header comment promises.
\<close>

theorem getLinearAddress_increasing:
  assumes "ahl_wf a" and "x < y"
    and "drop_bit (unat (m_ahl_param a)) x mod ucast (m_total_modules a)
       = drop_bit (unat (m_ahl_param a)) y mod ucast (m_total_modules a)"
  shows "\<exists>l l'. getLinearAddress a x = Inr l \<and> getLinearAddress a y = Inr l' \<and> l < l'"
proof -
  let ?P = "2 ^ unat (m_ahl_param a) :: nat" and ?n = "length (m_core_list a)"
  have "unat x div ?P mod ?n = unat y div ?P mod ?n"
    using assms(3) by (simp add: word_unat_eq_iff unat_mod unat_drop ahl_wf_facts(3) [OF assms(1)])
  then have "(unat x div ?P div ?n) * ?P + unat x mod ?P < (unat y div ?P div ?n) * ?P + unat y mod ?P"
    using assms(2) by (intro linear_strict_mono) (simp_all add: word_less_nat_alt)
  then show ?thesis
    using getLinearAddress_nat [OF assms(1), of x] getLinearAddress_nat [OF assms(1), of y]
    by (auto simp: word_less_nat_alt)
qed

definition example_ahl :: AddressHomeLookup where
  "example_ahl =
     \<lparr>m_ahl_param = 6, m_ahl_mask = 63, m_core_list = [0, 1, 2, 3], m_total_modules = 4,
      m_cache_block_size = 64\<rparr>"

theorem getLinearAddress_increasing_witness:
  "\<exists>l l'. getLinearAddress example_ahl 0x40 = Inr l \<and> getLinearAddress example_ahl 0x140 = Inr l' \<and> l < l'"
  by (rule getLinearAddress_increasing)
    (simp_all add: example_ahl_def ahl_wf_def AddressHomeLookup_new_def)

end
