(* ===== verification/CacheSet.thy ===== *)
theory CacheSet
  imports CacheBlock
begin

section \<open>Cache sets\<close>

text \<open>
  The abstract base class \<open>CacheSet\<close> of \<^verbatim>\<open>cache/cache_set.{h,cc}\<close>. A set holds one
  \<open>cache_block_info\<close> per way, optionally the data bytes (they exist only when fault
  injection is configured), and the state \<open>'r\<close> of the derived replacement class. The
  virtual functions \<open>getReplacementIndex\<close>, \<open>getReplacementIndexFlex\<close> and
  \<open>updateReplacementIndex\<close> are arguments of the operations that call them, as the C++
  code calls them through the object; they also thread \<open>'i\<close>, the \<open>CacheSetInfo\<close> object
  that all sets of a cache share. \<open>UInt32\<close> dimensions and way numbers are natural numbers;
  the one product that can leave 32 bits (\<open>line_index * m_blocksize + offset\<close>) wraps
  explicitly. The locale \<open>replacement_policy\<close> states what a derived class has to promise,
  and proves once what insertion then guarantees.
\<close>

subsection \<open>State\<close>

record 'r cache_set =
  m_cache_block_info_array :: "cache_block_info list"
  m_blocks :: "u8 list option"
  m_associativity :: nat
  m_blocksize :: nat
  isLeader :: bool
  m_repl :: 'r

definition CacheSet_new :: "nat \<Rightarrow> nat \<Rightarrow> bool \<Rightarrow> bool \<Rightarrow> 'r \<Rightarrow> 'r cache_set" where
  "CacheSet_new associativity blocksize fault_injection ifLeader repl =
     \<lparr>m_cache_block_info_array = replicate associativity CacheBlockInfo_create,
      m_blocks = (if fault_injection then Some (replicate (associativity * blocksize mod 2 ^ 32) 0) else None),
      m_associativity = associativity, m_blocksize = blocksize, isLeader = ifLeader, m_repl = repl\<rparr>"

definition data_pos :: "'r cache_set \<Rightarrow> nat \<Rightarrow> nat \<Rightarrow> nat" where
  \<comment> \<open>the index computed by \<open>getDataPtr\<close>, in \<open>UInt32\<close> arithmetic\<close>
  "data_pos s line_index offset = (line_index * m_blocksize s + offset) mod 2 ^ 32"

definition isValidReplacement :: "'r cache_set \<Rightarrow> nat \<Rightarrow> bool" where
  "isValidReplacement s index \<longleftrightarrow> m_cstate (m_cache_block_info_array s ! index) \<noteq> SHARED_UPGRADING"

subsection \<open>Data access\<close>

definition memcpy_out :: "u8 list \<Rightarrow> nat \<Rightarrow> nat \<Rightarrow> u8 list res" where
  "memcpy_out blocks pos bytes =
     (if pos + bytes \<le> length blocks then Inr (take bytes (drop pos blocks)) else Inl Undefined)"

definition memcpy_in :: "u8 list \<Rightarrow> nat \<Rightarrow> u8 list \<Rightarrow> u8 list res" where
  "memcpy_in blocks pos buf =
     (if pos + length buf \<le> length blocks
      then Inr (take pos blocks @ buf @ drop (pos + length buf) blocks) else Inl Undefined)"

definition read_line ::
    "(nat \<Rightarrow> 'i \<Rightarrow> 'r cache_set \<Rightarrow> ('i \<times> 'r cache_set) res) \<Rightarrow> 'i \<Rightarrow> 'r cache_set \<Rightarrow>
     nat \<Rightarrow> nat \<Rightarrow> u8 list option \<Rightarrow> nat \<Rightarrow> bool \<Rightarrow> (u8 list option \<times> 'i \<times> 'r cache_set) res" where
  \<comment> \<open>\<open>out_buff\<close> goes in and comes back, \<open>None\<close> for the null pointer\<close>
  "read_line updateReplacementIndex info s line_index offset out_buff bytes update_replacement =
     rbind (ensure AssertFailed ((offset + bytes) mod 2 ^ 32 \<le> m_blocksize s)) (\<lambda>_.
     rbind (case (out_buff, m_blocks s) of
              (Some _, Some blocks) \<Rightarrow>
                rbind (memcpy_out blocks (data_pos s line_index offset) bytes) (\<lambda>d. Inr (Some d))
            | _ \<Rightarrow> Inr out_buff) (\<lambda>out.
     if update_replacement
     then rbind (updateReplacementIndex line_index info s) (\<lambda>(info, s). Inr (out, info, s))
     else Inr (out, info, s)))"

definition write_line ::
    "(nat \<Rightarrow> 'i \<Rightarrow> 'r cache_set \<Rightarrow> ('i \<times> 'r cache_set) res) \<Rightarrow> 'i \<Rightarrow> 'r cache_set \<Rightarrow>
     nat \<Rightarrow> nat \<Rightarrow> u8 list option \<Rightarrow> nat \<Rightarrow> bool \<Rightarrow> ('i \<times> 'r cache_set) res" where
  "write_line updateReplacementIndex info s line_index offset in_buff bytes update_replacement =
     rbind (ensure AssertFailed ((offset + bytes) mod 2 ^ 32 \<le> m_blocksize s)) (\<lambda>_.
     rbind (case (in_buff, m_blocks s) of
              (Some buf, Some blocks) \<Rightarrow>
                if bytes \<le> length buf
                then rbind (memcpy_in blocks (data_pos s line_index offset) (take bytes buf))
                       (\<lambda>b. Inr (s\<lparr>m_blocks := Some b\<rparr>))
                else Inl Undefined
            | _ \<Rightarrow> Inr s) (\<lambda>s.
     if update_replacement then updateReplacementIndex line_index info s else Inr (info, s)))"

subsection \<open>Lookup and invalidation\<close>

definition find_line :: "'r cache_set \<Rightarrow> IntPtr \<Rightarrow> nat option" where
  \<comment> \<open>\<open>CacheSet::find\<close>; the way stands for the returned pointer\<close>
  "find_line s tag =
     last_index (\<lambda>index. m_tag (m_cache_block_info_array s ! index) = tag) (m_associativity s)"

definition findFlex :: "'r cache_set \<Rightarrow> IntPtr \<Rightarrow> bool list \<Rightarrow> bool \<Rightarrow> nat option" where
  "findFlex s tag isSubWay ifLeader =
     last_index (\<lambda>index. isValid (m_cache_block_info_array s ! index) \<and>
        (ifLeader \<or> isSubWay ! index) \<and> m_tag (m_cache_block_info_array s ! index) = tag)
       (m_associativity s)"

definition set_invalidate :: "'r cache_set \<Rightarrow> IntPtr \<Rightarrow> bool \<times> 'r cache_set" where
  "set_invalidate s tag =
     (case last_index (\<lambda>index. m_tag (m_cache_block_info_array s ! index) = tag) (m_associativity s) of
        Some index \<Rightarrow>
          (True, s\<lparr>m_cache_block_info_array :=
             (m_cache_block_info_array s)[index := block_invalidate (m_cache_block_info_array s ! index)]\<rparr>)
      | None \<Rightarrow> (False, s))"

subsection \<open>Insertion\<close>

record evicted =
  eviction :: bool
  evict_block_info :: cache_block_info
  evict_buff :: "u8 list option"

definition insertAt ::
    "'r cache_set \<Rightarrow> nat \<Rightarrow> cache_block_info \<Rightarrow> u8 list option \<Rightarrow> cache_block_info \<Rightarrow> u8 list option \<Rightarrow>
     (evicted \<times> 'r cache_set) res" where
  \<comment> \<open>the old contents of \<open>*evict_block_info\<close> and \<open>evict_buff\<close> come in, the new ones go out\<close>
  "insertAt s index cache_block_info fill_buff evict_info evict_buf =
     rbind (ensure AssertFailed (index < m_associativity s)) (\<lambda>_.
     let old = m_cache_block_info_array s ! index in
     rbind (if isValid old
            then rbind (case (evict_buf, m_blocks s) of
                          (Some _, Some blocks) \<Rightarrow>
                            rbind (memcpy_out blocks (data_pos s index 0) (m_blocksize s)) (\<lambda>d. Inr (Some d))
                        | _ \<Rightarrow> Inr evict_buf)
                  (\<lambda>eb. Inr \<lparr>eviction = True, evict_block_info = block_clone evict_info old, evict_buff = eb\<rparr>)
            else Inr \<lparr>eviction = False, evict_block_info = evict_info, evict_buff = evict_buf\<rparr>) (\<lambda>ev.
     let s = s\<lparr>m_cache_block_info_array :=
               (m_cache_block_info_array s)[index := block_clone old cache_block_info]\<rparr> in
     rbind (case (fill_buff, m_blocks s) of
              (Some buf, Some blocks) \<Rightarrow>
                if m_blocksize s \<le> length buf
                then rbind (memcpy_in blocks (data_pos s index 0) (take (m_blocksize s) buf))
                       (\<lambda>b. Inr (s\<lparr>m_blocks := Some b\<rparr>))
                else Inl Undefined
            | _ \<Rightarrow> Inr s) (\<lambda>s.
     Inr (ev, s))))"

definition set_insert ::
    "('i \<Rightarrow> 'r cache_set \<Rightarrow> (nat \<times> 'i \<times> 'r cache_set) res) \<Rightarrow> 'i \<Rightarrow> 'r cache_set \<Rightarrow>
     cache_block_info \<Rightarrow> u8 list option \<Rightarrow> cache_block_info \<Rightarrow> u8 list option \<Rightarrow>
     (evicted \<times> 'i \<times> 'r cache_set) res" where
  \<comment> \<open>\<open>CacheSet::insert\<close>: after the choice of the way, its body is that of \<open>insertAt\<close>\<close>
  "set_insert getReplacementIndex info s cache_block_info fill_buff evict_info evict_buf =
     rbind (getReplacementIndex info s) (\<lambda>(index, info, s).
     rbind (insertAt s index cache_block_info fill_buff evict_info evict_buf) (\<lambda>(ev, s).
     Inr (ev, info, s)))"

definition insertFlex ::
    "('i \<Rightarrow> bool list \<Rightarrow> 'r cache_set \<Rightarrow> (nat \<times> 'i \<times> 'r cache_set) res) \<Rightarrow> 'i \<Rightarrow> 'r cache_set \<Rightarrow>
     cache_block_info \<Rightarrow> u8 list option \<Rightarrow> cache_block_info \<Rightarrow> u8 list option \<Rightarrow> bool list \<Rightarrow>
     (evicted \<times> 'i \<times> 'r cache_set) res" where
  \<comment> \<open>the tracing loop \<open>for (i = 0; i < 8; i++)\<close> reads the first eight ways whatever the associativity\<close>
  "insertFlex getReplacementIndexFlex info s cache_block_info fill_buff evict_info evict_buf isSubWay =
     rbind (getReplacementIndexFlex info isSubWay s) (\<lambda>(index, info, s).
     rbind (ensure AssertFailed (index < m_associativity s)) (\<lambda>_.
     rbind (ensure Undefined (8 \<le> m_associativity s)) (\<lambda>_.
     rbind (insertAt s index cache_block_info fill_buff evict_info evict_buf) (\<lambda>(ev, s).
     Inr (ev, info, s)))))"

subsection \<open>Well-formed sets and their contents\<close>

definition set_wf :: "'r cache_set \<Rightarrow> bool" where
  "set_wf s \<longleftrightarrow>
     length (m_cache_block_info_array s) = m_associativity s \<and> 0 < m_associativity s \<and>
     m_associativity s * m_blocksize s < 2 ^ 32 \<and>
     (case m_blocks s of None \<Rightarrow> True | Some b \<Rightarrow> length b = m_associativity s * m_blocksize s)"

definition tags_unique :: "'r cache_set \<Rightarrow> bool" where
  "tags_unique s \<longleftrightarrow>
     (\<forall>i < m_associativity s. \<forall>j < m_associativity s.
        isValid (m_cache_block_info_array s ! i) \<longrightarrow>
        m_tag (m_cache_block_info_array s ! i) = m_tag (m_cache_block_info_array s ! j) \<longrightarrow> i = j)"

definition holds :: "'r cache_set \<Rightarrow> IntPtr \<Rightarrow> bool" where
  "holds s tag \<longleftrightarrow> (\<exists>i < m_associativity s. m_tag (m_cache_block_info_array s ! i) = tag)"

text \<open>The abstract view of a set: a finite map from tags to line records.\<close>

definition contents :: "'r cache_set \<Rightarrow> (IntPtr \<rightharpoonup> cache_block_info)" where
  "contents s t =
     (if t = - 1 then None
      else map_option (\<lambda>i. m_cache_block_info_array s ! i) (find_line s t))"

subsection \<open>Lookup lemmas\<close>

lemma tags_uniqueD:
  "tags_unique s \<Longrightarrow> i < m_associativity s \<Longrightarrow> j < m_associativity s \<Longrightarrow>
   isValid (m_cache_block_info_array s ! i) \<Longrightarrow>
   m_tag (m_cache_block_info_array s ! i) = m_tag (m_cache_block_info_array s ! j) \<Longrightarrow> i = j"
  by (simp add: tags_unique_def)

lemma set_invalidate_find:
  "set_invalidate s t =
     (case find_line s t of
        Some index \<Rightarrow>
          (True, s\<lparr>m_cache_block_info_array :=
             (m_cache_block_info_array s)[index := block_invalidate (m_cache_block_info_array s ! index)]\<rparr>)
      | None \<Rightarrow> (False, s))"
  by (simp add: set_invalidate_def find_line_def)

lemma find_line_SomeD:
  assumes "find_line s t = Some i"
  shows "i < m_associativity s" and "m_tag (m_cache_block_info_array s ! i) = t"
  using last_index_SomeD [OF assms [unfolded find_line_def]] by auto

lemma find_line_None: "find_line s t = None \<longleftrightarrow> \<not> holds s t"
  by (auto simp: find_line_def holds_def last_index_None)

lemma find_line_unique:
  assumes "tags_unique s" and "i < m_associativity s" and "isValid (m_cache_block_info_array s ! i)"
    and "m_tag (m_cache_block_info_array s ! i) = t"
  shows "find_line s t = Some i"
proof -
  have "holds s t" using assms by (auto simp: holds_def)
  then obtain j where j: "find_line s t = Some j"
    using find_line_None by fastforce
  have "m_tag (m_cache_block_info_array s ! i) = m_tag (m_cache_block_info_array s ! j)"
    using find_line_SomeD(2) [OF j] assms(4) by simp
  with assms(1,2,3) find_line_SomeD(1) [OF j] have "i = j"
    by (intro tags_uniqueD)
  with j show ?thesis by simp
qed

lemma find_line_valid_tag: "find_line s t = Some i \<Longrightarrow> t \<noteq> - 1 \<Longrightarrow> isValid (m_cache_block_info_array s ! i)"
  using find_line_SomeD(2) by (auto simp: isValid_def)

lemma findFlex_eq_find:
  assumes "t \<noteq> - 1" and "\<And>i. i < m_associativity s \<Longrightarrow> m_tag (m_cache_block_info_array s ! i) = t \<Longrightarrow> ifLeader \<or> sub ! i"
  shows "findFlex s t sub ifLeader = find_line s t"
  unfolding findFlex_def find_line_def
  using assms by (intro last_index_cong) (auto simp: isValid_def)

lemma findFlex_leader: "t \<noteq> - 1 \<Longrightarrow> findFlex s t sub True = find_line s t"
  by (rule findFlex_eq_find) auto

lemma findFlex_SomeD:
  assumes "findFlex s t sub ifLeader = Some i"
  shows "i < m_associativity s" and "isValid (m_cache_block_info_array s ! i)"
    and "m_tag (m_cache_block_info_array s ! i) = t" and "ifLeader \<or> sub ! i"
  using last_index_SomeD [OF assms [unfolded findFlex_def]] by auto

lemma findFlex_unique:
  assumes "tags_unique s" and "i < m_associativity s" and "isValid (m_cache_block_info_array s ! i)"
    and "m_tag (m_cache_block_info_array s ! i) = t" and "ifLeader \<or> sub ! i"
  shows "findFlex s t sub ifLeader = Some i"
  unfolding findFlex_def
proof (rule last_index_eqI)
  fix j assume "i < j" and "j < m_associativity s"
  with assms(1-4) have "m_tag (m_cache_block_info_array s ! j) \<noteq> t"
    using tags_uniqueD [OF assms(1,2), of j] by auto
  then show "\<not> (isValid (m_cache_block_info_array s ! j) \<and> (ifLeader \<or> sub ! j) \<and> m_tag (m_cache_block_info_array s ! j) = t)"
    by simp
qed (use assms in auto)

subsection \<open>Invalidation lemmas\<close>

lemma set_invalidate_frame:
  "m_associativity (snd (set_invalidate s t)) = m_associativity s"
  "m_blocksize (snd (set_invalidate s t)) = m_blocksize s"
  "m_blocks (snd (set_invalidate s t)) = m_blocks s"
  "m_repl (snd (set_invalidate s t)) = m_repl s"
  "isLeader (snd (set_invalidate s t)) = isLeader s"
  by (simp_all add: set_invalidate_find split: option.split)

lemma set_invalidate_result: "fst (set_invalidate s t) \<longleftrightarrow> holds s t"
proof -
  have "fst (set_invalidate s t) \<longleftrightarrow> find_line s t \<noteq> None"
    by (simp add: set_invalidate_find split: option.split)
  then show ?thesis by (simp add: find_line_None)
qed

lemma set_invalidate_array:
  assumes "set_wf s" and "tags_unique s" and "t \<noteq> - 1" and "i < m_associativity s"
  shows "m_cache_block_info_array (snd (set_invalidate s t)) ! i =
    (if m_tag (m_cache_block_info_array s ! i) = t then block_invalidate (m_cache_block_info_array s ! i)
     else m_cache_block_info_array s ! i)"
proof (cases "find_line s t")
  case None
  then have "m_tag (m_cache_block_info_array s ! i) \<noteq> t"
    using assms(4) by (auto simp: find_line_None holds_def)
  with None show ?thesis by (simp add: set_invalidate_find)
next
  case (Some j)
  note j = find_line_SomeD [OF Some] find_line_valid_tag [OF Some assms(3)]
  have "m_tag (m_cache_block_info_array s ! i) = t \<longleftrightarrow> i = j"
    using j(2) tags_uniqueD [OF assms(2) j(1) assms(4) j(3)] by metis
  moreover have "snd (set_invalidate s t) = s\<lparr>m_cache_block_info_array :=
      (m_cache_block_info_array s)[j := block_invalidate (m_cache_block_info_array s ! j)]\<rparr>"
    using Some by (simp add: set_invalidate_find)
  ultimately show ?thesis
    using assms(1,4) j(1) by (simp add: set_wf_def nth_list_update)
qed

lemma set_invalidate_wf: "set_wf s \<Longrightarrow> set_wf (snd (set_invalidate s t))"
  by (cases "find_line s t"; cases "m_blocks s") (simp_all add: set_wf_def set_invalidate_find)

lemma set_invalidate_tag:
  assumes "set_wf s" and "tags_unique s" and "t \<noteq> - 1" and "i < m_associativity s"
  shows "m_tag (m_cache_block_info_array (snd (set_invalidate s t)) ! i) =
    (if m_tag (m_cache_block_info_array s ! i) = t then - 1 else m_tag (m_cache_block_info_array s ! i))"
  unfolding set_invalidate_array [OF assms] by simp

lemma set_invalidate_unique:
  assumes "set_wf s" and "tags_unique s" and "t \<noteq> - 1"
  shows "tags_unique (snd (set_invalidate s t))"
  unfolding tags_unique_def set_invalidate_frame isValid_def
proof (intro allI impI)
  fix i j
  assume ij: "i < m_associativity s" "j < m_associativity s"
    and v: "m_tag (m_cache_block_info_array (snd (set_invalidate s t)) ! i) \<noteq> - 1"
    and e: "m_tag (m_cache_block_info_array (snd (set_invalidate s t)) ! i) =
            m_tag (m_cache_block_info_array (snd (set_invalidate s t)) ! j)"
  note tag = set_invalidate_tag [OF assms ij(1)] set_invalidate_tag [OF assms ij(2)]
  have i: "m_tag (m_cache_block_info_array s ! i) \<noteq> t" "m_tag (m_cache_block_info_array s ! i) \<noteq> - 1"
    using v unfolding tag by (simp_all split: if_splits)
  then have "m_tag (m_cache_block_info_array s ! i) = m_tag (m_cache_block_info_array s ! j)"
    using e unfolding tag by (simp split: if_splits)
  with i(2) ij assms(2) show "i = j"
    by (intro tags_uniqueD) (simp_all add: isValid_def)
qed

lemma set_invalidate_holds:
  assumes "set_wf s" and "tags_unique s" and "t \<noteq> - 1" and "u \<noteq> - 1"
  shows "holds (snd (set_invalidate s t)) u \<longleftrightarrow> u \<noteq> t \<and> holds s u"
proof -
  have "m_tag (m_cache_block_info_array (snd (set_invalidate s t)) ! i) = u \<longleftrightarrow>
      u \<noteq> t \<and> m_tag (m_cache_block_info_array s ! i) = u" if "i < m_associativity s" for i
    using assms(3,4) unfolding set_invalidate_tag [OF assms(1-3) that] by auto
  then show ?thesis
    unfolding holds_def set_invalidate_frame by blast
qed

subsection \<open>Insertion lemmas\<close>

lemma insertAt_SomeD:
  assumes "insertAt s index b fb ei eb = Inr (ev, s')"
  shows "index < m_associativity s"
    and "\<exists>d. s' = s\<lparr>m_cache_block_info_array := (m_cache_block_info_array s)[index := b], m_blocks := d\<rparr>"
    and "eviction ev = isValid (m_cache_block_info_array s ! index)"
    and "evict_block_info ev =
      (if isValid (m_cache_block_info_array s ! index) then m_cache_block_info_array s ! index else ei)"
proof -
  show "index < m_associativity s"
    using assms by (auto simp: insertAt_def)
  show "\<exists>d. s' = s\<lparr>m_cache_block_info_array := (m_cache_block_info_array s)[index := b], m_blocks := d\<rparr>"
    using assms
    by (cases s) (auto simp: insertAt_def Let_def block_clone_eq split: option.splits if_splits)
  show "eviction ev = isValid (m_cache_block_info_array s ! index)"
    and "evict_block_info ev =
      (if isValid (m_cache_block_info_array s ! index) then m_cache_block_info_array s ! index else ei)"
    using assms by (auto simp: insertAt_def Let_def block_clone_eq split: if_splits)
qed

lemma data_pos_line:
  assumes "set_wf s" and "index < m_associativity s"
  shows "data_pos s index 0 = index * m_blocksize s"
    and "index * m_blocksize s + m_blocksize s \<le> m_associativity s * m_blocksize s"
proof -
  have "Suc index * m_blocksize s \<le> m_associativity s * m_blocksize s"
    using assms(2) by (intro mult_right_mono) simp_all
  then show le: "index * m_blocksize s + m_blocksize s \<le> m_associativity s * m_blocksize s"
    by simp
  with assms(1) show "data_pos s index 0 = index * m_blocksize s"
    by (simp add: data_pos_def set_wf_def)
qed

lemma length_memcpy_in: "memcpy_in blocks pos buf = Inr b \<Longrightarrow> length b = length blocks"
  by (auto simp: memcpy_in_def split: if_splits)

lemma insertAt_wf:
  assumes "insertAt s index b fb ei eb = Inr (ev, s')" and "set_wf s"
  shows "set_wf s'"
  using assms length_memcpy_in
  by (cases "m_blocks s"; cases fb) (auto simp: insertAt_def Let_def set_wf_def split: if_splits)

lemma insertAt_total:
  assumes "set_wf s" and "index < m_associativity s"
    and "case fb of None \<Rightarrow> True | Some buf \<Rightarrow> m_blocksize s \<le> length buf"
  shows "\<exists>ev s'. insertAt s index b fb ei eb = Inr (ev, s')"
  using assms data_pos_line [OF assms(1,2)]
  by (cases "m_blocks s"; cases fb; cases eb)
    (auto simp: insertAt_def Let_def set_wf_def memcpy_in_def memcpy_out_def data_pos_def)

lemma insertAt_unique:
  assumes "insertAt s index b fb ei eb = Inr (ev, s')" and "set_wf s" and "tags_unique s"
    and "isValid b" and "\<not> holds s (m_tag b)"
  shows "tags_unique s'"
proof -
  obtain d where s': "s' = s\<lparr>m_cache_block_info_array := (m_cache_block_info_array s)[index := b], m_blocks := d\<rparr>"
    and k: "index < m_associativity s"
    using insertAt_SomeD(1,2) [OF assms(1)] by blast
  let ?a = "m_cache_block_info_array s"
  have len: "length ?a = m_associativity s" using assms(2) by (simp add: set_wf_def)
  have fresh: "m_tag (?a ! j) \<noteq> m_tag b" if "j < m_associativity s" for j
    using assms(5) that by (auto simp: holds_def)
  have "i = j" if "i < m_associativity s" "j < m_associativity s" "isValid (?a[index := b] ! i)"
    "m_tag (?a[index := b] ! i) = m_tag (?a[index := b] ! j)" for i j
  proof (cases "i = index \<or> j = index")
    case True
    then show ?thesis
      using that fresh [OF that(1)] fresh [OF that(2)] len k
      by (auto simp: nth_list_update split: if_splits)
  next
    case False
    then show ?thesis
      using that tags_uniqueD [OF assms(3) that(1,2)] by simp
  qed
  then show ?thesis
    unfolding tags_unique_def s' by simp
qed

lemma insertAt_holds:
  assumes "insertAt s index b fb ei eb = Inr (ev, s')" and "set_wf s" and "tags_unique s"
    and "isValid b" and "u \<noteq> - 1"
  shows "holds s' u \<longleftrightarrow> u = m_tag b \<or> (holds s u \<and> m_tag (m_cache_block_info_array s ! index) \<noteq> u)"
proof -
  obtain d where s': "s' = s\<lparr>m_cache_block_info_array := (m_cache_block_info_array s)[index := b], m_blocks := d\<rparr>"
    and k: "index < m_associativity s"
    using insertAt_SomeD(1,2) [OF assms(1)] by blast
  let ?a = "m_cache_block_info_array s"
  have len: "length ?a = m_associativity s" using assms(2) by (simp add: set_wf_def)
  have upd: "m_tag (?a[index := b] ! i) = (if i = index then m_tag b else m_tag (?a ! i))"
    if "i < m_associativity s" for i
    using that len k by (simp add: nth_list_update)
  have other: "i = index" if "i < m_associativity s" "m_tag (?a ! i) = u" "m_tag (?a ! index) = u" for i
    using that assms(5) by (intro tags_uniqueD [OF assms(3) that(1) k]) (auto simp: isValid_def)
  have "holds s' u \<longleftrightarrow> (\<exists>i<m_associativity s. (if i = index then m_tag b else m_tag (?a ! i)) = u)"
    unfolding holds_def s' using upd by auto
  also have "\<dots> \<longleftrightarrow> u = m_tag b \<or> (\<exists>i<m_associativity s. i \<noteq> index \<and> m_tag (?a ! i) = u)"
    using k by auto
  also have "\<dots> \<longleftrightarrow> u = m_tag b \<or> (holds s u \<and> m_tag (?a ! index) \<noteq> u)"
    unfolding holds_def using other by blast
  finally show ?thesis .
qed

text \<open>Lookup after insertion finds the new line at the chosen way.\<close>

lemma insertAt_find:
  assumes "insertAt s index b fb ei eb = Inr (ev, s')" and "set_wf s" and "tags_unique s"
    and "isValid b" and "\<not> holds s (m_tag b)"
  shows "find_line s' (m_tag b) = Some index" and "m_cache_block_info_array s' ! index = b"
proof -
  obtain d where s': "s' = s\<lparr>m_cache_block_info_array := (m_cache_block_info_array s)[index := b], m_blocks := d\<rparr>"
    and k: "index < m_associativity s"
    using insertAt_SomeD(1,2) [OF assms(1)] by blast
  then show b: "m_cache_block_info_array s' ! index = b"
    using assms(2) by (simp add: set_wf_def)
  show "find_line s' (m_tag b) = Some index"
    by (rule find_line_unique [OF insertAt_unique [OF assms]]) (use b k s' assms(4) in simp_all)
qed

subsection \<open>The set as a map\<close>

lemma contents_eq_Some:
  assumes "tags_unique s"
  shows "contents s t = Some x \<longleftrightarrow>
    t \<noteq> - 1 \<and> m_tag x = t \<and> (\<exists>i < m_associativity s. m_cache_block_info_array s ! i = x)"
proof
  assume "contents s t = Some x"
  then obtain i where "t \<noteq> - 1" "find_line s t = Some i" "m_cache_block_info_array s ! i = x"
    by (auto simp: contents_def split: if_splits)
  with find_line_SomeD [of s t i]
  show "t \<noteq> - 1 \<and> m_tag x = t \<and> (\<exists>i < m_associativity s. m_cache_block_info_array s ! i = x)"
    by auto
next
  assume "t \<noteq> - 1 \<and> m_tag x = t \<and> (\<exists>i < m_associativity s. m_cache_block_info_array s ! i = x)"
  then obtain i where "t \<noteq> - 1" "m_tag x = t" "i < m_associativity s" "m_cache_block_info_array s ! i = x"
    by auto
  with find_line_unique [OF assms, of i t] show "contents s t = Some x"
    by (simp add: contents_def isValid_def)
qed

lemma contents_None: "t \<noteq> - 1 \<Longrightarrow> contents s t = None \<longleftrightarrow> \<not> holds s t"
  by (simp add: contents_def find_line_None)

lemma map_eq_by_Some: "(\<And>t x. f t = Some x \<longleftrightarrow> g t = Some x) \<Longrightarrow> f = g"
  by (intro ext) (metis option.exhaust)

lemma insertAt_contents:
  assumes ins: "insertAt s index b fb ei eb = Inr (ev, s')" and wf: "set_wf s" and u: "tags_unique s"
    and v: "isValid b" and f: "\<not> holds s (m_tag b)"
  shows "contents s' =
    (if eviction ev then (contents s)(m_tag (evict_block_info ev) := None) else contents s)(m_tag b \<mapsto> b)"
proof (rule map_eq_by_Some)
  fix t x
  note ev = insertAt_SomeD(3,4) [OF ins]
  obtain d where s': "s' = s\<lparr>m_cache_block_info_array := (m_cache_block_info_array s)[index := b], m_blocks := d\<rparr>"
    and k: "index < m_associativity s"
    using insertAt_SomeD(1,2) [OF ins] by blast
  let ?a = "m_cache_block_info_array s"
  have len: "length ?a = m_associativity s" using wf by (simp add: set_wf_def)
  have bt: "m_tag b \<noteq> - 1" using v by (simp add: isValid_def)
  have fresh: "m_tag (?a ! j) \<noteq> m_tag b" if "j < m_associativity s" for j
    using f that by (auto simp: holds_def)
  have new: "contents s' t = Some x \<longleftrightarrow>
      t \<noteq> - 1 \<and> m_tag x = t \<and> (x = b \<or> (\<exists>i < m_associativity s. i \<noteq> index \<and> ?a ! i = x))"
  proof -
    have "(\<exists>i < m_associativity s'. m_cache_block_info_array s' ! i = x) \<longleftrightarrow>
        (x = b \<or> (\<exists>i < m_associativity s. i \<noteq> index \<and> ?a ! i = x))"
      using k len by (auto simp: s' nth_list_update)
    then show ?thesis
      unfolding contents_eq_Some [OF insertAt_unique [OF ins wf u v f]] by blast
  qed
  show "contents s' t = Some x \<longleftrightarrow>
    ((if eviction ev then (contents s)(m_tag (evict_block_info ev) := None) else contents s)(m_tag b \<mapsto> b)) t = Some x"
  proof (cases "t = m_tag b")
    case True
    then show ?thesis unfolding new using bt fresh by auto
  next
    case False
    have other: "i \<noteq> index \<longleftrightarrow> \<not> (isValid (?a ! index) \<and> t = m_tag (?a ! index))"
      if "i < m_associativity s" "m_tag (?a ! i) = t" "t \<noteq> - 1" for i
      using that tags_uniqueD [OF u k that(1)] by (auto simp: isValid_def)
    have "contents s' t = Some x \<longleftrightarrow> contents s t = Some x \<and> \<not> (isValid (?a ! index) \<and> t = m_tag (?a ! index))"
    proof (cases "t \<noteq> - 1 \<and> m_tag x = t")
      case True
      then have "i \<noteq> index \<longleftrightarrow> \<not> (isValid (?a ! index) \<and> t = m_tag (?a ! index))"
        if "i < m_associativity s" "?a ! i = x" for i
        using other that by simp
      then have "(\<exists>i < m_associativity s. i \<noteq> index \<and> ?a ! i = x) \<longleftrightarrow>
          (\<exists>i < m_associativity s. ?a ! i = x) \<and> \<not> (isValid (?a ! index) \<and> t = m_tag (?a ! index))"
        by blast
      with True False show ?thesis
        unfolding new contents_eq_Some [OF u] by auto
    qed (use new contents_eq_Some [OF u] in auto)
    then show ?thesis using False ev by auto
  qed
qed

lemma set_invalidate_contents:
  assumes "set_wf s" and "tags_unique s" and "t \<noteq> - 1"
  shows "contents (snd (set_invalidate s t)) = (contents s)(t := None)"
proof (rule map_eq_by_Some)
  fix u x
  note arr = set_invalidate_array [OF assms]
  have "m_cache_block_info_array (snd (set_invalidate s t)) ! i = x \<longleftrightarrow>
      m_cache_block_info_array s ! i = x \<and> u \<noteq> t"
    if "i < m_associativity s" "u \<noteq> - 1" "m_tag x = u" for i
    unfolding arr [OF that(1)] using that(2,3) by (auto split: if_splits)
  then show "contents (snd (set_invalidate s t)) u = Some x \<longleftrightarrow> ((contents s)(t := None)) u = Some x"
    unfolding contents_eq_Some [OF set_invalidate_unique [OF assms]] set_invalidate_frame fun_upd_apply
    using contents_eq_Some [OF assms(2), of u x] by auto
qed

subsection \<open>What a replacement policy promises\<close>

text \<open>
  The interface of a derived class: the way \<open>getReplacementIndex\<close> returns is in range, the
  call changes nothing but the replacement state, and it keeps the class's own invariant
  \<open>inv\<close>, which does not look at the lines. Everything insertion guarantees follows.
\<close>

locale replacement_policy =
  fixes gri :: "'i \<Rightarrow> 'r cache_set \<Rightarrow> (nat \<times> 'i \<times> 'r cache_set) res"
    and inv :: "'r cache_set \<Rightarrow> bool"
  assumes gri_range: "set_wf s \<Longrightarrow> inv s \<Longrightarrow> gri info s = Inr (k, info', s') \<Longrightarrow> k < m_associativity s"
    and gri_frame: "set_wf s \<Longrightarrow> inv s \<Longrightarrow> gri info s = Inr (k, info', s') \<Longrightarrow> \<exists>r. s' = s\<lparr>m_repl := r\<rparr>"
    and gri_inv: "set_wf s \<Longrightarrow> inv s \<Longrightarrow> gri info s = Inr (k, info', s') \<Longrightarrow> inv s'"
    and inv_lines: "inv s \<Longrightarrow> inv (s\<lparr>m_cache_block_info_array := a, m_blocks := d\<rparr>)"
begin

lemma repl_frame:
  "set_wf (s\<lparr>m_repl := r\<rparr>) = set_wf s" "tags_unique (s\<lparr>m_repl := r\<rparr>) = tags_unique s"
  "holds (s\<lparr>m_repl := r\<rparr>) = holds s" "contents (s\<lparr>m_repl := r\<rparr>) = contents s"
  by (cases "m_blocks s"; simp add: set_wf_def tags_unique_def holds_def contents_def find_line_def fun_eq_iff)+

lemma insert_split:
  assumes "set_wf s" and "inv s" and "set_insert gri info s b fb ei eb = Inr (ev, info', s')"
  obtains k r where "gri info s = Inr (k, info', s\<lparr>m_repl := r\<rparr>)" and "inv (s\<lparr>m_repl := r\<rparr>)"
    and "k < m_associativity s" and "insertAt (s\<lparr>m_repl := r\<rparr>) k b fb ei eb = Inr (ev, s')"
proof -
  obtain k s1 where g: "gri info s = Inr (k, info', s1)" and i: "insertAt s1 k b fb ei eb = Inr (ev, s')"
    using assms(3) by (auto simp: set_insert_def)
  obtain r where r: "s1 = s\<lparr>m_repl := r\<rparr>" using gri_frame [OF assms(1,2) g] by blast
  show ?thesis
    using that [of k r] g i gri_inv [OF assms(1,2) g] gri_range [OF assms(1,2) g] unfolding r by blast
qed

lemma insert_contents:
  assumes "set_wf s" and "inv s" and "tags_unique s" and "isValid b" and "\<not> holds s (m_tag b)"
    and "set_insert gri info s b fb ei eb = Inr (ev, info', s')"
  shows "contents s' =
      (if eviction ev then (contents s)(m_tag (evict_block_info ev) := None) else contents s)(m_tag b \<mapsto> b)"
proof -
  obtain k r where "insertAt (s\<lparr>m_repl := r\<rparr>) k b fb ei eb = Inr (ev, s')"
    using insert_split [OF assms(1,2,6)] by blast
  from insertAt_contents [OF this, unfolded repl_frame, OF assms(1,3,4,5)] show ?thesis .
qed

lemma insert_evicts:
  assumes "set_wf s" and "inv s" and "tags_unique s"
    and "set_insert gri info s b fb ei eb = Inr (ev, info', s')"
  shows "if eviction ev then contents s (m_tag (evict_block_info ev)) = Some (evict_block_info ev)
    else evict_block_info ev = ei"
proof -
  obtain k r where k: "k < m_associativity s" and i: "insertAt (s\<lparr>m_repl := r\<rparr>) k b fb ei eb = Inr (ev, s')"
    using insert_split [OF assms(1,2,4)] by blast
  from insertAt_SomeD(3,4) [OF i] k contents_eq_Some [OF assms(3)] show ?thesis
    by (auto simp: isValid_def)
qed

lemma insert_keeps:
  assumes "set_wf s" and "inv s" and "set_insert gri info s b fb ei eb = Inr (ev, info', s')"
  shows "set_wf s'" and "inv s'" and "m_associativity s' = m_associativity s"
    and "tags_unique s \<Longrightarrow> isValid b \<Longrightarrow> \<not> holds s (m_tag b) \<Longrightarrow> tags_unique s'"
proof -
  obtain k r where r: "inv (s\<lparr>m_repl := r\<rparr>)" and i: "insertAt (s\<lparr>m_repl := r\<rparr>) k b fb ei eb = Inr (ev, s')"
    using insert_split [OF assms] by blast
  obtain a d where s': "s' = (s\<lparr>m_repl := r\<rparr>)\<lparr>m_cache_block_info_array := a, m_blocks := d\<rparr>"
    using insertAt_SomeD(2) [OF i] by blast
  show "set_wf s'" using insertAt_wf [OF i] assms(1) by (simp add: repl_frame)
  show "inv s'" unfolding s' by (rule inv_lines [OF r])
  show "m_associativity s' = m_associativity s" by (simp add: s')
  show "tags_unique s \<Longrightarrow> isValid b \<Longrightarrow> \<not> holds s (m_tag b) \<Longrightarrow> tags_unique s'"
    using insertAt_unique [OF i, unfolded repl_frame] assms(1) by simp
qed

lemma insert_returns:
  assumes "set_wf s" and "inv s" and "gri info s = Inr (k, info', s1)"
    and "case fb of None \<Rightarrow> True | Some buf \<Rightarrow> m_blocksize s \<le> length buf"
  shows "\<exists>ev s'. set_insert gri info s b fb ei eb = Inr (ev, info', s')"
proof -
  obtain r where r: "s1 = s\<lparr>m_repl := r\<rparr>" using gri_frame [OF assms(1-3)] by blast
  have "set_wf s1" "k < m_associativity s1" "m_blocksize s1 = m_blocksize s"
    using assms(1) gri_range [OF assms(1-3)] by (simp_all add: r repl_frame)
  then have "\<exists>ev s'. insertAt s1 k b fb ei eb = Inr (ev, s')"
    using assms(4) by (intro insertAt_total) (cases fb; simp)+
  with assms(3) show ?thesis by (auto simp: set_insert_def)
qed

end

text \<open>Policies that prefer an empty way never evict while the set has one.\<close>

locale invalid_first_policy = replacement_policy +
  assumes gri_invalid_first:
    "set_wf s \<Longrightarrow> inv s \<Longrightarrow> gri info s = Inr (k, info', s') \<Longrightarrow>
     \<exists>i < m_associativity s. \<not> isValid (m_cache_block_info_array s ! i) \<Longrightarrow>
     \<not> isValid (m_cache_block_info_array s ! k)"
begin

lemma insert_no_eviction:
  assumes "set_wf s" and "inv s" and "set_insert gri info s b fb ei eb = Inr (ev, info', s')"
    and "\<exists>i < m_associativity s. \<not> isValid (m_cache_block_info_array s ! i)"
  shows "\<not> eviction ev"
proof -
  obtain k r where g: "gri info s = Inr (k, info', s\<lparr>m_repl := r\<rparr>)"
    and i: "insertAt (s\<lparr>m_repl := r\<rparr>) k b fb ei eb = Inr (ev, s')"
    using insert_split [OF assms(1-3)] by blast
  show ?thesis
    using gri_invalid_first [OF assms(1,2) g assms(4)] insertAt_SomeD(3) [OF i] by simp
qed

end

text \<open>Policies that always find a way: insertion cannot fail.\<close>

locale total_policy = replacement_policy +
  assumes gri_total: "set_wf s \<Longrightarrow> inv s \<Longrightarrow> \<exists>k info' s'. gri info s = Inr (k, info', s')"
begin

lemma insert_total:
  assumes "set_wf s" and "inv s"
    and "case fb of None \<Rightarrow> True | Some buf \<Rightarrow> m_blocksize s \<le> length buf"
  shows "\<exists>ev info' s'. set_insert gri info s b fb ei eb = Inr (ev, info', s')"
  using gri_total [OF assms(1,2)] insert_returns [OF assms(1,2) _ assms(3)] by blast

end

text \<open>
  Policies that find a way whenever no line is waiting for an upgrade. Insertion then is
  insertion into a map, as \<open>inserts_like_map\<close> says.
\<close>

definition inserts_like_map ::
    "('i \<Rightarrow> 'r cache_set \<Rightarrow> (nat \<times> 'i \<times> 'r cache_set) res) \<Rightarrow> ('r cache_set \<Rightarrow> bool) \<Rightarrow> bool" where
  "inserts_like_map gri I \<longleftrightarrow>
     (\<forall>info s b fb ei eb. set_wf s \<longrightarrow> I s \<longrightarrow> tags_unique s \<longrightarrow> isValid b \<longrightarrow> \<not> holds s (m_tag b) \<longrightarrow>
        (\<forall>i < m_associativity s. isValidReplacement s i) \<longrightarrow>
        (case fb of None \<Rightarrow> True | Some buf \<Rightarrow> m_blocksize s \<le> length buf) \<longrightarrow>
        (\<exists>ev info' s'. set_insert gri info s b fb ei eb = Inr (ev, info', s') \<and>
           contents s' =
             (if eviction ev then (contents s)(m_tag (evict_block_info ev) := None) else contents s)(m_tag b \<mapsto> b) \<and>
           set_wf s' \<and> I s' \<and> tags_unique s'))"

locale available_policy = replacement_policy +
  assumes gri_available:
    "set_wf s \<Longrightarrow> inv s \<Longrightarrow> \<forall>i < m_associativity s. isValidReplacement s i \<Longrightarrow>
     \<exists>k info' s'. gri info s = Inr (k, info', s')"
begin

lemma insert_like_map: "inserts_like_map gri inv"
  unfolding inserts_like_map_def
proof (intro allI impI)
  fix info s and b ei :: cache_block_info and fb eb :: "u8 list option"
  assume a: "set_wf s" "inv s" "tags_unique s" "isValid b" "\<not> holds s (m_tag b)"
    and v: "\<forall>i < m_associativity s. isValidReplacement s i"
    and f: "case fb of None \<Rightarrow> True | Some buf \<Rightarrow> m_blocksize s \<le> length buf"
  obtain ev info' s' where i: "set_insert gri info s b fb ei eb = Inr (ev, info', s')"
    using gri_available [OF a(1,2) v] insert_returns [OF a(1,2) _ f] by blast
  then show "\<exists>ev info' s'. set_insert gri info s b fb ei eb = Inr (ev, info', s') \<and>
      contents s' =
        (if eviction ev then (contents s)(m_tag (evict_block_info ev) := None) else contents s)(m_tag b \<mapsto> b) \<and>
      set_wf s' \<and> inv s' \<and> tags_unique s'"
    using insert_contents [OF a i] insert_keeps(1,2) [OF a(1,2) i] insert_keeps(4) [OF a(1,2) i a(3-5)] by blast
qed

end

sublocale total_policy \<subseteq> available_policy
  by unfold_locales (rule gri_total)

subsection \<open>Data round trip\<close>

lemma data_pos_in:
  assumes "set_wf s" and "index < m_associativity s" and "off + n \<le> m_blocksize s" and "0 < n"
  shows "data_pos s index off = index * m_blocksize s + off"
    and "index * m_blocksize s + off + n \<le> m_associativity s * m_blocksize s"
  using data_pos_line(2) [OF assms(1,2)] assms by (simp_all add: data_pos_def set_wf_def)

lemma lines_disjoint:
  assumes "i \<noteq> j" and "oi + ni \<le> (bs::nat)" and "oj + nj \<le> bs"
  shows "i * bs + oi + ni \<le> j * bs + oj \<or> j * bs + oj + nj \<le> i * bs + oi"
proof (cases "i < j")
  case True
  then have "Suc i * bs \<le> j * bs" by (intro mult_right_mono) simp_all
  with assms show ?thesis by simp
next
  case False
  then have "Suc j * bs \<le> i * bs" using assms(1) by (intro mult_right_mono) simp_all
  with assms show ?thesis by simp
qed

lemma memcpy_out_in_same:
  "memcpy_in blocks p buf = Inr b \<Longrightarrow> n = length buf \<Longrightarrow> memcpy_out b p n = Inr buf"
  by (auto simp: memcpy_in_def memcpy_out_def split: if_splits)

lemma memcpy_out_in_other:
  assumes "memcpy_in blocks p buf = Inr b" and "q + n \<le> p \<or> p + length buf \<le> q"
  shows "memcpy_out b q n = memcpy_out blocks q n"
proof -
  have p: "p + length buf \<le> length blocks" "b = take p blocks @ buf @ drop (p + length buf) blocks"
    using assms(1) by (auto simp: memcpy_in_def split: if_splits)
  have "take n (drop q b) = take n (drop q blocks)" if "q + n \<le> length blocks"
    using assms(2) p that by (intro nth_equalityI) (auto simp: nth_append)
  then show ?thesis using p by (auto simp: memcpy_out_def)
qed

text \<open>
  C21. Data round trip of a set with data bytes: writing bytes into a line succeeds and keeps
  the set well formed, reading the same range back returns exactly these bytes, and reading
  any range that does not overlap the written one (in the same or in another line) returns
  what it returned before.
\<close>

theorem write_line_read_line:
  assumes "set_wf s" and "m_blocks s = Some blocks" and "line < m_associativity s"
    and "off + length buf \<le> m_blocksize s" and "0 < length buf"
  shows "\<exists>s'. write_line uri info s line off (Some buf) (length buf) False = Inr (info, s') \<and> set_wf s' \<and>
    read_line uri info s' line off (Some out) (length buf) False = Inr (Some buf, info, s') \<and>
    (\<forall>line' < m_associativity s. \<forall>off' n. 0 < n \<longrightarrow> off' + n \<le> m_blocksize s \<longrightarrow>
       line' \<noteq> line \<or> off' + n \<le> off \<or> off + length buf \<le> off' \<longrightarrow>
       map_sum id fst (read_line uri info s' line' off' (Some out) n False) =
       map_sum id fst (read_line uri info s line' off' (Some out) n False))"
proof -
  let ?p = "line * m_blocksize s + off"
  note p = data_pos_in [OF assms(1,3,4,5)]
  have small: "m_blocksize s < 2 ^ 32"
    using assms(1,3) data_pos_line(2) [OF assms(1,3)] by (simp add: set_wf_def)
  obtain b where b: "memcpy_in blocks ?p buf = Inr b"
    using assms(1,2) p(2) by (simp add: memcpy_in_def set_wf_def)
  let ?s' = "s\<lparr>m_blocks := Some b\<rparr>"
  have w: "write_line uri info s line off (Some buf) (length buf) False = Inr (info, ?s')"
    using assms(2,4) small p(1) b by (simp add: write_line_def)
  have wf: "set_wf ?s'"
    using assms(1,2) length_memcpy_in [OF b] by (simp add: set_wf_def)
  have r: "read_line uri info ?s' line off (Some out) (length buf) False = Inr (Some buf, info, ?s')"
    using assms(4) small memcpy_out_in_same [OF b refl] p(1) by (simp add: read_line_def data_pos_def)
  have "map_sum id fst (read_line uri info ?s' line' off' (Some out) n False) =
        map_sum id fst (read_line uri info s line' off' (Some out) n False)"
    if o: "line' < m_associativity s" "0 < n" "off' + n \<le> m_blocksize s"
      "line' \<noteq> line \<or> off' + n \<le> off \<or> off + length buf \<le> off'" for line' off' n
  proof -
    note q = data_pos_in [OF assms(1) o(1,3,2)]
    have "line' * m_blocksize s + off' + n \<le> ?p \<or> ?p + length buf \<le> line' * m_blocksize s + off'"
      using o(4) lines_disjoint [OF _ o(3) assms(4), of line' line] by (cases "line' = line") auto
    from memcpy_out_in_other [OF b this] q(1) show ?thesis
      using assms(2) by (simp add: read_line_def data_pos_def rbind_def split: sum.split)
  qed
  with w wf r show ?thesis by blast
qed

theorem write_line_read_line_witness:
  "let s = CacheSet_new 2 4 True False (); buf = [1, 2, 3] :: u8 list;
       uri = (\<lambda>_ i s. Inr (i, s)) :: nat \<Rightarrow> unit \<Rightarrow> unit cache_set \<Rightarrow> (unit \<times> unit cache_set) res in
   \<exists>s'. write_line uri () s 1 1 (Some buf) (length buf) False = Inr ((), s') \<and>
     read_line uri () s' 1 1 (Some []) (length buf) False = Inr (Some buf, (), s')"
  unfolding Let_def
  using write_line_read_line [of "CacheSet_new 2 4 True False ()" "replicate 8 0" 1 1 "[1, 2, 3]"
      "\<lambda>_ i s. Inr (i, s)" "()" "[]"]
  by (auto simp: set_wf_def CacheSet_new_def)

text \<open>
  C22. Invalidation: in a set without duplicate tags, \<open>CacheSet::invalidate\<close> reports whether
  the tag was there, removes exactly this tag from the contents, and keeps the set well
  formed, its tags unique and its replacement state and data bytes as they were.
\<close>

theorem invalidate_correct:
  assumes "set_wf s" and "tags_unique s" and "t \<noteq> - 1"
  shows "fst (set_invalidate s t) = (contents s t \<noteq> None) \<and>
    contents (snd (set_invalidate s t)) = (contents s)(t := None) \<and>
    set_wf (snd (set_invalidate s t)) \<and> tags_unique (snd (set_invalidate s t)) \<and>
    m_repl (snd (set_invalidate s t)) = m_repl s \<and> m_blocks (snd (set_invalidate s t)) = m_blocks s"
  using set_invalidate_contents [OF assms] set_invalidate_wf [OF assms(1)] set_invalidate_unique [OF assms]
    contents_None [OF assms(3), of s]
  by (simp add: set_invalidate_result set_invalidate_frame)

definition example_line :: "IntPtr \<Rightarrow> cache_block_info" where
  "example_line t = CacheBlockInfo_create\<lparr>m_tag := t, m_cstate := MODIFIED\<rparr>"

theorem invalidate_correct_witness:
  "let s = (CacheSet_new 2 4 False False ())\<lparr>m_cache_block_info_array := [example_line 5, example_line 7]\<rparr> in
   contents s 7 \<noteq> None \<and> fst (set_invalidate s 7) \<and> contents (snd (set_invalidate s 7)) 7 = None \<and>
   contents (snd (set_invalidate s 7)) 5 = contents s 5"
proof -
  define s where "s = (CacheSet_new 2 4 False False ())\<lparr>m_cache_block_info_array := [example_line 5, example_line 7]\<rparr>"
  have wf: "set_wf s" by (simp add: s_def set_wf_def CacheSet_new_def)
  have u: "tags_unique s"
    by (auto simp: s_def tags_unique_def CacheSet_new_def example_line_def less_Suc_eq numeral_2_eq_2)
  have c: "contents s 7 \<noteq> None"
    by (simp add: contents_None holds_def) (auto simp: s_def CacheSet_new_def example_line_def intro!: exI [of _ 1])
  have "contents s 7 \<noteq> None \<and> fst (set_invalidate s 7) \<and> contents (snd (set_invalidate s 7)) 7 = None \<and>
      contents (snd (set_invalidate s 7)) 5 = contents s 5"
    using invalidate_correct [OF wf u, of 7] c by simp
  then show ?thesis by (simp add: s_def)
qed

end
