(* ===== verification/CacheSetLRU.thy ===== *)
theory CacheSetLRU
  imports CacheSet
begin

section \<open>LRU replacement with way masks\<close>

text \<open>
  \<^verbatim>\<open>cache/cache_set_lru.{h,cc}\<close>: the only replacement class the simulator instantiates
  (\<open>createCacheSet\<close> has every other one commented out). Each way has an 8-bit age; 0 is the
  most recently used way. The \<open>Flex\<close> variants restrict replacement to the ways that the
  reconfiguration algorithm left switched on (\<open>isSubWay\<close>). The age array is refined from
  the recency list of the textbook LRU: touching a way moves it to the front, and the
  victim is the last way of the list. The locale \<open>replacement_policy\<close> and its extensions
  are interpreted here on the code's own functions.
\<close>

subsection \<open>State\<close>

record CacheSetInfoLRU =
  m_access :: "u64 list"
  m_attempts :: "u64 list option"

definition CacheSetInfoLRU_new :: "nat \<Rightarrow> nat \<Rightarrow> CacheSetInfoLRU" where
  "CacheSetInfoLRU_new associativity num_attempts =
     \<lparr>m_access = replicate associativity 0,
      m_attempts = (if num_attempts > 1 then Some (replicate num_attempts 0) else None)\<rparr>"

definition info_increment :: "CacheSetInfoLRU \<Rightarrow> nat \<Rightarrow> CacheSetInfoLRU res" where
  "info_increment info index =
     rbind (ensure AssertFailed (index < length (m_access info))) (\<lambda>_.
     Inr (info\<lparr>m_access := (m_access info)[index := m_access info ! index + 1]\<rparr>))"

definition info_incrementAttempt :: "CacheSetInfoLRU \<Rightarrow> nat \<Rightarrow> CacheSetInfoLRU res" where
  "info_incrementAttempt info attempt =
     (case m_attempts info of
        Some a \<Rightarrow> rbind (nth_res a attempt) (\<lambda>n. Inr (info\<lparr>m_attempts := Some (a[attempt := n + 1])\<rparr>))
      | None \<Rightarrow> rbind (ensure AssertFailed (attempt = 0)) (\<lambda>_. Inr info))"

record lru_state =
  m_num_attempts :: u8
  m_lru_bits :: "u8 list"

type_synonym lru_set = "lru_state cache_set"

definition CacheSetLRU_new :: "nat \<Rightarrow> nat \<Rightarrow> u8 \<Rightarrow> bool \<Rightarrow> bool \<Rightarrow> lru_set" where
  "CacheSetLRU_new associativity blocksize num_attempts fault_injection ifLeader =
     CacheSet_new associativity blocksize fault_injection ifLeader
       \<lparr>m_num_attempts = num_attempts, m_lru_bits = map of_nat [0..<associativity]\<rparr>"

subsection \<open>Ages\<close>

definition bits :: "lru_set \<Rightarrow> u8 list" where
  "bits s = m_lru_bits (m_repl s)"

definition set_bits :: "lru_set \<Rightarrow> u8 list \<Rightarrow> lru_set" where
  "set_bits s b = s\<lparr>m_repl := (m_repl s)\<lparr>m_lru_bits := b\<rparr>\<rparr>"

definition age_step :: "nat \<Rightarrow> nat \<Rightarrow> u8 list \<Rightarrow> u8 list" where
  \<comment> \<open>\<open>if (m_lru_bits[i] < m_lru_bits[accessed_index]) m_lru_bits[i] ++;\<close>\<close>
  "age_step accessed_index i b = (if b ! i < b ! accessed_index then b[i := b ! i + 1] else b)"

definition moveToMRU :: "nat \<Rightarrow> lru_set \<Rightarrow> lru_set" where
  "moveToMRU accessed_index s =
     set_bits s ((fold (age_step accessed_index) [0..<m_associativity s] (bits s))[accessed_index := 0])"

definition moveToMRUFlex :: "nat \<Rightarrow> bool list \<Rightarrow> lru_set \<Rightarrow> lru_set" where
  "moveToMRUFlex accessed_index isSubWay s =
     set_bits s
       ((fold (\<lambda>i b. if isSubWay ! i = False then b else age_step accessed_index i b)
           [0..<m_associativity s] (bits s))[accessed_index := 0])"

definition oldest_step :: "lru_set \<Rightarrow> nat \<Rightarrow> nat \<times> u8 \<Rightarrow> nat \<times> u8" where
  "oldest_step s i = (\<lambda>(index, max_bits).
     if bits s ! i > max_bits \<and> isValidReplacement s i then (i, bits s ! i) else (index, max_bits))"

definition getReplacementIndex :: "CacheSetInfoLRU \<Rightarrow> lru_set \<Rightarrow> (nat \<times> CacheSetInfoLRU \<times> lru_set) res" where
  "getReplacementIndex info s =
     (case first_index (\<lambda>i. \<not> isValid (m_cache_block_info_array s ! i)) (m_associativity s) of
        Some i \<Rightarrow> Inr (i, info, moveToMRU i s)
      | None \<Rightarrow>
          let index = fst (fold (oldest_step s) [0..<m_associativity s] (0, 0))
          in Inr (index, info, moveToMRU index s))"

definition getReplacementIndexFlex ::
    "CacheSetInfoLRU \<Rightarrow> bool list \<Rightarrow> lru_set \<Rightarrow> (nat \<times> CacheSetInfoLRU \<times> lru_set) res" where
  \<comment> \<open>the first loop breaks off at the first way that is switched off\<close>
  "getReplacementIndexFlex info isSubWay s =
     (let victim =
        (let index = fst (fold (\<lambda>i acc. if \<not> isSubWay ! i then acc else oldest_step s i acc)
                           [0..<m_associativity s] (0, 0))
         in Inr (index, info, moveToMRUFlex index isSubWay s))
      in case first_index (\<lambda>i. isSubWay ! i = False \<or> \<not> isValid (m_cache_block_info_array s ! i))
                (m_associativity s) of
           Some i \<Rightarrow> if isSubWay ! i = False then victim else Inr (i, info, moveToMRUFlex i isSubWay s)
         | None \<Rightarrow> victim)"

definition findTransReplacemnt :: "lru_set \<Rightarrow> nat \<Rightarrow> nat res" where
  "findTransReplacemnt s min_way =
     rbind (ensure Undefined (min_way \<le> m_associativity s)) (\<lambda>_.
     case first_index (\<lambda>v. m_cstate (m_cache_block_info_array s ! v) \<noteq> MODIFIED) min_way of
       Some v \<Rightarrow> Inr v
     | None \<Rightarrow>
         Inr (snd (fold (\<lambda>v (max_bits, index). if bits s ! v > max_bits then (bits s ! v, v) else (max_bits, index))
                     [0..<min_way] (0, 0))))"

definition updateReplacementIndex ::
    "nat \<Rightarrow> CacheSetInfoLRU \<Rightarrow> lru_set \<Rightarrow> (CacheSetInfoLRU \<times> lru_set) res" where
  "updateReplacementIndex accessed_index info s =
     rbind (nth_res (bits s) accessed_index) (\<lambda>b.
     rbind (info_increment info (unat b)) (\<lambda>info.
     Inr (info, moveToMRU accessed_index s)))"

subsection \<open>Invariant\<close>

text \<open>The ages are a permutation of \<open>0 \<dots> m_associativity - 1\<close>.\<close>

definition ages_perm :: "u8 list \<Rightarrow> bool" where
  "ages_perm b \<longleftrightarrow> distinct b \<and> (\<forall>x \<in> set b. unat x < length b)"

definition lru_inv :: "lru_set \<Rightarrow> bool" where
  "lru_inv s \<longleftrightarrow> length (bits s) = m_associativity s \<and> ages_perm (bits s)"

text \<open>The weaker invariant that also survives moves restricted to the enabled ways.\<close>

definition flex_inv :: "bool list \<Rightarrow> lru_set \<Rightarrow> bool" where
  "flex_inv sub s \<longleftrightarrow>
     length (bits s) = m_associativity s \<and> length sub = m_associativity s \<and>
     (\<forall>x \<in> set (bits s). unat x < m_associativity s) \<and>
     (\<forall>i < m_associativity s. \<forall>j < m_associativity s. sub ! i \<longrightarrow> sub ! j \<longrightarrow> bits s ! i = bits s ! j \<longrightarrow> i = j)"

text \<open>The recency list: the ways from the most to the least recently used one.\<close>

definition recency :: "u8 list \<Rightarrow> nat list" where
  "recency b = sort_key (\<lambda>i. unat (b ! i)) [0..<length b]"

subsection \<open>The ageing loop\<close>

lemma fold_age_step:
  assumes "acc < length b" and "n \<le> length b"
  shows "fold (\<lambda>i b. if E i then age_step acc i b else b) [0..<n] b =
    map (\<lambda>i. if i < n \<and> E i \<and> b ! i < b ! acc then b ! i + 1 else b ! i) [0..<length b]"
  using assms(2)
proof (induction n)
  case 0
  show ?case by (simp add: map_nth)
next
  case (Suc n)
  let ?b' = "map (\<lambda>i. if i < n \<and> E i \<and> b ! i < b ! acc then b ! i + 1 else b ! i) [0..<length b]"
  have IH: "fold (\<lambda>i b. if E i then age_step acc i b else b) [0..<n] b = ?b'"
    using Suc by simp
  have "(if E n then age_step acc n ?b' else ?b') =
      map (\<lambda>i. if i < Suc n \<and> E i \<and> b ! i < b ! acc then b ! i + 1 else b ! i) [0..<length b]"
    (is "?l = ?r")
  proof (rule nth_equalityI)
    show "length ?l = length ?r" by (simp add: age_step_def)
    fix i assume "i < length ?l"
    then have "i < length b" by (simp add: age_step_def split: if_splits)
    with assms(1) Suc.prems show "?l ! i = ?r ! i"
      by (cases "i = n") (auto simp: age_step_def nth_list_update less_Suc_eq)
  qed
  moreover have "fold (\<lambda>i b. if E i then age_step acc i b else b) [0..<Suc n] b =
      (if E n then age_step acc n ?b' else ?b')"
    unfolding upt_Suc_append [OF le0] fold_append comp_apply IH by simp
  ultimately show ?case by (rule trans [rotated])
qed

definition aged :: "(nat \<Rightarrow> bool) \<Rightarrow> nat \<Rightarrow> u8 list \<Rightarrow> u8 list" where
  "aged E acc b =
     map (\<lambda>i. if i = acc then 0 else if E i \<and> b ! i < b ! acc then b ! i + 1 else b ! i) [0..<length b]"

lemma length_aged [simp]: "length (aged E acc b) = length b"
  by (simp add: aged_def)

lemma unat_aged:
  "i < length b \<Longrightarrow> unat (aged E acc b ! i) =
    (if i = acc then 0 else if E i \<and> unat (b ! i) < unat (b ! acc) then Suc (unat (b ! i)) else unat (b ! i))"
  by (auto simp: aged_def unat_inc_less word_less_nat_alt)

lemma bits_set_bits [simp]: "bits (set_bits s b) = b"
  by (simp add: bits_def set_bits_def)

lemma bits_moveToMRUFlex:
  assumes "length (bits s) = m_associativity s" and "acc < m_associativity s"
  shows "bits (moveToMRUFlex acc sub s) = aged (\<lambda>i. sub ! i) acc (bits s)"
proof -
  have f: "(\<lambda>i b. if sub ! i = False then b else age_step acc i b) = (\<lambda>i b. if sub ! i then age_step acc i b else b)"
    by (auto simp: fun_eq_iff)
  show ?thesis
    using assms fold_age_step [of acc "bits s" "m_associativity s" "\<lambda>i. sub ! i"]
    unfolding moveToMRUFlex_def f bits_set_bits aged_def
    by (intro nth_equalityI) (auto simp: nth_list_update)
qed

lemma bits_moveToMRU:
  assumes "length (bits s) = m_associativity s" and "acc < m_associativity s"
  shows "bits (moveToMRU acc s) = aged (\<lambda>_. True) acc (bits s)"
  using assms fold_age_step [of acc "bits s" "m_associativity s" "\<lambda>_. True"]
  unfolding moveToMRU_def bits_set_bits aged_def
  by (intro nth_equalityI) (auto simp: nth_list_update)

lemma moveToMRU_frame: "\<exists>r. moveToMRU acc s = s\<lparr>m_repl := r\<rparr>"
  by (auto simp: moveToMRU_def set_bits_def)

lemma moveToMRUFlex_frame: "\<exists>r. moveToMRUFlex acc sub s = s\<lparr>m_repl := r\<rparr>"
  by (auto simp: moveToMRUFlex_def set_bits_def)

lemma moveToMRU_fields [simp]:
  "m_associativity (moveToMRU acc s) = m_associativity s"
  "m_cache_block_info_array (moveToMRU acc s) = m_cache_block_info_array s"
  "m_associativity (moveToMRUFlex acc sub s) = m_associativity s"
  "m_cache_block_info_array (moveToMRUFlex acc sub s) = m_cache_block_info_array s"
  by (simp_all add: moveToMRU_def moveToMRUFlex_def set_bits_def)

subsection \<open>Ages stay a permutation\<close>

lemma ages_perm_alt:
  "ages_perm b \<longleftrightarrow> inj_on (\<lambda>i. unat (b ! i)) {..<length b} \<and> (\<forall>i < length b. unat (b ! i) < length b)"
  by (simp add: ages_perm_def distinct_conv_nth inj_on_def all_set_conv_all_nth word_unat_eq_iff [symmetric])
    blast

lemma aged_inj:
  assumes "acc < length b" and "E acc"
    and "\<And>i j. i < length b \<Longrightarrow> j < length b \<Longrightarrow> E i \<Longrightarrow> E j \<Longrightarrow> unat (b ! i) = unat (b ! j) \<Longrightarrow> i = j"
    and "i < length b" and "j < length b" and "E i" and "E j"
    and "unat (aged E acc b ! i) = unat (aged E acc b ! j)"
  shows "i = j"
proof (cases "i = acc \<or> j = acc")
  case True
  show ?thesis
    using True assms(8) assms(3) [OF assms(4,1,6,2)] assms(3) [OF assms(5,1,7,2)] assms(4-7)
    by (auto simp: unat_aged split: if_splits)
next
  case False
  have "unat (b ! i) \<noteq> unat (b ! acc)" "unat (b ! j) \<noteq> unat (b ! acc)"
    using False assms(3) [OF assms(4,1,6,2)] assms(3) [OF assms(5,1,7,2)] by auto
  then have "unat (b ! i) = unat (b ! j)"
    using False assms(4-8) by (simp add: unat_aged split: if_splits)
  with assms(3-7) show ?thesis by blast
qed

lemma aged_bound:
  assumes "acc < length b" and "\<forall>i < length b. unat (b ! i) < m" and "i < length b"
  shows "unat (aged E acc b ! i) < m"
proof -
  have "unat (b ! acc) < m" "unat (b ! i) < m" using assms by simp_all
  then show ?thesis by (auto simp: unat_aged [OF assms(3)])
qed

lemma aged_perm:
  assumes acc: "acc < length b" and p: "ages_perm b"
  shows "ages_perm (aged (\<lambda>_. True) acc b)"
  unfolding ages_perm_alt length_aged
proof (intro conjI inj_onI allI impI)
  note p' = p [unfolded ages_perm_alt]
  have inj: "i = j" if "i < length b" "j < length b" "unat (b ! i) = unat (b ! j)" for i j
    using conjunct1 [OF p'] that(3) by (rule inj_onD) (simp_all add: that)
  show "i = j" if "i \<in> {..<length b}" "j \<in> {..<length b}"
      "unat (aged (\<lambda>_. True) acc b ! i) = unat (aged (\<lambda>_. True) acc b ! j)" for i j
    using acc TrueI inj _ _ TrueI TrueI that(3) by (rule aged_inj) (use that in simp_all)
  show "unat (aged (\<lambda>_. True) acc b ! i) < length b" if "i < length b" for i
    using acc conjunct2 [OF p'] that by (rule aged_bound)
qed

lemma moveToMRU_inv: "lru_inv s \<Longrightarrow> acc < m_associativity s \<Longrightarrow> lru_inv (moveToMRU acc s)"
  by (simp add: lru_inv_def bits_moveToMRU aged_perm)

lemma flex_inv_alt:
  "flex_inv sub s \<longleftrightarrow>
     length (bits s) = m_associativity s \<and> length sub = m_associativity s \<and>
     (\<forall>i < length (bits s). unat (bits s ! i) < m_associativity s) \<and>
     (\<forall>i j. i < length (bits s) \<longrightarrow> j < length (bits s) \<longrightarrow> sub ! i \<longrightarrow> sub ! j \<longrightarrow>
        unat (bits s ! i) = unat (bits s ! j) \<longrightarrow> i = j)"
  unfolding flex_inv_def all_set_conv_all_nth word_unat_eq_iff by (rule iffI) (elim conjE, simp)+

lemma moveToMRUFlex_inv:
  assumes inv: "flex_inv sub s" and "acc < m_associativity s" and "sub ! acc"
  shows "flex_inv sub (moveToMRUFlex acc sub s)"
proof -
  let ?b = "bits s"
  note f = inv [unfolded flex_inv_alt]
  have acc: "acc < length ?b" using assms(2) f by simp
  have e: "bits (moveToMRUFlex acc sub s) = aged (\<lambda>i. sub ! i) acc ?b"
    using f assms(2) by (simp add: bits_moveToMRUFlex)
  have "unat (aged (\<lambda>i. sub ! i) acc ?b ! i) < m_associativity s" if "i < length ?b" for i
    using acc _ that by (rule aged_bound) (use f in blast)
  moreover have "i = j" if "i < length ?b" "j < length ?b" "sub ! i" "sub ! j"
      "unat (aged (\<lambda>i. sub ! i) acc ?b ! i) = unat (aged (\<lambda>i. sub ! i) acc ?b ! j)" for i j
    using acc assms(3) _ that by (rule aged_inj) (use f in blast)
  ultimately show ?thesis
    using f unfolding flex_inv_alt e length_aged moveToMRU_fields by blast
qed

subsection \<open>Refinement to the recency list\<close>

lemma recency_set [simp]: "set (recency b) = {..<length b}"
  by (auto simp: recency_def)

lemma recency_distinct [simp]: "distinct (recency b)"
  by (simp add: recency_def)

lemma recency_sorted: "sorted (map (\<lambda>i. unat (b ! i)) (recency b))"
  by (simp add: recency_def)

lemma recency_unique:
  assumes "inj_on (\<lambda>i. unat (b ! i)) {..<length b}" and "set xs = {..<length b}" and "distinct xs"
    and "sorted (map (\<lambda>i. unat (b ! i)) xs)"
  shows "recency b = xs"
  using assms recency_sorted [of b]
  by (intro map_sorted_distinct_set_unique [where f = "\<lambda>i. unat (b ! i)"]) (simp_all add: distinct_map)

lemma aged_mono:
  assumes "acc < length b" and "ages_perm b" and "i < length b" "j < length b" "i \<noteq> acc" "j \<noteq> acc"
    and "unat (b ! i) \<le> unat (b ! j)"
  shows "unat (aged (\<lambda>_. True) acc b ! i) \<le> unat (aged (\<lambda>_. True) acc b ! j)"
proof -
  have "unat (b ! j) \<noteq> unat (b ! acc)"
    using assms(1,2,4,6) unfolding ages_perm_alt by (metis inj_onD lessThan_iff)
  with assms show ?thesis by (simp add: unat_aged)
qed

lemma recency_aged:
  assumes "acc < length b" and "ages_perm b"
  shows "recency (aged (\<lambda>_. True) acc b) = acc # remove1 acc (recency b)"
proof (rule recency_unique)
  let ?f' = "\<lambda>i. unat (aged (\<lambda>_. True) acc b ! i)"
  let ?xs = "remove1 acc (recency b)"
  show "inj_on ?f' {..<length (aged (\<lambda>_. True) acc b)}"
    using aged_perm [OF assms] unfolding ages_perm_alt by simp
  show "set (acc # ?xs) = {..<length (aged (\<lambda>_. True) acc b)}"
    using assms(1) by (auto simp: set_remove1_eq)
  show "distinct (acc # ?xs)" by (simp add: set_remove1_eq)
  have "sorted_wrt (\<lambda>i j. unat (b ! i) \<le> unat (b ! j)) ?xs"
    using sorted_map_remove1 [OF recency_sorted [of b]] by (simp add: sorted_map)
  then have "sorted_wrt (\<lambda>i j. ?f' i \<le> ?f' j) ?xs"
    by (rule sorted_wrt_mono_rel [rotated]) (use assms in \<open>auto simp: set_remove1_eq intro: aged_mono\<close>)
  moreover have "?f' acc = 0" using assms(1) by (simp add: unat_aged)
  ultimately show "sorted (map ?f' (acc # ?xs))" by (simp add: sorted_map)
qed

subsection \<open>The victim\<close>

lemma fold_oldest_step:
  assumes "fold (\<lambda>i acc. if \<not> E i then acc else oldest_step s i acc) [0..<n] (0, 0) = (k, m)"
  shows "(k = 0 \<and> m = 0 \<or> k < n \<and> E k \<and> isValidReplacement s k \<and> m = bits s ! k \<and> 0 < m) \<and>
    (\<forall>i < n. E i \<longrightarrow> isValidReplacement s i \<longrightarrow> bits s ! i \<le> m)"
  using assms
proof (induction n arbitrary: k m)
  case 0
  then show ?case by simp
next
  case (Suc n)
  obtain k' m' where f: "fold (\<lambda>i acc. if \<not> E i then acc else oldest_step s i acc) [0..<n] (0, 0) = (k', m')"
    by fastforce
  let ?P = "E n \<and> m' < bits s ! n \<and> isValidReplacement s n"
  have "fold (\<lambda>i acc. if \<not> E i then acc else oldest_step s i acc) [0..<Suc n] (0, 0) =
      (if \<not> E n then (k', m') else oldest_step s n (k', m'))"
    unfolding upt_Suc_append [OF le0] fold_append comp_apply f by simp
  also have "\<dots> = (if ?P then (n, bits s ! n) else (k', m'))"
    by (simp add: oldest_step_def)
  finally have e: "(k, m) = (if ?P then (n, bits s ! n) else (k', m'))"
    using Suc.prems by simp
  note IH = Suc.IH [OF f]
  show ?case
  proof (cases ?P)
    case True
    then have "k = n" "m = bits s ! n" using e by simp_all
    moreover have "bits s ! i \<le> bits s ! n" if "i < n" "E i" "isValidReplacement s i" for i
      using IH that True by (meson less_imp_le order_trans)
    moreover have "0 < bits s ! n" using True by (metis word_neq_0_conv word_not_simps(1))
    ultimately show ?thesis using True by (auto simp: less_Suc_eq)
  next
    case False
    then have "k = k'" "m = m'" using e unfolding if_not_P [OF False] by simp_all
    with IH False show ?thesis by (auto simp: less_Suc_eq not_less)
  qed
qed

lemma fold_oldest_all:
  "fold (oldest_step s) [0..<n] = fold (\<lambda>i acc. if \<not> True then acc else oldest_step s i acc) [0..<n]"
  by simp

definition oldest :: "(nat \<Rightarrow> bool) \<Rightarrow> lru_set \<Rightarrow> nat" where
  "oldest E s = fst (fold (\<lambda>i acc. if \<not> E i then acc else oldest_step s i acc) [0..<m_associativity s] (0, 0))"

lemma oldest_cases:
  "oldest E s = 0 \<or> oldest E s < m_associativity s \<and> E (oldest E s) \<and> isValidReplacement s (oldest E s)"
proof -
  obtain k m where f: "fold (\<lambda>i acc. if \<not> E i then acc else oldest_step s i acc) [0..<m_associativity s] (0, 0) = (k, m)"
    by fastforce
  from fold_oldest_step [OF this] f show ?thesis by (auto simp: oldest_def)
qed

lemma oldest_max:
  assumes "E 0" and "isValidReplacement s 0" and "0 < m_associativity s"
    and "i < m_associativity s" "E i" "isValidReplacement s i"
  shows "bits s ! i \<le> bits s ! oldest E s \<and> isValidReplacement s (oldest E s)"
proof -
  obtain k m where f: "fold (\<lambda>i acc. if \<not> E i then acc else oldest_step s i acc) [0..<m_associativity s] (0, 0) = (k, m)"
    by fastforce
  note r = fold_oldest_step [OF f]
  have k: "oldest E s = k" using f by (simp add: oldest_def)
  from r show ?thesis
    unfolding k using assms by (metis word_le_0_iff order_trans word_zero_le)
qed

lemma getReplacementIndex_eq:
  "getReplacementIndex info s =
     (let k = (case first_index (\<lambda>i. \<not> isValid (m_cache_block_info_array s ! i)) (m_associativity s) of
                 Some i \<Rightarrow> i | None \<Rightarrow> oldest (\<lambda>_. True) s)
      in Inr (k, info, moveToMRU k s))"
  unfolding getReplacementIndex_def Let_def oldest_def fold_oldest_all [symmetric] by (simp split: option.split)

lemma getReplacementIndex_inv:
  assumes "set_wf s" and "lru_inv s" and "getReplacementIndex info s = Inr (k, info', s')"
  shows "k < m_associativity s" and "s' = moveToMRU k s" and "info' = info" and "lru_inv s'"
proof -
  have a: "0 < m_associativity s" using assms(1) by (simp add: set_wf_def)
  show "s' = moveToMRU k s" "info' = info"
    using assms(3) by (auto simp: getReplacementIndex_eq Let_def)
  show k: "k < m_associativity s"
    using assms(3) a oldest_cases [of "\<lambda>_. True" s]
    by (auto simp: getReplacementIndex_eq Let_def dest: first_index_SomeD split: option.splits)
  show "lru_inv s'"
    unfolding \<open>s' = moveToMRU k s\<close> using assms(2) k by (rule moveToMRU_inv)
qed

lemma lru_inv_lines: "lru_inv s \<Longrightarrow> lru_inv (s\<lparr>m_cache_block_info_array := a, m_blocks := d\<rparr>)"
  by (simp add: lru_inv_def bits_def)

interpretation lru: invalid_first_policy getReplacementIndex lru_inv
proof
  fix s info k info' s'
  assume a: "set_wf s" "lru_inv s" "getReplacementIndex info s = Inr (k, info', s')"
  note r = getReplacementIndex_inv [OF a]
  show "k < m_associativity s" "lru_inv s'" by (fact r)+
  show "\<exists>r. s' = s\<lparr>m_repl := r\<rparr>" unfolding r(2) by (rule moveToMRU_frame)
  show "\<not> isValid (m_cache_block_info_array s ! k)"
    if "\<exists>i<m_associativity s. \<not> isValid (m_cache_block_info_array s ! i)"
    using a(3) that first_index_None [of "\<lambda>i. \<not> isValid (m_cache_block_info_array s ! i)" "m_associativity s"]
    by (auto simp: getReplacementIndex_eq Let_def dest: first_index_SomeD split: option.splits)
qed (rule lru_inv_lines)

interpretation lru: total_policy getReplacementIndex lru_inv
  by unfold_locales (simp add: getReplacementIndex_eq Let_def)

lemma moveToMRU_wf: "set_wf (moveToMRU i s) = set_wf s"
  by (metis moveToMRU_frame lru.repl_frame(1))

lemma CacheSetLRU_new_age:
  assumes "associativity \<le> 256" and "i < associativity"
  shows "unat (bits (CacheSetLRU_new associativity blocksize n fi l) ! i) = i"
  using assms by (simp add: CacheSetLRU_new_def CacheSet_new_def bits_def unat_of_nat)

lemma CacheSetLRU_new_fields [simp]:
  "length (bits (CacheSetLRU_new associativity blocksize n fi l)) = associativity"
  "m_associativity (CacheSetLRU_new associativity blocksize n fi l) = associativity"
  by (simp_all add: CacheSetLRU_new_def CacheSet_new_def bits_def)

lemma CacheSetLRU_new_inv:
  "associativity \<le> 256 \<Longrightarrow> lru_inv (CacheSetLRU_new associativity blocksize n fi l)"
  by (simp add: lru_inv_def ages_perm_alt inj_on_def CacheSetLRU_new_age)

lemma CacheSetLRU_new_recency:
  assumes "associativity \<le> 256"
  shows "recency (bits (CacheSetLRU_new associativity blocksize n fi l)) = [0..<associativity]"
proof (rule recency_unique)
  show "sorted (map (\<lambda>i. unat (bits (CacheSetLRU_new associativity blocksize n fi l) ! i)) [0..<associativity])"
    using assms by (simp add: sorted_map sorted_wrt_iff_nth_less CacheSetLRU_new_age)
qed (use assms in \<open>auto simp: inj_on_def CacheSetLRU_new_age\<close>)

subsection \<open>Replacement among the enabled ways\<close>

lemma lru_inv_flex: "lru_inv s \<Longrightarrow> length sub = m_associativity s \<Longrightarrow> flex_inv sub s"
  unfolding lru_inv_def flex_inv_alt ages_perm_alt by (auto dest: inj_onD)

lemma getReplacementIndexFlex_eq:
  assumes "getReplacementIndexFlex info sub s = Inr (k, info', s')"
  shows "s' = moveToMRUFlex k sub s" and "info' = info"
    and "k = oldest (\<lambda>i. sub ! i) s \<or>
      k < m_associativity s \<and> sub ! k \<and> \<not> isValid (m_cache_block_info_array s ! k)"
  using assms
  by (auto simp: getReplacementIndexFlex_def Let_def oldest_def dest: first_index_SomeD
      split: option.splits if_splits)

lemma getReplacementIndexFlex_enabled:
  assumes "getReplacementIndexFlex info sub s = Inr (k, info', s')" and "sub ! 0" and "0 < m_associativity s"
  shows "k < m_associativity s" and "sub ! k"
  using getReplacementIndexFlex_eq(3) [OF assms(1)] oldest_cases [of "\<lambda>i. sub ! i" s] assms(2,3) by auto

lemma getReplacementIndexFlex_total: "\<exists>k s'. getReplacementIndexFlex info sub s = Inr (k, info, s')"
  by (simp add: getReplacementIndexFlex_def Let_def split: option.split)

lemma flex_inv_lines: "flex_inv sub s \<Longrightarrow> flex_inv sub (s\<lparr>m_cache_block_info_array := a, m_blocks := d\<rparr>)"
  by (simp add: flex_inv_def bits_def)

text \<open>With a mask that has way 0, the restricted choice is a replacement policy of its own.\<close>

interpretation lru_flex: total_policy "\<lambda>info. getReplacementIndexFlex info sub"
  "\<lambda>s. flex_inv sub s \<and> sub ! 0" for sub
proof
  fix s info k info' s'
  assume a: "set_wf s" "flex_inv sub s \<and> sub ! 0" "getReplacementIndexFlex info sub s = Inr (k, info', s')"
  have pos: "0 < m_associativity s" using a(1) by (simp add: set_wf_def)
  note k = getReplacementIndexFlex_enabled [OF a(3) conjunct2 [OF a(2)] pos]
  note r = getReplacementIndexFlex_eq [OF a(3)]
  show "k < m_associativity s" by (fact k)
  show "\<exists>r. s' = s\<lparr>m_repl := r\<rparr>" unfolding r(1) by (rule moveToMRUFlex_frame)
  show "flex_inv sub s' \<and> sub ! 0" unfolding r(1) using moveToMRUFlex_inv [OF _ k] a(2) by blast
next
  fix s :: lru_set and info
  show "\<exists>k info' s'. getReplacementIndexFlex info sub s = Inr (k, info', s')"
    using getReplacementIndexFlex_total by blast
qed (auto intro: flex_inv_lines)

lemma insertFlex_eq:
  assumes "8 \<le> m_associativity s" and "sub ! 0"
  shows "insertFlex getReplacementIndexFlex info s b fb ei eb sub =
    set_insert (\<lambda>info. getReplacementIndexFlex info sub) info s b fb ei eb"
proof -
  obtain k s' where g: "getReplacementIndexFlex info sub s = Inr (k, info, s')"
    using getReplacementIndexFlex_total by blast
  then have "s' = moveToMRUFlex k sub s" "k < m_associativity s"
    using getReplacementIndexFlex_eq(1) [OF g] getReplacementIndexFlex_enabled(1) [OF g assms(2)] assms(1) by simp_all
  with g assms(1) show ?thesis by (simp add: insertFlex_def set_insert_def)
qed

subsection \<open>Bounded ages\<close>

text \<open>
  What survives a change of the mask between two accesses: every age indexes the access
  histogram. It is enough for both victim searches to be total replacement policies and for
  the statistics assertion of \<open>updateReplacementIndex\<close>.
\<close>

definition ages_ok :: "lru_set \<Rightarrow> bool" where
  "ages_ok s \<longleftrightarrow> length (bits s) = m_associativity s \<and> (\<forall>i < m_associativity s. unat (bits s ! i) < m_associativity s)"

lemma lru_inv_ages_ok: "lru_inv s \<Longrightarrow> ages_ok s"
  unfolding lru_inv_def ages_ok_def ages_perm_alt by metis

lemma ages_ok_lines: "ages_ok s \<Longrightarrow> ages_ok (s\<lparr>m_cache_block_info_array := a, m_blocks := d\<rparr>)"
  by (simp add: ages_ok_def bits_def)

lemma ages_ok_moveToMRU: "ages_ok s \<Longrightarrow> k < m_associativity s \<Longrightarrow> ages_ok (moveToMRU k s)"
  by (simp add: ages_ok_def bits_moveToMRU aged_bound)

lemma ages_ok_moveToMRUFlex: "ages_ok s \<Longrightarrow> k < m_associativity s \<Longrightarrow> ages_ok (moveToMRUFlex k sub s)"
  by (simp add: ages_ok_def bits_moveToMRUFlex aged_bound)

lemma getReplacementIndex_range:
  assumes "0 < m_associativity s" and "getReplacementIndex info s = Inr (k, info', s')"
  shows "k < m_associativity s" and "s' = moveToMRU k s" and "info' = info"
  using assms oldest_cases [of "\<lambda>_. True" s]
  by (auto simp: getReplacementIndex_eq Let_def dest: first_index_SomeD split: option.splits)

interpretation lru_ages: total_policy getReplacementIndex ages_ok
proof
  fix s info k info' s'
  assume a: "set_wf s" "ages_ok s" "getReplacementIndex info s = Inr (k, info', s')"
  have "0 < m_associativity s" using a(1) by (simp add: set_wf_def)
  note r = getReplacementIndex_range [OF this a(3)]
  show "k < m_associativity s" by (fact r)
  show "\<exists>r. s' = s\<lparr>m_repl := r\<rparr>" unfolding r(2) by (rule moveToMRU_frame)
  show "ages_ok s'" unfolding r(2) using a(2) r(1) by (rule ages_ok_moveToMRU)
qed (auto intro: ages_ok_lines simp: getReplacementIndex_eq Let_def)

interpretation lru_ages_flex: total_policy "\<lambda>info. getReplacementIndexFlex info sub"
  "\<lambda>s. ages_ok s \<and> sub ! 0" for sub
proof
  fix s info k info' s'
  assume a: "set_wf s" "ages_ok s \<and> sub ! 0" "getReplacementIndexFlex info sub s = Inr (k, info', s')"
  have pos: "0 < m_associativity s" using a(1) by (simp add: set_wf_def)
  note k = getReplacementIndexFlex_enabled(1) [OF a(3) conjunct2 [OF a(2)] pos]
  note r = getReplacementIndexFlex_eq [OF a(3)]
  show "k < m_associativity s" by (fact k)
  show "\<exists>r. s' = s\<lparr>m_repl := r\<rparr>" unfolding r(1) by (rule moveToMRUFlex_frame)
  show "ages_ok s' \<and> sub ! 0" unfolding r(1) using ages_ok_moveToMRUFlex [OF _ k] a(2) by blast
next
  fix s :: lru_set and info
  show "\<exists>k info' s'. getReplacementIndexFlex info sub s = Inr (k, info', s')"
    using getReplacementIndexFlex_total by blast
qed (auto intro: ages_ok_lines)

subsection \<open>Properties\<close>

text \<open>
  C16. LRU order: the ages of a fresh set of at most 256 ways encode a recency list, and a
  sequence of accesses to ways moves each accessed way to the front of this list, in order,
  and keeps the relative order of the others. The 8-bit ages never wrap.
\<close>

theorem moveToMRU_recency:
  assumes "lru_inv s" and "list_all (\<lambda>i. i < m_associativity s) accesses"
  shows "recency (bits (fold moveToMRU accesses s)) =
      fold (\<lambda>i r. i # remove1 i r) accesses (recency (bits s)) \<and>
    lru_inv (fold moveToMRU accesses s)"
  using assms
proof (induction accesses arbitrary: s)
  case Nil
  then show ?case by simp
next
  case (Cons i js)
  have "recency (bits (moveToMRU i s)) = i # remove1 i (recency (bits s))"
    using Cons.prems by (simp add: bits_moveToMRU lru_inv_def recency_aged)
  then show ?case
    using Cons.IH [of "moveToMRU i s"] Cons.prems moveToMRU_inv [of s i] by simp
qed

theorem moveToMRU_recency_witness:
  "recency (bits (fold moveToMRU [2, 0, 2, 3] (CacheSetLRU_new 4 64 1 False False))) = [3, 2, 0, 1]"
proof -
  have "lru_inv (CacheSetLRU_new 4 64 1 False False)" by (rule CacheSetLRU_new_inv) simp
  moreover have "recency (bits (CacheSetLRU_new 4 64 1 False False)) = [0, 1, 2, 3]"
    by (simp add: CacheSetLRU_new_recency upt_rec)
  ultimately show ?thesis
    using moveToMRU_recency [of "CacheSetLRU_new 4 64 1 False False" "[2, 0, 2, 3]"]
    by (simp add: CacheSetLRU_new_def CacheSet_new_def)
qed

text \<open>
  C17. LRU victim: when every line of the set is valid and none is waiting for an upgrade,
  \<open>CacheSetLRU::getReplacementIndex\<close> returns the least recently used way, the last one of
  the recency list, and moves it to the front; when some line is invalid it returns the
  first invalid way.
\<close>

theorem getReplacementIndex_lru:
  assumes "set_wf s" and "lru_inv s" and "list_all (\<lambda>b. m_cstate b \<noteq> SHARED_UPGRADING) (m_cache_block_info_array s)"
  shows "getReplacementIndex info s =
    (let k = (case first_index (\<lambda>i. \<not> isValid (m_cache_block_info_array s ! i)) (m_associativity s) of
                Some i \<Rightarrow> i | None \<Rightarrow> last (recency (bits s)))
     in Inr (k, info, moveToMRU k s))"
proof -
  let ?n = "m_associativity s" and ?b = "bits s"
  have n: "0 < ?n" "length ?b = ?n" and p: "ages_perm ?b"
    using assms(1,2) by (simp_all add: set_wf_def lru_inv_def)
  have ok: "isValidReplacement s i" if "i < ?n" for i
    using assms(1,3) that by (simp add: isValidReplacement_def set_wf_def list_all_length)
  let ?k = "oldest (\<lambda>_. True) s"
  have k: "?k < ?n" using oldest_cases [of "\<lambda>_. True" s] n by auto
  have ne: "recency ?b \<noteq> []" using n recency_set [of ?b] by (metis empty_iff lessThan_iff list.set(1))
  then have l: "last (recency ?b) < ?n"
    using last_in_set [OF ne] n by simp
  have "unat (?b ! i) \<le> unat (?b ! last (recency ?b))" if "i < ?n" for i
  proof -
    have "i \<in> set (recency ?b)" using that n by simp
    then show ?thesis
      using recency_sorted [of ?b]
      by (cases "recency ?b" rule: rev_cases) (auto simp: sorted_map sorted_wrt_append)
  qed
  moreover have "unat (?b ! i) \<le> unat (?b ! ?k)" if "i < ?n" for i
    using oldest_max [of "\<lambda>_. True" s i] ok n that by (simp add: word_le_nat_alt)
  ultimately have "unat (?b ! ?k) = unat (?b ! last (recency ?b))"
    using k l by (simp add: order_antisym)
  then have "?k = last (recency ?b)"
    using p k l n unfolding ages_perm_alt by (auto dest: inj_onD)
  then show ?thesis unfolding getReplacementIndex_eq by (rule ssubst) (rule refl)
qed

definition example_set :: "nat \<Rightarrow> IntPtr list \<Rightarrow> lru_set" where
  "example_set n tags = (CacheSetLRU_new n 64 1 False False)\<lparr>m_cache_block_info_array := map example_line tags\<rparr>"

lemma example_set_facts:
  assumes "length tags = n" and "0 < n" and "n \<le> 256"
  shows "set_wf (example_set n tags)" and "lru_inv (example_set n tags)"
    and "m_associativity (example_set n tags) = n"
    and "distinct tags \<Longrightarrow> - 1 \<notin> set tags \<Longrightarrow> tags_unique (example_set n tags)"
    and "- 1 \<notin> set tags \<Longrightarrow> t \<notin> set tags \<Longrightarrow> \<not> holds (example_set n tags) t"
    and "list_all (\<lambda>b. m_cstate b \<noteq> SHARED_UPGRADING) (m_cache_block_info_array (example_set n tags))"
    and "bits (example_set n tags) = bits (CacheSetLRU_new n 64 1 False False)"
    and "- 1 \<notin> set tags \<Longrightarrow> i < n \<Longrightarrow> isValid (m_cache_block_info_array (example_set n tags) ! i)"
proof -
  show "lru_inv (example_set n tags)"
    using CacheSetLRU_new_inv [OF assms(3), of 64 1 False False] by (simp add: example_set_def lru_inv_def bits_def)
qed (use assms in \<open>auto simp: example_set_def CacheSetLRU_new_def CacheSet_new_def set_wf_def tags_unique_def holds_def
    bits_def example_line_def list_all_length distinct_conv_nth isValid_def in_set_conv_nth\<close>)

theorem getReplacementIndex_lru_witness:
  "map_sum id fst (getReplacementIndex (CacheSetInfoLRU_new 4 1) (moveToMRU 3 (example_set 4 [5, 6, 7, 8]))) = Inr 2"
proof -
  let ?s = "moveToMRU 3 (example_set 4 [5, 6, 7, 8])"
  note f = example_set_facts [of "[5, 6, 7, 8]" 4, simplified]
  have inv: "lru_inv ?s" using f(2,3) by (simp add: moveToMRU_inv)
  have wf: "set_wf ?s" using f(1) by (simp add: moveToMRU_wf)
  have up: "list_all (\<lambda>b. m_cstate b \<noteq> SHARED_UPGRADING) (m_cache_block_info_array ?s)" using f(6) by simp
  have "recency (bits ?s) = [3, 0, 1, 2]"
    using f(2,3,7) recency_aged [of 3 "bits (example_set 4 [5, 6, 7, 8])"]
    by (simp add: bits_moveToMRU lru_inv_def CacheSetLRU_new_recency upt_rec)
  moreover have "first_index (\<lambda>i. \<not> isValid (m_cache_block_info_array ?s ! i)) (m_associativity ?s) = None"
    using f(3) f(8) by (simp add: first_index_None)
  ultimately show ?thesis
    by (simp add: getReplacementIndex_lru [OF wf inv up])
qed

text \<open>
  C5. Insertion with LRU replacement refines insertion into a map from tags to lines: on a
  well-formed set without duplicate tags, inserting a valid line whose tag is not present
  always succeeds; afterwards the contents are the old ones plus the new line, minus the
  line reported as evicted if there was an eviction; the reported line was in the set;
  there is no eviction while a way is empty; and the set invariants hold again.
\<close>

theorem insert_lru_refines_map:
  assumes "set_wf s" and "lru_inv s" and "tags_unique s" and "isValid b" and "\<not> holds s (m_tag b)"
    and "case fb of None \<Rightarrow> True | Some buf \<Rightarrow> m_blocksize s \<le> length buf"
  shows "\<exists>ev info' s'. set_insert getReplacementIndex info s b fb ei eb = Inr (ev, info', s') \<and>
    contents s' =
      (if eviction ev then (contents s)(m_tag (evict_block_info ev) := None) else contents s)(m_tag b \<mapsto> b) \<and>
    (eviction ev \<longrightarrow> contents s (m_tag (evict_block_info ev)) = Some (evict_block_info ev)) \<and>
    ((\<exists>i < m_associativity s. \<not> isValid (m_cache_block_info_array s ! i)) \<longrightarrow> \<not> eviction ev) \<and>
    set_wf s' \<and> lru_inv s' \<and> tags_unique s'"
proof -
  obtain ev info' s' where i: "set_insert getReplacementIndex info s b fb ei eb = Inr (ev, info', s')"
    using lru.insert_total [OF assms(1,2,6)] by blast
  note keeps = lru.insert_keeps [OF assms(1,2) i]
  show ?thesis
    using i lru.insert_contents [OF assms(1-5) i] lru.insert_evicts [OF assms(1-3) i]
      lru.insert_no_eviction [OF assms(1,2) i] keeps(1,2) keeps(4) [OF assms(3-5)]
    by (intro exI [of _ ev] exI [of _ info'] exI [of _ s']) auto
qed

theorem insert_lru_refines_map_witness:
  "\<exists>ev info' s'. set_insert getReplacementIndex (CacheSetInfoLRU_new 2 1) (example_set 2 [5, 7]) (example_line 9)
     None (example_line 0) None = Inr (ev, info', s') \<and> contents s' 9 = Some (example_line 9)"
proof -
  note f = example_set_facts [of "[5, 7]" 2, simplified]
  have "isValid (example_line 9)" "m_tag (example_line 9) = 9" by (simp_all add: example_line_def isValid_def)
  then show ?thesis
    using insert_lru_refines_map [OF f(1,2,4), of "example_line 9" None "CacheSetInfoLRU_new 2 1" "example_line 0" None]
      f(5) [of 9] by auto
qed

text \<open>
  C18. Way-restricted insertion: on a set of at least eight ways whose mask leaves way 0 on,
  \<open>CacheSet::insertFlex\<close> always succeeds, puts the new line into a way that is switched on,
  leaves the line of every switched-off way as it was, and updates the contents like an
  insertion into a map; the set invariants, with distinct ages on the enabled ways, hold again.
\<close>

theorem insertFlex_enabled_ways:
  assumes "set_wf s" and "flex_inv sub s" and "sub ! 0" and "8 \<le> m_associativity s" and "tags_unique s"
    and "isValid b" and "\<not> holds s (m_tag b)"
    and "case fb of None \<Rightarrow> True | Some buf \<Rightarrow> m_blocksize s \<le> length buf"
  shows "\<exists>ev info' s' k. insertFlex getReplacementIndexFlex info s b fb ei eb sub = Inr (ev, info', s') \<and>
    find_line s' (m_tag b) = Some k \<and> sub ! k \<and>
    (\<forall>i < m_associativity s. \<not> sub ! i \<longrightarrow> m_cache_block_info_array s' ! i = m_cache_block_info_array s ! i) \<and>
    contents s' =
      (if eviction ev then (contents s)(m_tag (evict_block_info ev) := None) else contents s)(m_tag b \<mapsto> b) \<and>
    set_wf s' \<and> flex_inv sub s' \<and> tags_unique s'"
proof -
  note e = insertFlex_eq [OF assms(4,3)] and inv = conjI [OF assms(2,3)]
  obtain ev info' s' where i: "set_insert (\<lambda>info. getReplacementIndexFlex info sub) info s b fb ei eb = Inr (ev, info', s')"
    using lru_flex.insert_total [OF assms(1) inv assms(8)] by blast
  obtain k r where g: "getReplacementIndexFlex info sub s = Inr (k, info', s\<lparr>m_repl := r\<rparr>)"
    and at: "insertAt (s\<lparr>m_repl := r\<rparr>) k b fb ei eb = Inr (ev, s')"
    using lru_flex.insert_split [OF assms(1) inv i] by blast
  have k: "sub ! k"
    using getReplacementIndexFlex_enabled(2) [OF g assms(3)] assms(4) by simp
  have "find_line s' (m_tag b) = Some k"
    using insertAt_find(1) [OF at, unfolded lru_flex.repl_frame, OF assms(1,5,6,7)] .
  moreover have "m_cache_block_info_array s' ! i = m_cache_block_info_array s ! i"
    if "\<not> sub ! i" for i
    using insertAt_SomeD(2) [OF at] that k by (cases "i = k") auto
  ultimately show ?thesis
    using i e k lru_flex.insert_contents [OF assms(1) inv assms(5-7) i] lru_flex.insert_keeps [OF assms(1) inv i] assms(5-7)
    by (intro exI [of _ ev] exI [of _ info'] exI [of _ s'] exI [of _ k]) auto
qed

definition example_mask :: "bool list" where
  "example_mask = [True, True, False, False, False, False, False, False]"

lemma example_flex_inv: "flex_inv example_mask (example_set 8 [1, 2, 3, 4, 5, 6, 7, 8])"
proof -
  have "lru_inv (example_set 8 [1, 2, 3, 4, 5, 6, 7, 8])"
    by (rule example_set_facts) simp_all
  then show ?thesis
    by (rule lru_inv_flex) (simp add: example_mask_def example_set_facts)
qed

theorem insertFlex_enabled_ways_witness:
  "\<exists>ev info' s'. insertFlex getReplacementIndexFlex (CacheSetInfoLRU_new 8 1) (example_set 8 [1, 2, 3, 4, 5, 6, 7, 8])
     (example_line 9) None (example_line 0) None example_mask = Inr (ev, info', s') \<and>
     m_cache_block_info_array s' ! 2 = example_line 3"
proof -
  note f = example_set_facts [of "[1, 2, 3, 4, 5, 6, 7, 8]" 8, simplified]
  have l: "isValid (example_line 9)" "m_tag (example_line 9) = 9" by (simp_all add: example_line_def isValid_def)
  have m: "example_mask ! 0" "\<not> example_mask ! 2" by (simp_all add: example_mask_def)
  have a: "m_cache_block_info_array (example_set 8 [1, 2, 3, 4, 5, 6, 7, 8]) ! 2 = example_line 3"
    by (simp add: example_set_def)
  have "\<not> holds (example_set 8 [1, 2, 3, 4, 5, 6, 7, 8]) (m_tag (example_line 9))"
    unfolding l by (rule f(5)) simp
  from insertFlex_enabled_ways [OF f(1) example_flex_inv m(1) _ f(4) l(1) this, of None "CacheSetInfoLRU_new 8 1" "example_line 0" None]
  show ?thesis using f(3) m(2) a by fastforce
qed

lemma All_less_2: "(\<forall>i < (2::nat). P i) \<longleftrightarrow> P 0 \<and> P 1"
  by (auto simp: less_2_cases_iff)

definition upgrading_set :: lru_set where
  "upgrading_set = moveToMRU 1 ((example_set 2 [5, 7])\<lparr>m_cache_block_info_array :=
     [(example_line 5)\<lparr>m_cstate := SHARED_UPGRADING\<rparr>, example_line 7]\<rparr>)"


subsection \<open>Prefix masks\<close>

text \<open>The masks the reconfiguration produces switch on a prefix of the ways.\<close>

definition prefix_mask :: "nat \<Rightarrow> nat \<Rightarrow> bool list" where
  "prefix_mask n m = replicate m True @ replicate (n - m) False"

lemma prefix_mask_nth: "m \<le> n \<Longrightarrow> i < n \<Longrightarrow> prefix_mask n m ! i \<longleftrightarrow> i < m"
  by (auto simp: prefix_mask_def nth_append)

lemma length_prefix_mask [simp]: "m \<le> n \<Longrightarrow> length (prefix_mask n m) = n"
  by (simp add: prefix_mask_def)

lemma first_index_prefix:
  assumes "m \<le> n"
  shows "first_index (\<lambda>i. prefix_mask n m ! i = False \<or> P i) n =
    (case first_index P m of Some i \<Rightarrow> Some i | None \<Rightarrow> if m < n then Some m else None)"
proof (cases "first_index P m")
  case None
  then have no: "\<forall>i < m. \<not> P i" by (simp add: first_index_None)
  have "first_index (\<lambda>i. prefix_mask n m ! i = False \<or> P i) n = (if m < n then Some m else None)"
  proof (cases "m < n")
    case True
    have "first_index (\<lambda>i. prefix_mask n m ! i = False \<or> P i) n = Some m"
      by (rule first_index_eqI) (use True assms no in \<open>auto simp: prefix_mask_nth\<close>)
    with True show ?thesis by simp
  next
    case False
    then show ?thesis
      using no assms by (auto simp: first_index_None prefix_mask_nth)
  qed
  with None show ?thesis by simp
next
  case (Some i)
  note f = first_index_SomeD [OF Some]
  have "first_index (\<lambda>i. prefix_mask n m ! i = False \<or> P i) n = Some i"
    using f assms by (intro first_index_eqI) (auto simp: prefix_mask_nth)
  with Some show ?thesis by simp
qed

lemma getReplacementIndexFlex_prefix:
  assumes "0 < m" and "m \<le> m_associativity s"
  shows "getReplacementIndexFlex info (prefix_mask (m_associativity s) m) s =
    (let sub = prefix_mask (m_associativity s) m;
         k = (case first_index (\<lambda>i. \<not> isValid (m_cache_block_info_array s ! i)) m of
                Some i \<Rightarrow> i | None \<Rightarrow> oldest (\<lambda>i. sub ! i) s)
     in Inr (k, info, moveToMRUFlex k sub s))"
proof (cases "first_index (\<lambda>i. \<not> isValid (m_cache_block_info_array s ! i)) m")
  case None
  then show ?thesis
    unfolding getReplacementIndexFlex_def first_index_prefix [OF assms(2)] Let_def oldest_def
    using assms by (simp add: prefix_mask_nth)
next
  case (Some i)
  then have "i < m" by (auto dest: first_index_SomeD)
  with Some assms show ?thesis
    unfolding getReplacementIndexFlex_def first_index_prefix [OF assms(2)] Let_def
    by (simp add: prefix_mask_nth)
qed

text \<open>
  C19. Victim among the enabled ways: when the first \<open>m\<close> ways are switched on and none of
  them is waiting for an upgrade, \<open>getReplacementIndexFlex\<close> returns the first invalid way
  below \<open>m\<close> if there is one, and otherwise the least recently used of the first \<open>m\<close> ways:
  its age is strictly greater than the age of every other enabled way.
\<close>

theorem getReplacementIndexFlex_lru:
  assumes "flex_inv (prefix_mask (m_associativity s) m) s" and "0 < m" and "m \<le> m_associativity s"
    and "\<forall>i < m. isValidReplacement s i"
  shows "\<exists>k < m. getReplacementIndexFlex info (prefix_mask (m_associativity s) m) s =
      Inr (k, info, moveToMRUFlex k (prefix_mask (m_associativity s) m) s) \<and>
    (case first_index (\<lambda>i. \<not> isValid (m_cache_block_info_array s ! i)) m of
       Some i \<Rightarrow> k = i
     | None \<Rightarrow> \<forall>i < m. i \<noteq> k \<longrightarrow> bits s ! i < bits s ! k)"
proof (cases "first_index (\<lambda>i. \<not> isValid (m_cache_block_info_array s ! i)) m")
  case None
  let ?sub = "prefix_mask (m_associativity s) m"
  let ?k = "oldest (\<lambda>i. ?sub ! i) s"
  have on: "?sub ! i" if "i < m" for i using that assms(3) by (simp add: prefix_mask_nth)
  have k: "?k < m"
    using oldest_cases [of "\<lambda>i. ?sub ! i" s] assms(2,3) by (auto simp: prefix_mask_nth)
  have "bits s ! i < bits s ! ?k" if "i < m" "i \<noteq> ?k" for i
  proof -
    have "bits s ! i \<le> bits s ! ?k"
      using oldest_max [of "\<lambda>i. ?sub ! i" s i] on assms that by simp
    moreover have "bits s ! i \<noteq> bits s ! ?k"
      using assms(1,3) on [OF that(1)] on [OF k] that k unfolding flex_inv_def by fastforce
    ultimately show ?thesis by simp
  qed
  with k None show ?thesis
    by (simp add: getReplacementIndexFlex_prefix [OF assms(2,3)] Let_def)
next
  case (Some i)
  then show ?thesis
    using first_index_SomeD(1) [OF Some] by (simp add: getReplacementIndexFlex_prefix [OF assms(2,3)] Let_def)
qed

theorem getReplacementIndexFlex_lru_witness:
  "\<exists>k < 2. getReplacementIndexFlex (CacheSetInfoLRU_new 8 1) (prefix_mask 8 2) (example_set 8 [1, 2, 3, 4, 5, 6, 7, 8]) =
     Inr (k, CacheSetInfoLRU_new 8 1, moveToMRUFlex k (prefix_mask 8 2) (example_set 8 [1, 2, 3, 4, 5, 6, 7, 8]))"
proof -
  let ?s = "example_set 8 [1, 2, 3, 4, 5, 6, 7, 8]"
  note f = example_set_facts [of "[1, 2, 3, 4, 5, 6, 7, 8]" 8, simplified]
  have inv: "flex_inv (prefix_mask (m_associativity ?s) 2) ?s"
    using example_flex_inv f(3) by (simp add: prefix_mask_def example_mask_def numeral_eq_Suc)
  have up: "\<forall>i < 2. isValidReplacement ?s i"
    by (simp add: All_less_2 isValidReplacement_def example_set_def example_line_def)
  show ?thesis
    using getReplacementIndexFlex_lru [OF inv _ _ up, of "CacheSetInfoLRU_new 8 1"] f(3) by auto
qed

subsection \<open>Statistics and transition victims\<close>

lemma updateReplacementIndex_total:
  assumes "ages_ok s" and "k < m_associativity s" and "length (m_access info) = m_associativity s"
  shows "updateReplacementIndex k info s =
    Inr (info\<lparr>m_access := (m_access info)[unat (bits s ! k) := m_access info ! unat (bits s ! k) + 1]\<rparr>, moveToMRU k s)"
  using assms by (simp add: updateReplacementIndex_def info_increment_def nth_res_def ages_ok_def)

lemma findTransReplacemnt_below:
  assumes "0 < min_way" and "min_way \<le> m_associativity s"
  obtains v where "findTransReplacemnt s min_way = Inr v" and "v < min_way"
proof -
  have "snd (fold (\<lambda>v (max_bits, index). if bits s ! v > max_bits then (bits s ! v, v) else (max_bits, index)) [0..<n] (0, 0)) < min_way"
    if "n \<le> min_way" for n
    using that
  proof (induction n)
    case (Suc n)
    then show ?case by (auto split: prod.split)
  qed (use assms in simp)
  then show ?thesis
    using that assms
    by (cases "first_index (\<lambda>v. m_cstate (m_cache_block_info_array s ! v) \<noteq> MODIFIED) min_way")
      (auto simp: findTransReplacemnt_def dest: first_index_SomeD)
qed

end
