(* ===== verification/CacheSetPolicies.thy ===== *)
theory CacheSetPolicies
  imports CacheSetLRU Utils
begin

section \<open>The other replacement classes\<close>

text \<open>
  \<^verbatim>\<open>cache/cache_set_{mru,nmru,nru,plru,random,round_robin,srrip}.{h,cc}\<close>. They share the
  base class with LRU; \<open>createCacheSet\<close> keeps them behind a comment. Each one is an
  interpretation of the policy interface of \<open>CacheSet\<close>, so what insertion guarantees holds
  for all of them. \<open>UInt8\<close> replacement pointers are 8-bit words. The recursive retries of
  the random and round-robin classes may not end; they are partial functions, and running
  out of stack is the error \<open>Undefined\<close> of the wrapped versions.
\<close>

subsection \<open>Most recently used\<close>

record mru_state =
  mru_lru_bits :: "u8 list"

definition CacheSetMRU_new :: "nat \<Rightarrow> nat \<Rightarrow> bool \<Rightarrow> bool \<Rightarrow> mru_state cache_set" where
  "CacheSetMRU_new associativity blocksize fault_injection ifLeader =
     CacheSet_new associativity blocksize fault_injection ifLeader
       \<lparr>mru_lru_bits = map of_nat [0..<associativity]\<rparr>"

definition updateReplacementIndexMRU ::
    "nat \<Rightarrow> 'i \<Rightarrow> mru_state cache_set \<Rightarrow> ('i \<times> mru_state cache_set) res" where
  "updateReplacementIndexMRU accessed_index info s =
     Inr (info, s\<lparr>m_repl := \<lparr>mru_lru_bits =
       (fold (age_step accessed_index) [0..<m_associativity s] (mru_lru_bits (m_repl s)))[accessed_index := 0]\<rparr>\<rparr>)"

definition mru_at :: "mru_state cache_set \<Rightarrow> nat \<Rightarrow> nat option" where
  "mru_at s target =
     first_index (\<lambda>i. unat (mru_lru_bits (m_repl s) ! i) = target \<and> isValidReplacement s i) (m_associativity s)"

definition mru_search :: "mru_state cache_set \<Rightarrow> nat option" where
  \<comment> \<open>the \<open>while (target < m_associativity)\<close> loop\<close>
  "mru_search s =
     (case first_index (\<lambda>target. mru_at s target \<noteq> None) (m_associativity s) of
        None \<Rightarrow> None
      | Some target \<Rightarrow> mru_at s target)"

definition getReplacementIndexMRU ::
    "'i \<Rightarrow> mru_state cache_set \<Rightarrow> (nat \<times> 'i \<times> mru_state cache_set) res" where
  "getReplacementIndexMRU info s =
     (case first_index (\<lambda>i. \<not> isValid (m_cache_block_info_array s ! i)) (m_associativity s) of
        Some i \<Rightarrow> rbind (updateReplacementIndexMRU i info s) (\<lambda>(info, s). Inr (i, info, s))
      | None \<Rightarrow>
         (case mru_search s of
            Some i \<Rightarrow> rbind (updateReplacementIndexMRU i info s) (\<lambda>(info, s). Inr (i, info, s))
          | None \<Rightarrow> Inl LogError))"

subsection \<open>Scanning from a replacement pointer\<close>

definition next_pointer :: "nat \<Rightarrow> u8 \<Rightarrow> u8" where
  \<comment> \<open>\<open>m_replacement_pointer = (m_replacement_pointer + 1) % m_associativity\<close>\<close>
  "next_pointer associativity p = of_nat ((unat p + 1) mod associativity)"

fun scan_ways :: "(nat \<Rightarrow> bool) \<Rightarrow> nat \<Rightarrow> nat \<Rightarrow> u8 \<Rightarrow> (nat \<times> u8) option" where
  \<comment> \<open>\<open>n\<close> more iterations from pointer \<open>p\<close>: the accepted way and the pointer after it\<close>
  "scan_ways accept associativity 0 p = None"
| "scan_ways accept associativity (Suc n) p =
     (if accept (unat p) then Some (unat p, next_pointer associativity p)
      else scan_ways accept associativity n (next_pointer associativity p))"

subsection \<open>Not most recently used\<close>

record nmru_state =
  nmru_lru_bits :: "u8 list"
  nmru_pointer :: u8

definition CacheSetNMRU_new :: "nat \<Rightarrow> nat \<Rightarrow> bool \<Rightarrow> bool \<Rightarrow> nmru_state cache_set" where
  "CacheSetNMRU_new associativity blocksize fault_injection ifLeader =
     CacheSet_new associativity blocksize fault_injection ifLeader
       \<lparr>nmru_lru_bits = map of_nat [0..<associativity], nmru_pointer = 0\<rparr>"

definition updateReplacementIndexNMRU ::
    "nat \<Rightarrow> 'i \<Rightarrow> nmru_state cache_set \<Rightarrow> ('i \<times> nmru_state cache_set) res" where
  "updateReplacementIndexNMRU accessed_index info s =
     Inr (info, s\<lparr>m_repl := (m_repl s)\<lparr>nmru_lru_bits :=
       (fold (age_step accessed_index) [0..<m_associativity s] (nmru_lru_bits (m_repl s)))[accessed_index := 0]\<rparr>\<rparr>)"

definition getReplacementIndexNMRU ::
    "'i \<Rightarrow> nmru_state cache_set \<Rightarrow> (nat \<times> 'i \<times> nmru_state cache_set) res" where
  "getReplacementIndexNMRU info s =
     (case first_index (\<lambda>i. \<not> isValid (m_cache_block_info_array s ! i)) (m_associativity s) of
        Some i \<Rightarrow> rbind (updateReplacementIndexNMRU i info s) (\<lambda>(info, s). Inr (i, info, s))
      | None \<Rightarrow>
         (case scan_ways (\<lambda>p. nmru_lru_bits (m_repl s) ! p \<noteq> 0 \<and> isValidReplacement s p)
                 (m_associativity s) (m_associativity s) (nmru_pointer (m_repl s)) of
            Some (index, p) \<Rightarrow>
              rbind (updateReplacementIndexNMRU index info (s\<lparr>m_repl := (m_repl s)\<lparr>nmru_pointer := p\<rparr>\<rparr>))
                (\<lambda>(info, s). Inr (index, info, s))
          | None \<Rightarrow> Inl LogError))"

subsection \<open>Not recently used\<close>

record nru_state =
  nru_lru_bits :: "u8 list"
  m_num_bits_set :: u8
  nru_pointer :: u8

definition CacheSetNRU_new :: "nat \<Rightarrow> nat \<Rightarrow> bool \<Rightarrow> bool \<Rightarrow> nru_state cache_set" where
  "CacheSetNRU_new associativity blocksize fault_injection ifLeader =
     CacheSet_new associativity blocksize fault_injection ifLeader
       \<lparr>nru_lru_bits = replicate associativity 0, m_num_bits_set = 0, nru_pointer = 0\<rparr>"

definition updateReplacementIndexNRU ::
    "nat \<Rightarrow> 'i \<Rightarrow> nru_state cache_set \<Rightarrow> ('i \<times> nru_state cache_set) res" where
  "updateReplacementIndexNRU accessed_index info s =
     (let r = m_repl s;
          b = (nru_lru_bits r)[accessed_index := 1];
          n = m_num_bits_set r + 1
      in if unat n = m_associativity s
         then Inr (info, s\<lparr>m_repl := r\<lparr>m_num_bits_set := 0,
                nru_lru_bits := fold (\<lambda>i b. b[i := 0]) [0..<m_associativity s] b\<rparr>\<rparr>)
         else Inr (info, s\<lparr>m_repl := r\<lparr>m_num_bits_set := n, nru_lru_bits := b\<rparr>\<rparr>))"

definition getReplacementIndexNRU ::
    "'i \<Rightarrow> nru_state cache_set \<Rightarrow> (nat \<times> 'i \<times> nru_state cache_set) res" where
  "getReplacementIndexNRU info s =
     (case first_index (\<lambda>i. \<not> isValid (m_cache_block_info_array s ! i)) (m_associativity s) of
        Some i \<Rightarrow> rbind (updateReplacementIndexNRU i info s) (\<lambda>(info, s). Inr (i, info, s))
      | None \<Rightarrow>
         let have_zero_bit =
               (first_index (\<lambda>i. nru_lru_bits (m_repl s) ! i = 0 \<and> isValidReplacement s i) (m_associativity s) \<noteq> None)
         in (case scan_ways (\<lambda>p. (nru_lru_bits (m_repl s) ! p = 0 \<or> have_zero_bit = False) \<and> isValidReplacement s p)
                    (m_associativity s) (m_associativity s) (nru_pointer (m_repl s)) of
               Some (index, p) \<Rightarrow>
                 rbind (updateReplacementIndexNRU index info (s\<lparr>m_repl := (m_repl s)\<lparr>nru_pointer := p\<rparr>\<rparr>))
                   (\<lambda>(info, s). Inr (index, info, s))
             | None \<Rightarrow> Inl LogError))"

subsection \<open>Tree pseudo-LRU\<close>

record plru_state =
  plru_b :: "u8 list"

definition CacheSetPLRU_new :: "nat \<Rightarrow> nat \<Rightarrow> bool \<Rightarrow> bool \<Rightarrow> plru_state cache_set res" where
  "CacheSetPLRU_new associativity blocksize fault_injection ifLeader =
     rbind (ensure AssertFailed (associativity = 4 \<or> associativity = 8)) (\<lambda>_.
     Inr (CacheSet_new associativity blocksize fault_injection ifLeader \<lparr>plru_b = replicate 8 0\<rparr>))"

definition plru_victim :: "nat \<Rightarrow> u8 list \<Rightarrow> nat res" where
  "plru_victim associativity b =
     (if associativity = 4 then
        Inr (if b ! 0 = 0 then (if b ! 1 = 0 then 0 else 1) else (if b ! 2 = 0 then 2 else 3))
      else if associativity = 8 then
        Inr (if b ! 0 = 0
             then (if b ! 1 = 0 then (if b ! 2 = 0 then 0 else 1) else (if b ! 3 = 0 then 2 else 3))
             else (if b ! 4 = 0 then (if b ! 5 = 0 then 4 else 5) else (if b ! 6 = 0 then 6 else 7)))
      else Inl LogError)"

definition plru_touch :: "nat \<Rightarrow> nat \<Rightarrow> u8 list \<Rightarrow> u8 list res" where
  "plru_touch associativity accessed_index b =
     (if associativity = 4 then
        Inr (if accessed_index = 0 then b[0 := 1, 1 := 1]
             else if accessed_index = 1 then b[0 := 1, 1 := 0]
             else if accessed_index = 2 then b[0 := 0, 2 := 1]
             else if accessed_index = 3 then b[0 := 0, 2 := 0]
             else b)
      else if associativity = 8 then
        Inr (if accessed_index = 0 then b[0 := 1, 1 := 1, 2 := 1]
             else if accessed_index = 1 then b[0 := 1, 1 := 1, 2 := 0]
             else if accessed_index = 2 then b[0 := 1, 1 := 0, 3 := 1]
             else if accessed_index = 3 then b[0 := 1, 1 := 0, 3 := 0]
             else if accessed_index = 4 then b[0 := 0, 4 := 1, 5 := 1]
             else if accessed_index = 5 then b[0 := 0, 4 := 1, 5 := 0]
             else if accessed_index = 6 then b[0 := 0, 4 := 0, 6 := 1]
             else if accessed_index = 7 then b[0 := 0, 4 := 0, 6 := 0]
             else b)
      else Inl LogError)"

definition updateReplacementIndexPLRU ::
    "nat \<Rightarrow> 'i \<Rightarrow> plru_state cache_set \<Rightarrow> ('i \<times> plru_state cache_set) res" where
  "updateReplacementIndexPLRU accessed_index info s =
     rbind (plru_touch (m_associativity s) accessed_index (plru_b (m_repl s))) (\<lambda>b.
     Inr (info, s\<lparr>m_repl := \<lparr>plru_b = b\<rparr>\<rparr>))"

definition getReplacementIndexPLRU ::
    "'i \<Rightarrow> plru_state cache_set \<Rightarrow> (nat \<times> 'i \<times> plru_state cache_set) res" where
  "getReplacementIndexPLRU info s =
     (case first_index (\<lambda>i. \<not> isValid (m_cache_block_info_array s ! i)) (m_associativity s) of
        Some i \<Rightarrow> rbind (updateReplacementIndexPLRU i info s) (\<lambda>(info, s). Inr (i, info, s))
      | None \<Rightarrow>
         rbind (plru_victim (m_associativity s) (plru_b (m_repl s))) (\<lambda>retValue.
         rbind (ensure AssertFailed (isValidReplacement s retValue)) (\<lambda>_.
         rbind (updateReplacementIndexPLRU retValue info s) (\<lambda>(info, s).
         Inr (retValue, info, s)))))"

subsection \<open>Random\<close>

record random_state =
  m_rand :: u32

definition CacheSetRandom_new :: "u32 \<Rightarrow> nat \<Rightarrow> nat \<Rightarrow> bool \<Rightarrow> bool \<Rightarrow> random_state cache_set" where
  \<comment> \<open>\<open>time\<close> is the value of \<open>time(NULL)\<close> at construction\<close>
  "CacheSetRandom_new time associativity blocksize fault_injection ifLeader =
     CacheSet_new associativity blocksize fault_injection ifLeader \<lparr>m_rand = time\<rparr>"

partial_function (option) random_retry :: "random_state cache_set \<Rightarrow> (nat \<times> random_state cache_set) option" where
  "random_retry s =
     (case first_index (\<lambda>i. \<not> isValid (m_cache_block_info_array s ! i)) (m_associativity s) of
        Some i \<Rightarrow> Some (i, s)
      | None \<Rightarrow>
         (case Random_next (m_rand (m_repl s)) 32768 of (v, seed) \<Rightarrow>
            let index = unat (projr v) mod m_associativity s;
                s' = s\<lparr>m_repl := \<lparr>m_rand = seed\<rparr>\<rparr>
            in if isValidReplacement s' index then Some (index, s') else random_retry s'))"

definition getReplacementIndexRandom ::
    "'i \<Rightarrow> random_state cache_set \<Rightarrow> (nat \<times> 'i \<times> random_state cache_set) res" where
  "getReplacementIndexRandom info s =
     (case random_retry s of Some (index, s) \<Rightarrow> Inr (index, info, s) | None \<Rightarrow> Inl Undefined)"

definition updateReplacementIndexRandom ::
    "nat \<Rightarrow> 'i \<Rightarrow> random_state cache_set \<Rightarrow> ('i \<times> random_state cache_set) res" where
  "updateReplacementIndexRandom accessed_index info s = Inr (info, s)"

subsection \<open>Round robin\<close>

record rr_state =
  m_replacement_index :: nat

definition CacheSetRoundRobin_new :: "nat \<Rightarrow> nat \<Rightarrow> bool \<Rightarrow> bool \<Rightarrow> rr_state cache_set" where
  "CacheSetRoundRobin_new associativity blocksize fault_injection ifLeader =
     CacheSet_new associativity blocksize fault_injection ifLeader \<lparr>m_replacement_index = associativity - 1\<rparr>"

definition rr_next :: "rr_state cache_set \<Rightarrow> rr_state cache_set" where
  "rr_next s = s\<lparr>m_repl := \<lparr>m_replacement_index =
     (if m_replacement_index (m_repl s) = 0 then m_associativity s - 1 else m_replacement_index (m_repl s) - 1)\<rparr>\<rparr>"

partial_function (option) rr_retry :: "rr_state cache_set \<Rightarrow> (nat \<times> rr_state cache_set) option" where
  "rr_retry s =
     (let curr_replacement_index = m_replacement_index (m_repl s);
          s' = rr_next s
      in if \<not> isValidReplacement s' (m_replacement_index (m_repl s')) then rr_retry s'
         else Some (curr_replacement_index, s'))"

definition getReplacementIndexRoundRobin ::
    "'i \<Rightarrow> rr_state cache_set \<Rightarrow> (nat \<times> 'i \<times> rr_state cache_set) res" where
  "getReplacementIndexRoundRobin info s =
     (case rr_retry s of Some (index, s) \<Rightarrow> Inr (index, info, s) | None \<Rightarrow> Inl Undefined)"

definition updateReplacementIndexRoundRobin ::
    "nat \<Rightarrow> 'i \<Rightarrow> rr_state cache_set \<Rightarrow> ('i \<times> rr_state cache_set) res" where
  "updateReplacementIndexRoundRobin accessed_index info s = Inr (info, s)"

subsection \<open>Static re-reference interval prediction\<close>

record srrip_state =
  m_rrip_max :: u8
  m_rrip_insert :: u8
  srrip_num_attempts :: u8
  m_rrip_bits :: "u8 list"
  srrip_pointer :: u8

definition CacheSetSRRIP_new ::
    "u8 \<Rightarrow> nat \<Rightarrow> nat \<Rightarrow> u8 \<Rightarrow> bool \<Rightarrow> bool \<Rightarrow> srrip_state cache_set res" where
  \<comment> \<open>\<open>m_rrip_numbits\<close> is the configuration value \<open>srrip/bits\<close>\<close>
  "CacheSetSRRIP_new m_rrip_numbits associativity blocksize num_attempts fault_injection ifLeader =
     rbind (ensure Undefined (unat m_rrip_numbits < 31)) (\<lambda>_.
     let mx = of_nat (2 ^ unat m_rrip_numbits - 1)
     in Inr (CacheSet_new associativity blocksize fault_injection ifLeader
          \<lparr>m_rrip_max = mx, m_rrip_insert = mx - 1, srrip_num_attempts = num_attempts,
           m_rrip_bits = replicate associativity (mx - 1), srrip_pointer = 0\<rparr>))"

text \<open>
  The shared object is the statistics of \<open>CacheSetInfoLRU\<close> together with the number of calls
  of \<open>cntlr->incrementQBSLookupCost\<close>; \<open>cntlr\<close> is \<open>None\<close> for the null pointer and otherwise the
  answer of \<open>isInLowerLevelCache\<close>. A pass over the ways either finds a victim (\<open>Inl\<close>) or
  leaves the loop state for the next pass (\<open>Inr\<close>).
\<close>

type_synonym qbs_info = "CacheSetInfoLRU \<times> nat"

fun srrip_scan ::
    "(cache_block_info \<Rightarrow> bool) option \<Rightarrow> nat \<Rightarrow> u8 \<Rightarrow> qbs_info \<Rightarrow> srrip_state cache_set \<Rightarrow>
     ((nat \<times> qbs_info \<times> srrip_state cache_set) + (u8 \<times> qbs_info \<times> srrip_state cache_set)) res" where
  "srrip_scan cntlr 0 attempt info s = Inr (Inr (attempt, info, s))"
| "srrip_scan cntlr (Suc n) attempt info s =
     (let r = m_repl s;
          index = unat (srrip_pointer r);
          r' = r\<lparr>srrip_pointer := next_pointer (m_associativity s) (srrip_pointer r)\<rparr>
      in if m_rrip_max r \<le> m_rrip_bits r ! index
         then rbind (if int (unat attempt) < int (unat (srrip_num_attempts r)) - 1
                     then (case cntlr of None \<Rightarrow> Inl AssertFailed
                           | Some isInLowerLevelCache \<Rightarrow> Inr (isInLowerLevelCache (m_cache_block_info_array s ! index)))
                     else Inr False) (\<lambda>qbs_reject.
              if qbs_reject
              then srrip_scan cntlr n (attempt + 1) (fst info, snd info + 1)
                     (s\<lparr>m_repl := r\<lparr>m_rrip_bits := (m_rrip_bits r)[index := 0]\<rparr>\<rparr>)
              else
                let s' = s\<lparr>m_repl := r'\<lparr>m_rrip_bits := (m_rrip_bits r)[index := m_rrip_insert r]\<rparr>\<rparr> in
                rbind (info_incrementAttempt (fst info) (unat attempt)) (\<lambda>i.
                rbind (ensure AssertFailed (isValidReplacement s' index)) (\<lambda>_.
                Inr (Inl (index, (i, snd info), s')))))
         else srrip_scan cntlr n attempt info (s\<lparr>m_repl := r'\<rparr>))"

definition srrip_age :: "srrip_state cache_set \<Rightarrow> srrip_state cache_set" where
  "srrip_age s =
     s\<lparr>m_repl := (m_repl s)\<lparr>m_rrip_bits :=
       fold (\<lambda>i b. if b ! i < m_rrip_max (m_repl s) then b[i := b ! i + 1] else b)
         [0..<m_associativity s] (m_rrip_bits (m_repl s))\<rparr>\<rparr>"

fun srrip_rounds ::
    "(cache_block_info \<Rightarrow> bool) option \<Rightarrow> nat \<Rightarrow> u8 \<Rightarrow> qbs_info \<Rightarrow> srrip_state cache_set \<Rightarrow>
     (nat \<times> qbs_info \<times> srrip_state cache_set) res" where
  "srrip_rounds cntlr 0 attempt info s = Inl LogError"
| "srrip_rounds cntlr (Suc j) attempt info s =
     rbind (srrip_scan cntlr (m_associativity s) attempt info s) (\<lambda>found.
     case found of
       Inl victim \<Rightarrow> Inr victim
     | Inr (attempt, info, s) \<Rightarrow> srrip_rounds cntlr j attempt info (srrip_age s))"

definition getReplacementIndexSRRIP ::
    "(cache_block_info \<Rightarrow> bool) option \<Rightarrow> qbs_info \<Rightarrow> srrip_state cache_set \<Rightarrow>
     (nat \<times> qbs_info \<times> srrip_state cache_set) res" where
  "getReplacementIndexSRRIP cntlr info s =
     (case first_index (\<lambda>i. \<not> isValid (m_cache_block_info_array s ! i)) (m_associativity s) of
        Some i \<Rightarrow>
          Inr (i, info, s\<lparr>m_repl := (m_repl s)\<lparr>m_rrip_bits :=
            (m_rrip_bits (m_repl s))[i := m_rrip_insert (m_repl s)]\<rparr>\<rparr>)
      | None \<Rightarrow> srrip_rounds cntlr (Suc (unat (m_rrip_max (m_repl s)))) 0 info s)"

definition updateReplacementIndexSRRIP ::
    "nat \<Rightarrow> qbs_info \<Rightarrow> srrip_state cache_set \<Rightarrow> (qbs_info \<times> srrip_state cache_set) res" where
  "updateReplacementIndexSRRIP accessed_index info s =
     rbind (nth_res (m_rrip_bits (m_repl s)) accessed_index) (\<lambda>b.
     rbind (info_increment (fst info) (unat b)) (\<lambda>i.
     Inr ((i, snd info),
          if 0 < b then s\<lparr>m_repl := (m_repl s)\<lparr>m_rrip_bits := (m_rrip_bits (m_repl s))[accessed_index := b - 1]\<rparr>\<rparr>
          else s)))"

subsection \<open>Shared lemmas\<close>

lemma fold_age_aged:
  assumes "acc < length b"
  shows "(fold (age_step acc) [0..<length b] b)[acc := 0] = aged (\<lambda>_. True) acc b"
  using assms fold_age_step [of acc b "length b" "\<lambda>_. True"]
  unfolding aged_def by (intro nth_equalityI) (auto simp: nth_list_update)

lemma next_pointer_unat:
  assumes "0 < a" and "a \<le> 256"
  shows "unat (next_pointer a p) = (unat p + 1) mod a"
proof -
  have "(unat p + 1) mod a < 256" using assms mod_less_divisor [of a "unat p + 1"] by linarith
  then show ?thesis by (simp add: next_pointer_def unat_of_nat)
qed

lemma next_pointer_less: "0 < a \<Longrightarrow> a \<le> 256 \<Longrightarrow> unat (next_pointer a p) < a"
  by (simp add: next_pointer_unat)

lemma scan_ways_SomeD:
  assumes "scan_ways P a n p = Some (k, q)" and "unat p < a" and "a \<le> 256"
  shows "P k" and "k < a" and "unat q < a"
proof -
  have "P k \<and> k < a \<and> unat q < a"
    using assms
  proof (induction n arbitrary: p)
    case (Suc n)
    have "unat (next_pointer a p) < a" using Suc.prems by (intro next_pointer_less) auto
    with Suc show ?case by (auto split: if_splits)
  qed simp
  then show "P k" and "k < a" and "unat q < a" by auto
qed

lemma scan_ways_None:
  assumes "scan_ways P a n p = None" and "unat p < a" and "a \<le> 256" and "j < n"
  shows "\<not> P ((unat p + j) mod a)"
  using assms
proof (induction n arbitrary: p j)
  case (Suc n)
  let ?p' = "next_pointer a p"
  have p': "unat ?p' = (unat p + 1) mod a" using Suc.prems by (intro next_pointer_unat) auto
  show ?case
  proof (cases j)
    case 0
    with Suc.prems show ?thesis by (auto split: if_splits)
  next
    case (Suc j')
    have "\<not> P ((unat ?p' + j') mod a)"
      using Suc.prems Suc by (intro Suc.IH) (auto simp: next_pointer_less split: if_splits)
    then show ?thesis by (simp add: p' Suc mod_simps)
  qed
qed simp

lemma scan_ways_total:
  assumes "unat p < a" and "a \<le> 256" and "i < a" and "P i"
  shows "\<exists>k q. scan_ways P a a p = Some (k, q)"
proof (rule ccontr)
  assume "\<not> ?thesis"
  then have none: "scan_ways P a a p = None" by (cases "scan_ways P a a p") auto
  let ?j = "(i + a - unat p) mod a"
  have "(unat p + ?j) mod a = i"
    using assms(1,3) by (simp add: mod_add_right_eq)
  moreover have "?j < a" using assms(1) by simp
  ultimately show False
    using scan_ways_None [OF none assms(1,2), of ?j] assms(4) by simp
qed

subsection \<open>Every class implements the interface\<close>

definition mru_inv :: "mru_state cache_set \<Rightarrow> bool" where
  "mru_inv s \<longleftrightarrow> length (mru_lru_bits (m_repl s)) = m_associativity s \<and> ages_perm (mru_lru_bits (m_repl s))"

lemma updateReplacementIndexMRU_inv:
  assumes "mru_inv s" and "i < m_associativity s"
  shows "updateReplacementIndexMRU i info s =
      Inr (info, s\<lparr>m_repl := \<lparr>mru_lru_bits = aged (\<lambda>_. True) i (mru_lru_bits (m_repl s))\<rparr>\<rparr>)"
    and "mru_inv (s\<lparr>m_repl := \<lparr>mru_lru_bits = aged (\<lambda>_. True) i (mru_lru_bits (m_repl s))\<rparr>\<rparr>)"
  using assms fold_age_aged [of i "mru_lru_bits (m_repl s)"]
  by (simp_all add: updateReplacementIndexMRU_def mru_inv_def aged_perm)

lemma mru_search_SomeD:
  assumes "mru_search s = Some i"
  shows "i < m_associativity s" and "isValidReplacement s i"
  using assms by (auto simp: mru_search_def mru_at_def dest: first_index_SomeD split: option.splits)

lemma getReplacementIndexMRU_cases:
  assumes "mru_inv s" and "getReplacementIndexMRU info s = Inr (k, info', s')"
  shows "k < m_associativity s"
    and "s' = s\<lparr>m_repl := \<lparr>mru_lru_bits = aged (\<lambda>_. True) k (mru_lru_bits (m_repl s))\<rparr>\<rparr>"
    and "(case first_index (\<lambda>i. \<not> isValid (m_cache_block_info_array s ! i)) (m_associativity s) of
            Some i \<Rightarrow> k = i | None \<Rightarrow> mru_search s = Some k)"
proof -
  let ?f = "first_index (\<lambda>i. \<not> isValid (m_cache_block_info_array s ! i)) (m_associativity s)"
  have "\<exists>i < m_associativity s. updateReplacementIndexMRU i info s = Inr (info', s') \<and> k = i \<and>
      (case ?f of Some i \<Rightarrow> k = i | None \<Rightarrow> mru_search s = Some k)"
  proof (cases ?f)
    case None
    with assms(2) show ?thesis
      by (cases "mru_search s") (auto simp: getReplacementIndexMRU_def dest: mru_search_SomeD)
  next
    case (Some i)
    with assms(2) first_index_SomeD(1) [OF Some] show ?thesis
      by (auto simp: getReplacementIndexMRU_def)
  qed
  then have k: "k < m_associativity s" "updateReplacementIndexMRU k info s = Inr (info', s')"
    "(case ?f of Some i \<Rightarrow> k = i | None \<Rightarrow> mru_search s = Some k)"
    by auto
  show "k < m_associativity s" "(case ?f of Some i \<Rightarrow> k = i | None \<Rightarrow> mru_search s = Some k)" by (fact k)+
  show "s' = s\<lparr>m_repl := \<lparr>mru_lru_bits = aged (\<lambda>_. True) k (mru_lru_bits (m_repl s))\<rparr>\<rparr>"
    using k(2) updateReplacementIndexMRU_inv(1) [OF assms(1) k(1), of info] by simp
qed

lemma first_invalid_first:
  "\<exists>i<m_associativity s. \<not> isValid (m_cache_block_info_array s ! i) \<Longrightarrow>
   \<exists>i. first_index (\<lambda>i. \<not> isValid (m_cache_block_info_array s ! i)) (m_associativity s) = Some i \<and>
     \<not> isValid (m_cache_block_info_array s ! i)"
  using first_index_None [of "\<lambda>i. \<not> isValid (m_cache_block_info_array s ! i)" "m_associativity s"]
    first_index_SomeD(2) [of "\<lambda>i. \<not> isValid (m_cache_block_info_array s ! i)" "m_associativity s"]
  by (metis not_Some_eq)

interpretation mru: invalid_first_policy getReplacementIndexMRU mru_inv
proof
  fix s info k info' s'
  assume a: "set_wf s" "mru_inv s" "getReplacementIndexMRU info s = Inr (k, info', s')"
  note r = getReplacementIndexMRU_cases [OF a(2,3)]
  show "k < m_associativity s" by (fact r)
  show "\<exists>r. s' = s\<lparr>m_repl := r\<rparr>" using r(2) by blast
  show "mru_inv s'" unfolding r(2) by (rule updateReplacementIndexMRU_inv(2) [OF a(2) r(1)])
  show "\<not> isValid (m_cache_block_info_array s ! k)"
    if "\<exists>i<m_associativity s. \<not> isValid (m_cache_block_info_array s ! i)"
    using r(3) first_invalid_first [OF that] by auto
qed (simp add: mru_inv_def)

definition nmru_inv :: "nmru_state cache_set \<Rightarrow> bool" where
  "nmru_inv s \<longleftrightarrow> length (nmru_lru_bits (m_repl s)) = m_associativity s \<and> ages_perm (nmru_lru_bits (m_repl s)) \<and>
     unat (nmru_pointer (m_repl s)) < m_associativity s \<and> 2 \<le> m_associativity s \<and> m_associativity s \<le> 256"

lemma updateReplacementIndexNMRU_inv:
  assumes "nmru_inv s" and "i < m_associativity s" and "updateReplacementIndexNMRU i info s = Inr (info', s')"
  shows "nmru_inv s'" and "\<exists>r. s' = s\<lparr>m_repl := r\<rparr>"
  using assms fold_age_aged [of i "nmru_lru_bits (m_repl s)"] aged_perm [of i "nmru_lru_bits (m_repl s)"]
  by (auto simp: updateReplacementIndexNMRU_def nmru_inv_def)

lemma getReplacementIndexNMRU_cases:
  assumes "nmru_inv s" and "getReplacementIndexNMRU info s = Inr (k, info', s')"
  shows "k < m_associativity s \<and> nmru_inv s' \<and> (\<exists>r. s' = s\<lparr>m_repl := r\<rparr>) \<and>
    (case first_index (\<lambda>i. \<not> isValid (m_cache_block_info_array s ! i)) (m_associativity s) of
       Some i \<Rightarrow> k = i
     | None \<Rightarrow> nmru_lru_bits (m_repl s) ! k \<noteq> 0 \<and> isValidReplacement s k)"
proof (cases "first_index (\<lambda>i. \<not> isValid (m_cache_block_info_array s ! i)) (m_associativity s)")
  case None
  have b: "unat (nmru_pointer (m_repl s)) < m_associativity s" "m_associativity s \<le> 256"
    using assms(1) by (simp_all add: nmru_inv_def)
  obtain p where sc: "scan_ways (\<lambda>p. nmru_lru_bits (m_repl s) ! p \<noteq> 0 \<and> isValidReplacement s p)
      (m_associativity s) (m_associativity s) (nmru_pointer (m_repl s)) = Some (k, p)"
    and u: "updateReplacementIndexNMRU k info (s\<lparr>m_repl := (m_repl s)\<lparr>nmru_pointer := p\<rparr>\<rparr>) = Inr (info', s')"
    using assms(2) None by (auto simp: getReplacementIndexNMRU_def split: option.splits)
  note k = scan_ways_SomeD [OF sc b]
  have "nmru_inv (s\<lparr>m_repl := (m_repl s)\<lparr>nmru_pointer := p\<rparr>\<rparr>)"
    using assms(1) k(3) by (simp add: nmru_inv_def)
  from updateReplacementIndexNMRU_inv [OF this _ u] k None show ?thesis by auto
next
  case (Some i)
  then have i: "i < m_associativity s" "updateReplacementIndexNMRU i info s = Inr (info', s')" "k = i"
    using assms(2) first_index_SomeD(1) [OF Some] by (auto simp: getReplacementIndexNMRU_def)
  from updateReplacementIndexNMRU_inv [OF assms(1) i(1,2)] i Some show ?thesis by simp
qed

interpretation nmru: invalid_first_policy getReplacementIndexNMRU nmru_inv
proof
  fix s info k info' s'
  assume a: "set_wf s" "nmru_inv s" "getReplacementIndexNMRU info s = Inr (k, info', s')"
  note r = getReplacementIndexNMRU_cases [OF a(2,3)]
  show "k < m_associativity s" "\<exists>r. s' = s\<lparr>m_repl := r\<rparr>" "nmru_inv s'" using r by blast+
  show "\<not> isValid (m_cache_block_info_array s ! k)"
    if "\<exists>i<m_associativity s. \<not> isValid (m_cache_block_info_array s ! i)"
    using r first_invalid_first [OF that] by auto
qed (simp add: nmru_inv_def)

definition nru_inv :: "nru_state cache_set \<Rightarrow> bool" where
  "nru_inv s \<longleftrightarrow> length (nru_lru_bits (m_repl s)) = m_associativity s \<and>
     unat (nru_pointer (m_repl s)) < m_associativity s \<and> m_associativity s \<le> 256"

lemma fold_reset_length: "length (fold (\<lambda>i b. b[i := x]) js b) = length b"
  by (induction js arbitrary: b) simp_all

lemma updateReplacementIndexNRU_inv:
  assumes "nru_inv s" and "updateReplacementIndexNRU i info s = Inr (info', s')"
  shows "nru_inv s'" and "\<exists>r. s' = s\<lparr>m_repl := r\<rparr>"
  using assms
  by (auto simp: updateReplacementIndexNRU_def nru_inv_def Let_def fold_reset_length split: if_splits)

lemma getReplacementIndexNRU_cases:
  assumes "nru_inv s" and "getReplacementIndexNRU info s = Inr (k, info', s')"
  shows "k < m_associativity s \<and> nru_inv s' \<and> (\<exists>r. s' = s\<lparr>m_repl := r\<rparr>) \<and>
    (case first_index (\<lambda>i. \<not> isValid (m_cache_block_info_array s ! i)) (m_associativity s) of
       Some i \<Rightarrow> k = i
     | None \<Rightarrow> isValidReplacement s k \<and>
         (nru_lru_bits (m_repl s) ! k = 0 \<or>
          (\<forall>i < m_associativity s. isValidReplacement s i \<longrightarrow> nru_lru_bits (m_repl s) ! i \<noteq> 0)))"
proof (cases "first_index (\<lambda>i. \<not> isValid (m_cache_block_info_array s ! i)) (m_associativity s)")
  case None
  let ?z = "first_index (\<lambda>i. nru_lru_bits (m_repl s) ! i = 0 \<and> isValidReplacement s i) (m_associativity s) \<noteq> None"
  have b: "unat (nru_pointer (m_repl s)) < m_associativity s" "m_associativity s \<le> 256"
    using assms(1) by (simp_all add: nru_inv_def)
  obtain p where sc: "scan_ways (\<lambda>p. (nru_lru_bits (m_repl s) ! p = 0 \<or> ?z = False) \<and> isValidReplacement s p)
      (m_associativity s) (m_associativity s) (nru_pointer (m_repl s)) = Some (k, p)"
    and u: "updateReplacementIndexNRU k info (s\<lparr>m_repl := (m_repl s)\<lparr>nru_pointer := p\<rparr>\<rparr>) = Inr (info', s')"
    using assms(2) None by (auto simp: getReplacementIndexNRU_def Let_def split: option.splits)
  note k = scan_ways_SomeD [OF sc b]
  have "nru_inv (s\<lparr>m_repl := (m_repl s)\<lparr>nru_pointer := p\<rparr>\<rparr>)"
    using assms(1) k(3) by (simp add: nru_inv_def)
  moreover have "isValidReplacement s k \<and>
      (nru_lru_bits (m_repl s) ! k = 0 \<or>
       (\<forall>i < m_associativity s. isValidReplacement s i \<longrightarrow> nru_lru_bits (m_repl s) ! i \<noteq> 0))"
    using k(1) by (auto simp: first_index_None)
  ultimately show ?thesis
    using updateReplacementIndexNRU_inv [OF _ u] k(2) None by auto
next
  case (Some i)
  then have i: "i < m_associativity s" "updateReplacementIndexNRU i info s = Inr (info', s')" "k = i"
    using assms(2) first_index_SomeD(1) [OF Some] by (auto simp: getReplacementIndexNRU_def)
  from updateReplacementIndexNRU_inv [OF assms(1) i(2)] i Some show ?thesis by simp
qed

interpretation nru: invalid_first_policy getReplacementIndexNRU nru_inv
proof
  fix s info k info' s'
  assume a: "set_wf s" "nru_inv s" "getReplacementIndexNRU info s = Inr (k, info', s')"
  note r = getReplacementIndexNRU_cases [OF a(2,3)]
  show "k < m_associativity s" "\<exists>r. s' = s\<lparr>m_repl := r\<rparr>" "nru_inv s'" using r by blast+
  show "\<not> isValid (m_cache_block_info_array s ! k)"
    if "\<exists>i<m_associativity s. \<not> isValid (m_cache_block_info_array s ! i)"
    using r first_invalid_first [OF that] by auto
qed (simp add: nru_inv_def)

definition plru_inv :: "plru_state cache_set \<Rightarrow> bool" where
  "plru_inv s \<longleftrightarrow> length (plru_b (m_repl s)) = 8 \<and> (m_associativity s = 4 \<or> m_associativity s = 8)"

lemma plru_victim_range: "plru_victim a b = Inr k \<Longrightarrow> k < a"
  by (auto simp: plru_victim_def split: if_splits)

lemma plru_touch_length: "plru_touch a k b = Inr b' \<Longrightarrow> length b' = length b"
  by (auto simp: plru_touch_def split: if_splits)

lemma updateReplacementIndexPLRU_inv:
  assumes "plru_inv s" and "updateReplacementIndexPLRU i info s = Inr (info', s')"
  shows "plru_inv s'" and "\<exists>r. s' = s\<lparr>m_repl := r\<rparr>"
  using assms plru_touch_length by (auto simp: updateReplacementIndexPLRU_def plru_inv_def)

interpretation plru: invalid_first_policy getReplacementIndexPLRU plru_inv
proof
  fix s info k info' s'
  assume a: "set_wf s" "plru_inv s" "getReplacementIndexPLRU info s = Inr (k, info', s')"
  let ?f = "first_index (\<lambda>i. \<not> isValid (m_cache_block_info_array s ! i)) (m_associativity s)"
  have u: "updateReplacementIndexPLRU k info s = Inr (info', s')"
    using a(3) by (auto simp: getReplacementIndexPLRU_def split: option.splits)
  show "k < m_associativity s"
    using a(3) plru_victim_range
    by (auto simp: getReplacementIndexPLRU_def dest: first_index_SomeD split: option.splits)
  show "\<exists>r. s' = s\<lparr>m_repl := r\<rparr>" "plru_inv s'"
    using updateReplacementIndexPLRU_inv [OF a(2) u] by blast+
  show "\<not> isValid (m_cache_block_info_array s ! k)"
    if "\<exists>i<m_associativity s. \<not> isValid (m_cache_block_info_array s ! i)"
    using a(3) first_invalid_first [OF that] by (auto simp: getReplacementIndexPLRU_def)
qed (simp add: plru_inv_def)

lemma random_retry_Some:
  assumes "random_retry s = Some r" and "0 < m_associativity s"
  shows "fst r < m_associativity s \<and> (\<exists>x. snd r = s\<lparr>m_repl := x\<rparr>) \<and>
    (\<not> isValid (m_cache_block_info_array s ! fst r) \<or>
     (\<forall>i < m_associativity s. isValid (m_cache_block_info_array s ! i)) \<and> isValidReplacement s (fst r))"
proof -
  have "0 < m_associativity s \<longrightarrow> fst r < m_associativity s \<and> (\<exists>x. snd r = s\<lparr>m_repl := x\<rparr>) \<and>
    (\<not> isValid (m_cache_block_info_array s ! fst r) \<or>
     (\<forall>i < m_associativity s. isValid (m_cache_block_info_array s ! i)) \<and> isValidReplacement s (fst r))"
    using _ assms(1)
  proof (rule random_retry.raw_induct, goal_cases)
    case (1 f s r)
    show ?case
    proof (cases "first_index (\<lambda>i. \<not> isValid (m_cache_block_info_array s ! i)) (m_associativity s)")
      case None
      then have v: "\<forall>i < m_associativity s. isValid (m_cache_block_info_array s ! i)"
        by (simp add: first_index_None)
      let ?n = "Random_next (m_rand (m_repl s)) 32768"
      let ?s' = "s\<lparr>m_repl := \<lparr>m_rand = snd ?n\<rparr>\<rparr>" and ?k = "unat (projr (fst ?n)) mod m_associativity s"
      have "(if isValidReplacement ?s' ?k then Some (?k, ?s') else f ?s') = Some r"
        using 1(2) None by (simp add: Let_def split_beta)
      then show ?thesis
        using 1(1) [of ?s' r] v by (auto simp: isValidReplacement_def split: if_splits)
    next
      case (Some i)
      then have "r = (i, s)" using 1(2) by simp
      moreover have "s = s\<lparr>m_repl := m_repl s\<rparr>" by simp
      ultimately show ?thesis using first_index_SomeD [OF Some] by (metis fst_conv snd_conv)
    qed
  qed
  with assms(2) show ?thesis by simp
qed

interpretation random: invalid_first_policy getReplacementIndexRandom "\<lambda>_. True"
proof
  fix s info k info' s'
  assume a: "set_wf s" "getReplacementIndexRandom info s = Inr (k, info', s')"
  have r: "random_retry s = Some (k, s')"
    using a(2) by (auto simp: getReplacementIndexRandom_def split: option.splits)
  have p: "0 < m_associativity s" using a(1) by (simp add: set_wf_def)
  note c = random_retry_Some [OF r p, simplified]
  show "k < m_associativity s" "\<exists>r. s' = s\<lparr>m_repl := r\<rparr>" using c by blast+
  show "\<not> isValid (m_cache_block_info_array s ! k)"
    if "\<exists>i<m_associativity s. \<not> isValid (m_cache_block_info_array s ! i)"
    using c that by blast
qed simp_all

definition rr_inv :: "rr_state cache_set \<Rightarrow> bool" where
  "rr_inv s \<longleftrightarrow> m_replacement_index (m_repl s) < m_associativity s"

lemma rr_next_inv: "rr_inv s \<Longrightarrow> rr_inv (rr_next s)"
  by (auto simp: rr_inv_def rr_next_def)

lemma rr_next_fields [simp]:
  "m_associativity (rr_next s) = m_associativity s"
  "isValidReplacement (rr_next s) = isValidReplacement s"
  by (auto simp: rr_next_def isValidReplacement_def fun_eq_iff)

lemma rr_retry_Some:
  assumes "rr_retry s = Some r"
  shows "rr_inv s \<longrightarrow> fst r < m_associativity s \<and> (\<exists>x. snd r = s\<lparr>m_repl := x\<rparr>) \<and> rr_inv (snd r)"
  using _ assms
proof (rule rr_retry.raw_induct, goal_cases)
  case (1 f s r)
  have n: "\<exists>x. rr_next s = s\<lparr>m_repl := x\<rparr>" by (auto simp: rr_next_def)
  show ?case
  proof (cases "isValidReplacement s (m_replacement_index (m_repl (rr_next s)))")
    case True
    then have "r = (m_replacement_index (m_repl s), rr_next s)" using 1(2) by (simp add: Let_def)
    with n show ?thesis using rr_next_inv [of s] by (simp add: rr_inv_def)
  next
    case False
    then have "f (rr_next s) = Some r" using 1(2) by (simp add: Let_def)
    from 1(1) [OF this] n show ?thesis using rr_next_inv [of s] by auto
  qed
qed

interpretation rr: replacement_policy getReplacementIndexRoundRobin rr_inv
proof
  fix s info k info' s'
  assume a: "set_wf s" "rr_inv s" "getReplacementIndexRoundRobin info s = Inr (k, info', s')"
  have r: "rr_retry s = Some (k, s')"
    using a(3) by (auto simp: getReplacementIndexRoundRobin_def split: option.splits)
  note c = rr_retry_Some [OF r, rule_format, OF a(2), simplified]
  show "k < m_associativity s" "\<exists>r. s' = s\<lparr>m_repl := r\<rparr>" "rr_inv s'" using c by blast+
qed (simp add: rr_inv_def)

definition srrip_inv :: "srrip_state cache_set \<Rightarrow> bool" where
  "srrip_inv s \<longleftrightarrow> length (m_rrip_bits (m_repl s)) = m_associativity s \<and>
     unat (srrip_pointer (m_repl s)) < m_associativity s \<and> m_associativity s \<le> 256"

definition srrip_ext :: "srrip_state cache_set \<Rightarrow> srrip_state cache_set \<Rightarrow> bool" where
  "srrip_ext s s' \<longleftrightarrow> srrip_inv s' \<and> (\<exists>r. s' = s\<lparr>m_repl := r\<rparr>)"

lemma srrip_ext_trans: "srrip_ext s s' \<Longrightarrow> srrip_ext s' s'' \<Longrightarrow> srrip_ext s s''"
  by (auto simp: srrip_ext_def)

lemma srrip_ext_inv: "srrip_ext s s' \<Longrightarrow> srrip_inv s'"
  by (simp add: srrip_ext_def)

lemma srrip_ext_update:
  assumes "srrip_inv s" and "length b = m_associativity s" and "unat p < m_associativity s"
  shows "srrip_ext s (s\<lparr>m_repl := (m_repl s)\<lparr>srrip_pointer := p, m_rrip_bits := b\<rparr>\<rparr>)"
  using assms by (auto simp: srrip_ext_def srrip_inv_def)

lemma srrip_next_pointer: "srrip_inv s \<Longrightarrow> unat (next_pointer (m_associativity s) p) < m_associativity s"
  by (rule next_pointer_less) (auto simp: srrip_inv_def)

lemma srrip_scan_ext:
  assumes "srrip_inv s" and "srrip_scan c n attempt info s = Inr res"
  shows "case res of Inl (k, i, s') \<Rightarrow> k < m_associativity s \<and> srrip_ext s s'
    | Inr (at, i, s') \<Rightarrow> srrip_ext s s'"
  using assms
proof (induction n arbitrary: attempt info s)
  case 0
  then show ?case by (auto simp: srrip_ext_def intro!: exI [of _ "m_repl s"])
next
  case (Suc n)
  let ?r = "m_repl s" and ?a = "m_associativity s"
  let ?p = "unat (srrip_pointer ?r)" and ?q = "next_pointer ?a (srrip_pointer ?r)"
  let ?rej = "s\<lparr>m_repl := ?r\<lparr>m_rrip_bits := (m_rrip_bits ?r)[?p := 0]\<rparr>\<rparr>"
  let ?vic = "s\<lparr>m_repl := ?r\<lparr>srrip_pointer := ?q, m_rrip_bits := (m_rrip_bits ?r)[?p := m_rrip_insert ?r]\<rparr>\<rparr>"
  let ?adv = "s\<lparr>m_repl := ?r\<lparr>srrip_pointer := ?q\<rparr>\<rparr>"
  have len: "length (m_rrip_bits ?r) = ?a" and p: "?p < ?a" using Suc.prems(1) by (simp_all add: srrip_inv_def)
  have q: "unat ?q < ?a" by (rule srrip_next_pointer [OF Suc.prems(1)])
  have e: "srrip_ext s ?rej" "srrip_ext s ?vic" "srrip_ext s ?adv"
    using srrip_ext_update [OF Suc.prems(1), of "(m_rrip_bits ?r)[?p := 0]" "srrip_pointer ?r"]
      srrip_ext_update [OF Suc.prems(1), of "(m_rrip_bits ?r)[?p := m_rrip_insert ?r]" ?q]
      srrip_ext_update [OF Suc.prems(1), of "m_rrip_bits ?r" ?q] len p q by simp_all
  consider (vic) i where "res = Inl (?p, i, ?vic)"
    | (rej) at i where "srrip_scan c n at i ?rej = Inr res"
    | (adv) "srrip_scan c n attempt info ?adv = Inr res"
    using Suc.prems(2) by (auto simp: Let_def simp del: srrip_scan.simps(1) split: if_splits option.splits)
  then show ?case
  proof cases
    case vic
    then show ?thesis using p e(2) by simp
  next
    case rej
    show ?thesis using Suc.IH [OF srrip_ext_inv [OF e(1)] rej] srrip_ext_trans [OF e(1)] by (auto split: sum.splits)
  next
    case adv
    show ?thesis using Suc.IH [OF srrip_ext_inv [OF e(3)] adv] srrip_ext_trans [OF e(3)] by (auto split: sum.splits)
  qed
qed

lemma srrip_age_bits:
  assumes "srrip_inv s"
  shows "srrip_age s = s\<lparr>m_repl := (m_repl s)\<lparr>m_rrip_bits :=
    map (\<lambda>i. if m_rrip_bits (m_repl s) ! i < m_rrip_max (m_repl s) then m_rrip_bits (m_repl s) ! i + 1
             else m_rrip_bits (m_repl s) ! i) [0..<m_associativity s]\<rparr>\<rparr>"
proof -
  let ?b = "m_rrip_bits (m_repl s)" and ?m = "m_rrip_max (m_repl s)"
  have len: "length ?b = m_associativity s" using assms by (simp add: srrip_inv_def)
  have f: "(\<lambda>i b. if b ! i < ?m then b[i := b ! i + 1] else b) =
      (\<lambda>i b. b[i := (\<lambda>i x. if x < ?m then x + 1 else x) i (b ! i)])"
    by (auto simp: fun_eq_iff)
  have "fold (\<lambda>i b. if b ! i < ?m then b[i := b ! i + 1] else b) [0..<m_associativity s] ?b =
      map (\<lambda>i. if ?b ! i < ?m then ?b ! i + 1 else ?b ! i) [0..<m_associativity s]"
    unfolding f using fold_update_nth [of "m_associativity s" ?b "\<lambda>i x. if x < ?m then x + 1 else x"] len
    by (simp cong: map_cong)
  then show ?thesis by (simp add: srrip_age_def)
qed

lemma srrip_rounds_ext:
  assumes "srrip_inv s" and "srrip_rounds c j attempt info s = Inr (k, i, s')"
  shows "k < m_associativity s" and "srrip_ext s s'"
proof -
  have "k < m_associativity s \<and> srrip_ext s s'"
    using assms
  proof (induction j arbitrary: attempt info s)
    case (Suc j)
    obtain res where r: "srrip_scan c (m_associativity s) attempt info s = Inr res"
      using Suc.prems(2) by (cases "srrip_scan c (m_associativity s) attempt info s") auto
    note x = srrip_scan_ext [OF Suc.prems(1) r]
    show ?case
    proof (cases res)
      case (Inl v)
      then show ?thesis using x r Suc.prems(2) by (cases v) auto
    next
      case (Inr v)
      obtain at i2 s2 where v: "v = (at, i2, s2)" by (cases v)
      have s2: "srrip_ext s s2" using x Inr v by simp
      have "srrip_ext s2 (srrip_age s2)"
        unfolding srrip_age_bits [OF srrip_ext_inv [OF s2]]
        using srrip_ext_update [OF srrip_ext_inv [OF s2], of _ "srrip_pointer (m_repl s2)"] srrip_ext_inv [OF s2]
        by (simp add: srrip_inv_def)
      then have s3: "srrip_ext s (srrip_age s2)" by (rule srrip_ext_trans [OF s2])
      have "srrip_rounds c j at i2 (srrip_age s2) = Inr (k, i, s')"
        using Suc.prems(2) r Inr v by simp
      from Suc.IH [OF srrip_ext_inv [OF s3] this] s3 show ?thesis
        by (auto intro: srrip_ext_trans simp: srrip_ext_def)
    qed
  qed simp
  then show "k < m_associativity s" and "srrip_ext s s'" by auto
qed

interpretation srrip: invalid_first_policy "getReplacementIndexSRRIP cntlr" srrip_inv for cntlr
proof
  fix s info k info' s'
  assume a: "set_wf s" "srrip_inv s" "getReplacementIndexSRRIP cntlr info s = Inr (k, info', s')"
  let ?f = "first_index (\<lambda>i. \<not> isValid (m_cache_block_info_array s ! i)) (m_associativity s)"
  have "k < m_associativity s \<and> srrip_ext s s'"
  proof (cases ?f)
    case None
    then show ?thesis
      using a(3) srrip_rounds_ext [OF a(2)] unfolding getReplacementIndexSRRIP_def None option.case by blast
  next
    case (Some i)
    then show ?thesis
      using a(3) first_index_SomeD(1) [OF Some] a(2)
        srrip_ext_update [OF a(2), of "(m_rrip_bits (m_repl s))[i := m_rrip_insert (m_repl s)]" "srrip_pointer (m_repl s)"]
      by (auto simp: getReplacementIndexSRRIP_def srrip_inv_def)
  qed
  then show "k < m_associativity s" "\<exists>r. s' = s\<lparr>m_repl := r\<rparr>" "srrip_inv s'"
    by (auto simp: srrip_ext_def)
  show "\<not> isValid (m_cache_block_info_array s ! k)"
    if "\<exists>i<m_associativity s. \<not> isValid (m_cache_block_info_array s ! i)"
    using a(3) first_invalid_first [OF that] by (auto simp: getReplacementIndexSRRIP_def)
qed (simp add: srrip_inv_def)

subsection \<open>Round robin returns\<close>

lemma rr_next_index:
  "m_replacement_index (m_repl (rr_next s)) =
    (if m_replacement_index (m_repl s) = 0 then m_associativity s - 1 else m_replacement_index (m_repl s) - 1)"
  by (simp add: rr_next_def)

lemma rr_down: "m \<le> m_replacement_index (m_repl s) \<Longrightarrow>
    m_replacement_index (m_repl ((rr_next ^^ m) s)) = m_replacement_index (m_repl s) - m"
  by (induction m) (simp_all add: rr_next_index)

lemma rr_pow_fields [simp]: "m_associativity ((rr_next ^^ m) s) = m_associativity s"
  by (induction m) simp_all

lemma rr_reaches:
  assumes "rr_inv s" and "i < m_associativity s"
  shows "\<exists>m. m_replacement_index (m_repl ((rr_next ^^ Suc m) s)) = i"
proof (cases "i < m_replacement_index (m_repl s)")
  case True
  let ?m = "m_replacement_index (m_repl s) - i - 1"
  have "m_replacement_index (m_repl ((rr_next ^^ Suc ?m) s)) = i"
    using True rr_down [of "Suc ?m" s] by simp
  then show ?thesis ..
next
  case False
  let ?p = "m_replacement_index (m_repl s)"
  let ?s1 = "(rr_next ^^ Suc ?p) s"
  let ?m = "m_associativity s - 1 - i"
  have "m_replacement_index (m_repl ?s1) = m_associativity s - 1"
    using rr_down [of ?p s] by (simp add: rr_next_index)
  then have "m_replacement_index (m_repl ((rr_next ^^ ?m) ?s1)) = i"
    using rr_down [of ?m ?s1] assms(2) by simp
  then have "m_replacement_index (m_repl ((rr_next ^^ (?m + Suc ?p)) s)) = i"
    by (simp only: funpow_add comp_apply)
  then show ?thesis by (metis add_Suc_right)
qed

lemma rr_retry_returns:
  "isValidReplacement s (m_replacement_index (m_repl ((rr_next ^^ Suc m) s))) \<Longrightarrow> \<exists>r. rr_retry s = Some r"
proof (induction m arbitrary: s)
  case 0
  then show ?case by (subst rr_retry.simps) (simp add: Let_def)
next
  case (Suc m)
  then have "isValidReplacement (rr_next s) (m_replacement_index (m_repl ((rr_next ^^ Suc m) (rr_next s))))"
    by (simp only: funpow_Suc_right comp_apply rr_next_fields)
  from Suc.IH [OF this] show ?case
    by (subst rr_retry.simps) (simp add: Let_def)
qed

lemma rr_retry_needs:
  assumes "rr_retry s = Some r"
  shows "rr_inv s \<longrightarrow> (\<exists>i < m_associativity s. isValidReplacement s i)"
  using _ assms
proof (rule rr_retry.raw_induct, goal_cases)
  case (1 f s r)
  show ?case
  proof (cases "isValidReplacement s (m_replacement_index (m_repl (rr_next s)))")
    case True
    with rr_next_inv [of s] show ?thesis by (auto simp: rr_inv_def)
  next
    case False
    then have "f (rr_next s) = Some r" using 1(2) by (simp add: Let_def)
    from 1(1) [OF this] show ?thesis using rr_next_inv [of s] by simp
  qed
qed

subsection \<open>SRRIP finds a victim\<close>

lemma srrip_scan_no_qbs:
  assumes "unat (srrip_num_attempts (m_repl s)) \<le> 1" and "m_attempts (fst info) = None"
    and "\<forall>i < m_associativity s. isValidReplacement s i" and "srrip_inv s"
  shows "srrip_scan c n 0 info s =
    (case scan_ways (\<lambda>p. m_rrip_max (m_repl s) \<le> m_rrip_bits (m_repl s) ! p) (m_associativity s) n (srrip_pointer (m_repl s)) of
       Some (k, q) \<Rightarrow> Inr (Inl (k, info, s\<lparr>m_repl := (m_repl s)\<lparr>srrip_pointer := q,
                         m_rrip_bits := (m_rrip_bits (m_repl s))[k := m_rrip_insert (m_repl s)]\<rparr>\<rparr>))
     | None \<Rightarrow> Inr (Inr (0, info, s\<lparr>m_repl := (m_repl s)\<lparr>srrip_pointer :=
                         (next_pointer (m_associativity s) ^^ n) (srrip_pointer (m_repl s))\<rparr>\<rparr>)))"
  using assms
proof (induction n arbitrary: s)
  case (Suc n)
  let ?r = "m_repl s" and ?a = "m_associativity s"
  let ?q = "next_pointer ?a (srrip_pointer ?r)"
  let ?s' = "s\<lparr>m_repl := ?r\<lparr>srrip_pointer := ?q\<rparr>\<rparr>"
  have p: "unat (srrip_pointer ?r) < ?a" using Suc.prems(4) by (simp add: srrip_inv_def)
  have v: "isValidReplacement (s\<lparr>m_repl := x\<rparr>) i = isValidReplacement s i" for x i
    by (simp add: isValidReplacement_def)
  have "srrip_inv ?s'"
    using Suc.prems(4) srrip_next_pointer [OF Suc.prems(4)] by (simp add: srrip_inv_def)
  with Suc.prems(1-3) have IH: "srrip_scan c n 0 info ?s' =
    (case scan_ways (\<lambda>p. m_rrip_max ?r \<le> m_rrip_bits ?r ! p) ?a n ?q of
       Some (k, q) \<Rightarrow> Inr (Inl (k, info, s\<lparr>m_repl := ?r\<lparr>srrip_pointer := q,
                         m_rrip_bits := (m_rrip_bits ?r)[k := m_rrip_insert ?r]\<rparr>\<rparr>))
     | None \<Rightarrow> Inr (Inr (0, info, s\<lparr>m_repl := ?r\<lparr>srrip_pointer := (next_pointer ?a ^^ n) ?q\<rparr>\<rparr>)))"
    by (subst Suc.IH) (simp_all add: v split: option.split)
  show ?case
  proof (cases "m_rrip_max ?r \<le> m_rrip_bits ?r ! unat (srrip_pointer ?r)")
    case True
    have "\<not> 1 < uint (srrip_num_attempts ?r)"
      using Suc.prems(1) uint_nat [of "srrip_num_attempts ?r"] by linarith
    with True show ?thesis
      using Suc.prems(2,3) p by (simp add: Let_def info_incrementAttempt_def v)
  next
    case False
    then show ?thesis
      using IH by (simp add: Let_def funpow_Suc_right del: funpow.simps split: option.split)
  qed
qed simp

lemma srrip_rounds_returns:
  assumes "unat (srrip_num_attempts (m_repl s)) \<le> 1" and "m_attempts (fst info) = None"
    and "\<forall>i < m_associativity s. isValidReplacement s i" and "srrip_inv s"
    and "i < m_associativity s" and "unat (m_rrip_max (m_repl s)) \<le> unat (m_rrip_bits (m_repl s) ! i) + j"
  shows "\<exists>k s'. srrip_rounds c (Suc j) 0 info s = Inr (k, info, s')"
  using assms
proof (induction j arbitrary: s)
  case 0
  let ?P = "\<lambda>p. m_rrip_max (m_repl s) \<le> m_rrip_bits (m_repl s) ! p"
  have p: "unat (srrip_pointer (m_repl s)) < m_associativity s" "m_associativity s \<le> 256"
    using 0(4) by (simp_all add: srrip_inv_def)
  have "?P i" using 0(6) by (simp add: word_le_nat_alt)
  from scan_ways_total [OF p 0(5), of ?P, OF this]
  obtain k q where "scan_ways ?P (m_associativity s) (m_associativity s) (srrip_pointer (m_repl s)) = Some (k, q)"
    by blast
  with 0 show ?case by (simp add: srrip_scan_no_qbs)
next
  case (Suc j)
  let ?P = "\<lambda>p. m_rrip_max (m_repl s) \<le> m_rrip_bits (m_repl s) ! p"
  let ?sc = "scan_ways ?P (m_associativity s) (m_associativity s) (srrip_pointer (m_repl s))"
  let ?s1 = "s\<lparr>m_repl := (m_repl s)\<lparr>srrip_pointer :=
      (next_pointer (m_associativity s) ^^ m_associativity s) (srrip_pointer (m_repl s))\<rparr>\<rparr>"
  show ?case
  proof (cases ?sc)
    case None
    have e: "srrip_scan c (m_associativity s) 0 info s = Inr (Inr (0, info, ?s1))"
      using srrip_scan_no_qbs [OF Suc.prems(1-4)] None by simp
    then have inv: "srrip_inv ?s1"
      using srrip_scan_ext [OF Suc.prems(4) e] by (simp add: srrip_ext_def)
    have p: "unat (srrip_pointer (m_repl s)) < m_associativity s" "m_associativity s \<le> 256"
      using Suc.prems(4) by (simp_all add: srrip_inv_def)
    have "\<not> ?P i" using scan_ways_total [OF p Suc.prems(5), of ?P] None by auto
    then have lt: "m_rrip_bits (m_repl s) ! i < m_rrip_max (m_repl s)" by simp
    then have "unat (m_rrip_bits (m_repl (srrip_age ?s1)) ! i) = Suc (unat (m_rrip_bits (m_repl s) ! i))"
      using Suc.prems(5) by (simp add: srrip_age_bits [OF inv] unat_inc_less)
    moreover have "srrip_inv (srrip_age ?s1)"
      using inv by (simp add: srrip_age_bits [OF inv] srrip_inv_def)
    moreover have "isValidReplacement (srrip_age ?s1) k = isValidReplacement s k" for k
      by (simp add: srrip_age_def isValidReplacement_def)
    ultimately have "\<exists>k s'. srrip_rounds c (Suc j) 0 info (srrip_age ?s1) = Inr (k, info, s')"
      using Suc.prems by (intro Suc.IH) (simp_all add: srrip_age_def)
    then show ?thesis using e by simp
  next
    case (Some kq)
    then show ?thesis
      using srrip_scan_no_qbs [OF Suc.prems(1-4), of c "m_associativity s"] by (cases kq) simp
  qed
qed

subsection \<open>Every class finds a victim when no line waits for an upgrade\<close>

lemma updateReplacementIndexMRU_total: "\<exists>s'. updateReplacementIndexMRU i info s = Inr (info, s')"
  by (simp add: updateReplacementIndexMRU_def)

lemma updateReplacementIndexNMRU_total: "\<exists>s'. updateReplacementIndexNMRU i info s = Inr (info, s')"
  by (simp add: updateReplacementIndexNMRU_def)

lemma updateReplacementIndexNRU_total: "\<exists>s'. updateReplacementIndexNRU i info s = Inr (info, s')"
  by (simp add: updateReplacementIndexNRU_def Let_def)

lemma mru_search_total:
  assumes "mru_inv s" and "0 < m_associativity s" and "\<forall>i < m_associativity s. isValidReplacement s i"
  shows "\<exists>i. mru_search s = Some i"
proof -
  have lt: "unat (mru_lru_bits (m_repl s) ! 0) < m_associativity s"
    using assms(1,2) unfolding mru_inv_def ages_perm_alt by metis
  have "mru_at s (unat (mru_lru_bits (m_repl s) ! 0)) \<noteq> None"
    using assms(2,3) unfolding mru_at_def first_index_None by blast
  with lt have "first_index (\<lambda>target. mru_at s target \<noteq> None) (m_associativity s) \<noteq> None"
    unfolding first_index_None by blast
  then obtain t where t: "first_index (\<lambda>target. mru_at s target \<noteq> None) (m_associativity s) = Some t" by blast
  from first_index_SomeD(2) [OF t] t show ?thesis by (simp add: mru_search_def)
qed

interpretation mru: available_policy getReplacementIndexMRU mru_inv
proof
  fix s :: "mru_state cache_set" and info :: 'a
  assume a: "set_wf s" "mru_inv s" "\<forall>i < m_associativity s. isValidReplacement s i"
  then obtain i where "mru_search s = Some i"
    using mru_search_total [of s] by (auto simp: set_wf_def)
  then show "\<exists>k info' s'. getReplacementIndexMRU info s = Inr (k, info', s')"
    using updateReplacementIndexMRU_total [of _ info s]
    by (auto simp: getReplacementIndexMRU_def updateReplacementIndexMRU_def split: option.split)
qed

lemma perm_not_all_zero:
  assumes "ages_perm b" and "2 \<le> length b"
  shows "\<exists>i < length b. b ! i \<noteq> 0"
proof -
  have "b ! 0 \<noteq> b ! 1"
  proof -
    have "b \<noteq> []" using assms(2) by auto
    with assms nth_eq_iff_index_eq [of b 0 1] show ?thesis by (simp add: ages_perm_def)
  qed
  then show ?thesis using assms(2) by (cases "b ! 0 = 0") (auto intro: exI [of _ 0] exI [of _ 1])
qed

interpretation nmru: available_policy getReplacementIndexNMRU nmru_inv
proof
  fix s :: "nmru_state cache_set" and info :: 'a
  assume a: "set_wf s" "nmru_inv s" "\<forall>i < m_associativity s. isValidReplacement s i"
  let ?P = "\<lambda>p. nmru_lru_bits (m_repl s) ! p \<noteq> 0 \<and> isValidReplacement s p"
  obtain i where i: "i < m_associativity s" "?P i"
    using a(2,3) perm_not_all_zero [of "nmru_lru_bits (m_repl s)"] by (auto simp: nmru_inv_def)
  have p: "unat (nmru_pointer (m_repl s)) < m_associativity s" "m_associativity s \<le> 256"
    using a(2) by (simp_all add: nmru_inv_def)
  obtain k q where "scan_ways ?P (m_associativity s) (m_associativity s) (nmru_pointer (m_repl s)) = Some (k, q)"
    using scan_ways_total [OF p i(1), of ?P, OF i(2)] by blast
  then show "\<exists>k info' s'. getReplacementIndexNMRU info s = Inr (k, info', s')"
    by (auto simp: getReplacementIndexNMRU_def updateReplacementIndexNMRU_def split: option.split)
qed

interpretation nru: available_policy getReplacementIndexNRU nru_inv
proof
  fix s :: "nru_state cache_set" and info :: 'a
  assume a: "set_wf s" "nru_inv s" "\<forall>i < m_associativity s. isValidReplacement s i"
  let ?z = "first_index (\<lambda>i. nru_lru_bits (m_repl s) ! i = 0 \<and> isValidReplacement s i) (m_associativity s) \<noteq> None"
  let ?P = "\<lambda>p. (nru_lru_bits (m_repl s) ! p = 0 \<or> ?z = False) \<and> isValidReplacement s p"
  have p: "unat (nru_pointer (m_repl s)) < m_associativity s" "m_associativity s \<le> 256"
    using a(2) by (simp_all add: nru_inv_def)
  have "\<exists>i < m_associativity s. ?P i"
    using a(1,3) by (cases ?z) (auto simp: set_wf_def first_index_None)
  then obtain i where i: "i < m_associativity s" "?P i" by blast
  obtain k q where sc: "scan_ways ?P (m_associativity s) (m_associativity s) (nru_pointer (m_repl s)) = Some (k, q)"
    using scan_ways_total [OF p i(1), of ?P, OF i(2)] by blast
  show "\<exists>k info' s'. getReplacementIndexNRU info s = Inr (k, info', s')"
  proof (cases "first_index (\<lambda>i. \<not> isValid (m_cache_block_info_array s ! i)) (m_associativity s)")
    case None
    show ?thesis
      using updateReplacementIndexNRU_total [of k info "s\<lparr>m_repl := (m_repl s)\<lparr>nru_pointer := q\<rparr>\<rparr>"]
      unfolding getReplacementIndexNRU_def None Let_def option.case sc by auto
  next
    case (Some j)
    then show ?thesis
      using updateReplacementIndexNRU_total [of j info s] by (auto simp: getReplacementIndexNRU_def)
  qed
qed

lemma plru_touch_root:
  assumes "plru_touch a k b = Inr b'" and "length b = 8" and "k < a"
  shows "b' ! 0 = 0 \<longleftrightarrow> \<not> k < a div 2"
proof -
  have "0 < length b" using assms(2) by simp
  consider "a = 4" | "a = 8" using assms(1) by (auto simp: plru_touch_def split: if_splits)
  then show ?thesis
  proof cases
    case 1
    with assms(3) consider "k = 0" | "k = 1" | "k = 2" | "k = 3" by linarith
    then show ?thesis using assms(1) 1 \<open>0 < length b\<close> by cases (auto simp: plru_touch_def)
  next
    case 2
    with assms(3) consider "k = 0" | "k = 1" | "k = 2" | "k = 3" | "k = 4" | "k = 5" | "k = 6" | "k = 7" by linarith
    then show ?thesis using assms(1) 2 \<open>0 < length b\<close> by cases (auto simp: plru_touch_def)
  qed
qed

interpretation plru: available_policy getReplacementIndexPLRU plru_inv
proof
  fix s :: "plru_state cache_set" and info :: 'a
  assume a: "set_wf s" "plru_inv s" "\<forall>i < m_associativity s. isValidReplacement s i"
  obtain k where k: "plru_victim (m_associativity s) (plru_b (m_repl s)) = Inr k"
    using a(2) by (auto simp: plru_inv_def plru_victim_def)
  have t: "\<exists>b. plru_touch (m_associativity s) j (plru_b (m_repl s)) = Inr b" for j
    using a(2) by (auto simp: plru_inv_def plru_touch_def)
  show "\<exists>k info' s'. getReplacementIndexPLRU info s = Inr (k, info', s')"
    using k plru_victim_range [OF k] a(3) t
    by (auto simp: getReplacementIndexPLRU_def updateReplacementIndexPLRU_def split: option.split)
qed

interpretation random: available_policy getReplacementIndexRandom "\<lambda>_. True"
proof
  fix s :: "random_state cache_set" and info :: 'a
  assume a: "set_wf s" "\<forall>i < m_associativity s. isValidReplacement s i"
  have "isValidReplacement (s\<lparr>m_repl := x\<rparr>) (n mod m_associativity s)" for x n
    using a by (simp add: isValidReplacement_def set_wf_def)
  then have "\<exists>k s'. random_retry s = Some (k, s')"
    by (subst random_retry.simps) (simp add: Let_def split_beta split: option.split)
  then show "\<exists>k info' s'. getReplacementIndexRandom info s = Inr (k, info', s')"
    by (auto simp: getReplacementIndexRandom_def)
qed

interpretation rr: available_policy getReplacementIndexRoundRobin rr_inv
proof
  fix s :: "rr_state cache_set" and info :: 'a
  assume a: "set_wf s" "rr_inv s" "\<forall>i < m_associativity s. isValidReplacement s i"
  obtain m where "m_replacement_index (m_repl ((rr_next ^^ Suc m) s)) = 0"
    using rr_reaches [OF a(2), of 0] a(1) by (auto simp: set_wf_def simp del: funpow.simps)
  then have "\<exists>r. rr_retry s = Some r"
    using rr_retry_returns [of s m] a(1,3) by (simp add: set_wf_def del: funpow.simps)
  then show "\<exists>k info' s'. getReplacementIndexRoundRobin info s = Inr (k, info', s')"
    by (auto simp: getReplacementIndexRoundRobin_def)
qed

text \<open>The constructors establish the class invariants.\<close>

lemma ages_perm_initial: "n \<le> 256 \<Longrightarrow> ages_perm (map of_nat [0..<n])"
  using CacheSetLRU_new_inv [of n 1 0 False False]
  by (simp add: lru_inv_def bits_def CacheSetLRU_new_def CacheSet_new_def)

lemma policies_new_inv:
  "n \<le> 256 \<Longrightarrow> mru_inv (CacheSetMRU_new n bs fi l)"
  "2 \<le> n \<Longrightarrow> n \<le> 256 \<Longrightarrow> nmru_inv (CacheSetNMRU_new n bs fi l)"
  "0 < n \<Longrightarrow> n \<le> 256 \<Longrightarrow> nru_inv (CacheSetNRU_new n bs fi l)"
  "CacheSetPLRU_new n bs fi l = Inr s \<Longrightarrow> plru_inv s"
  "0 < n \<Longrightarrow> rr_inv (CacheSetRoundRobin_new n bs fi l)"
  "0 < n \<Longrightarrow> n \<le> 256 \<Longrightarrow> CacheSetSRRIP_new nb n bs at fi l = Inr s' \<Longrightarrow> srrip_inv s'"
  using ages_perm_initial [of n]
  by (auto simp: CacheSetMRU_new_def CacheSetNMRU_new_def CacheSetNRU_new_def CacheSetPLRU_new_def
      CacheSetRoundRobin_new_def CacheSetSRRIP_new_def CacheSet_new_def mru_inv_def nmru_inv_def nru_inv_def
      plru_inv_def rr_inv_def srrip_inv_def Let_def)

subsection \<open>Properties\<close>

text \<open>
  C23. Every replacement class other than SRRIP inserts like a map: on a well-formed set
  without duplicate tags and without pending upgrades (of at least two ways for NMRU, of
  four or eight ways for PLRU), inserting a new valid line always returns, the contents
  become the old ones plus the new line minus the reported victim, and the set and class
  invariants hold again. In particular the error exits of the victim searches and the
  endless retries of the random and round-robin classes are not reached.
\<close>

theorem policies_insert_like_map:
  "inserts_like_map (getReplacementIndexMRU :: 'i \<Rightarrow> _) mru_inv \<and>
   inserts_like_map (getReplacementIndexNMRU :: 'i \<Rightarrow> _) nmru_inv \<and>
   inserts_like_map (getReplacementIndexNRU :: 'i \<Rightarrow> _) nru_inv \<and>
   inserts_like_map (getReplacementIndexPLRU :: 'i \<Rightarrow> _) plru_inv \<and>
   inserts_like_map (getReplacementIndexRandom :: 'i \<Rightarrow> _) (\<lambda>_. True) \<and>
   inserts_like_map (getReplacementIndexRoundRobin :: 'i \<Rightarrow> _) rr_inv"
  by (intro conjI mru.insert_like_map nmru.insert_like_map nru.insert_like_map plru.insert_like_map
      random.insert_like_map rr.insert_like_map)



text \<open>
  C26. Tree pseudo-LRU: touching a way of a 4- or 8-way set points the tree at the other half
  of the set, so the next victim is never the way just used nor any way of its half.
\<close>

theorem plru_other_half:
  assumes "a = 4 \<or> a = 8" and "length b = 8" and "k < a"
  shows "\<exists>b' v. plru_touch a k b = Inr b' \<and> plru_victim a b' = Inr v \<and> v < a \<and> (v < a div 2 \<longleftrightarrow> \<not> k < a div 2)"
proof -
  obtain b' where b': "plru_touch a k b = Inr b'" using assms(1) by (auto simp: plru_touch_def)
  have "b' ! 0 = 0 \<longleftrightarrow> \<not> k < a div 2" using plru_touch_root [OF b' assms(2,3)] .
  with assms(1) b' show ?thesis by (auto simp: plru_victim_def)
qed

theorem plru_other_half_witness:
  "\<exists>b' v. plru_touch 8 5 (replicate 8 0) = Inr b' \<and> plru_victim 8 b' = Inr v \<and> v < 4"
  using plru_other_half [of 8 "replicate 8 0" 5] by auto

text \<open>
  C25. Round robin: \<open>getReplacementIndex\<close> returns exactly when some line of the set is not
  waiting for an upgrade; otherwise it recurses for ever.
\<close>

theorem roundrobin_returns_iff:
  assumes "set_wf s" and "rr_inv s"
  shows "rr_retry s \<noteq> None \<longleftrightarrow> (\<exists>i < m_associativity s. isValidReplacement s i)"
proof
  assume "rr_retry s \<noteq> None"
  then show "\<exists>i < m_associativity s. isValidReplacement s i"
    using rr_retry_needs assms(2) by blast
next
  assume "\<exists>i < m_associativity s. isValidReplacement s i"
  then obtain i where i: "i < m_associativity s" "isValidReplacement s i" by blast
  obtain m where "m_replacement_index (m_repl ((rr_next ^^ Suc m) s)) = i"
    using rr_reaches [OF assms(2) i(1)] by blast
  then show "rr_retry s \<noteq> None"
    using rr_retry_returns [of s m] i(2) by (auto simp del: funpow.simps)
qed

theorem roundrobin_returns_iff_witness:
  "rr_retry (CacheSetRoundRobin_new 2 64 False False) \<noteq> None"
proof -
  let ?s = "CacheSetRoundRobin_new 2 64 False False"
  have wf: "set_wf ?s" "rr_inv ?s"
    by (simp_all add: CacheSetRoundRobin_new_def CacheSet_new_def set_wf_def rr_inv_def)
  have "isValidReplacement ?s 0" "0 < m_associativity ?s"
    by (simp_all add: CacheSetRoundRobin_new_def CacheSet_new_def isValidReplacement_def CacheBlockInfo_create_def
        CacheBlockInfo_def)
  with roundrobin_returns_iff [OF wf] show ?thesis by blast
qed

end
