(* ===== verification/FaultInjection.thy ===== *)
theory FaultInjection
  imports CacheBlock Utils
begin

section \<open>Fault injection\<close>

text \<open>
  \<^verbatim>\<open>common/fault_injection\<close>: the manager built from two configuration strings, the
  application of a fault mask to data, and the two injector classes. Buffers are byte
  lists; writing past the end of one is the error \<open>Undefined\<close>. The printed message of the
  random injector is not modelled.
\<close>

datatype fault_type_t = FAULT_TYPE_TOGGLE | FAULT_TYPE_SET0 | FAULT_TYPE_SET1

datatype fault_injector_t = FAULT_INJECTOR_NONE | FAULT_INJECTOR_RANDOM

record FaultinjectionManager =
  m_type :: fault_type_t
  m_injector :: fault_injector_t

definition FaultinjectionManager_create :: "string \<Rightarrow> string \<Rightarrow> FaultinjectionManager option res" where
  "FaultinjectionManager_create s_type s_injector =
     (if s_type = ''none'' then Inr None
      else
        rbind (if s_type = ''toggle'' then Inr FAULT_TYPE_TOGGLE
               else if s_type = ''set0'' then Inr FAULT_TYPE_SET0
               else if s_type = ''set1'' then Inr FAULT_TYPE_SET1
               else Inl LogError) (\<lambda>type.
        rbind (if s_injector = ''none'' then Inr FAULT_INJECTOR_NONE
               else if s_injector = ''random'' then Inr FAULT_INJECTOR_RANDOM
               else Inl LogError) (\<lambda>injector.
        Inr (Some \<lparr>m_type = type, m_injector = injector\<rparr>))))"

definition apply_byte :: "fault_type_t \<Rightarrow> u8 \<Rightarrow> u8 \<Rightarrow> u8" where
  "apply_byte t data fault =
     (case t of
        FAULT_TYPE_TOGGLE \<Rightarrow> data XOR fault
      | FAULT_TYPE_SET0 \<Rightarrow> data AND NOT fault
      | FAULT_TYPE_SET1 \<Rightarrow> data OR fault)"

definition applyFault :: "FaultinjectionManager \<Rightarrow> nat \<Rightarrow> u8 list \<Rightarrow> u8 list \<Rightarrow> u8 list res" where
  "applyFault mgr data_size data fault =
     rbind (ensure Undefined (data_size \<le> length data \<and> data_size \<le> length fault)) (\<lambda>_.
     Inr (fold (\<lambda>i d. d[i := apply_byte (m_type mgr) (d ! i) (fault ! i)]) [0..<data_size] data))"

subsection \<open>Injectors\<close>

record random_injector =
  m_active :: bool
  m_rng :: u64

datatype FaultInjector =
    FaultInjector u32 component_t
  | FaultInjectorRandom u32 component_t random_injector

definition FaultInjectorRandom_new :: "u32 \<Rightarrow> component_t \<Rightarrow> FaultInjector" where
  "FaultInjectorRandom_new core_id mem_component =
     FaultInjectorRandom core_id mem_component \<lparr>m_active = (mem_component = L1_DCACHE), m_rng = rng_seed 0\<rparr>"

definition getFaultInjector :: "FaultinjectionManager \<Rightarrow> u32 \<Rightarrow> component_t \<Rightarrow> FaultInjector" where
  "getFaultInjector mgr core_id mem_component =
     (case m_injector mgr of
        FAULT_INJECTOR_NONE \<Rightarrow> FaultInjector core_id mem_component
      | FAULT_INJECTOR_RANDOM \<Rightarrow> FaultInjectorRandom_new core_id mem_component)"

definition preRead ::
    "FaultInjector \<Rightarrow> IntPtr \<Rightarrow> IntPtr \<Rightarrow> u32 \<Rightarrow> u8 list \<Rightarrow> u64 \<Rightarrow> (u8 list \<times> FaultInjector) res" where
  \<comment> \<open>\<open>fault\<close> is the memory from the passed pointer on\<close>
  "preRead fi addr location data_size fault time =
     (case fi of
        FaultInjector _ _ \<Rightarrow> Inr (fault, fi)
      | FaultInjectorRandom core mc r \<Rightarrow>
          if m_active r
          then (case rng_next (m_rng r) of (v, rng) \<Rightarrow>
            if v mod 0xffff = 0
            then (case rng_next rng of (w, rng) \<Rightarrow>
              rbind (ensure Undefined (data_size \<noteq> 0)) (\<lambda>_.
              let bit_location = unat (ucast (w mod ucast data_size) :: u32) in
              rbind (nth_res fault (bit_location div 8)) (\<lambda>f.
              Inr (fault[bit_location div 8 := f OR push_bit (bit_location mod 8) 1],
                   FaultInjectorRandom core mc (r\<lparr>m_rng := rng\<rparr>)))))
            else Inr (fault, FaultInjectorRandom core mc (r\<lparr>m_rng := rng\<rparr>)))
          else Inr (fault, fi))"

definition postWrite ::
    "FaultInjector \<Rightarrow> IntPtr \<Rightarrow> IntPtr \<Rightarrow> u32 \<Rightarrow> u8 list \<Rightarrow> u64 \<Rightarrow> (u8 list \<times> FaultInjector) res" where
  \<comment> \<open>empty in both classes\<close>
  "postWrite fi addr location data_size fault time = Inr (fault, fi)"

subsection \<open>Properties\<close>

lemma applyFault_nth:
  assumes "data_size \<le> length data" and "data_size \<le> length fault"
  shows "applyFault mgr data_size data fault =
    Inr (map (\<lambda>i. if i < data_size then apply_byte (m_type mgr) (data ! i) (fault ! i) else data ! i) [0..<length data])"
  using assms by (simp add: applyFault_def fold_update_nth [where f = "\<lambda>i x. apply_byte (m_type mgr) x (fault ! i)"])



lemma preRead_writes:
  assumes "0 < data_size" and "unat data_size \<le> length fault"
  shows "\<exists>fault' fi'. preRead fi addr location data_size fault time = Inr (fault', fi') \<and>
    length fault' = length fault \<and>
    (\<forall>i < length fault. unat data_size \<le> 8 * i \<longrightarrow> fault' ! i = fault ! i) \<and>
    (\<forall>i < length fault. (fault ! i) AND (fault' ! i) = fault ! i)"
proof -
  have b: "unat (ucast (w mod ucast data_size) :: u32) < unat data_size" for w :: u64
  proof -
    have nz: "unat (ucast data_size :: u64) = unat data_size" 
      using unat_lt_two_power [of data_size] by (simp add: unsigned_ucast_eq take_bit_nat_eq_self)
    have "unat (w mod ucast data_size) < unat data_size"
      using assms(1) by (simp add: unat_mod nz word_greater_zero_iff unat_gt_0 flip: word_neq_0_conv)
    then show ?thesis
      by (simp add: unsigned_ucast_eq) (meson le_less_trans take_bit_nat_less_eq_self)
  qed
  show ?thesis
  proof (cases fi)
    case (FaultInjector c m)
    then show ?thesis by (simp add: preRead_def)
  next
    case (FaultInjectorRandom c m r)
    obtain v rng where v: "rng_next (m_rng r) = (v, rng)" by fastforce
    obtain w rng' where w: "rng_next rng = (w, rng')" by fastforce
    let ?l = "unat (ucast (w mod ucast data_size) :: u32)"
    have "?l div 8 < length fault" using b [of w] assms(2) by simp
    moreover have "8 * (?l div 8) < unat data_size" using b [of w] by simp
    moreover have "data_size \<noteq> 0" using assms(1) by auto
    moreover have "x AND (x OR y) = x" for x y :: u8 by (rule bit_eqI) (auto simp: bit_simps)
    ultimately show ?thesis
      unfolding FaultInjectorRandom preRead_def
      by (auto simp: v w Let_def nth_res_def nth_list_update)
  qed
qed



end
