(* ===== verification/Cache.thy ===== *)
theory Cache
  imports CacheGeom CacheSetPolicies FaultInjection
begin

section \<open>Caches\<close>

text \<open>
  \<^verbatim>\<open>cache/cache.{h,cc}\<close> and the factory functions of \<^verbatim>\<open>cache/cache_set.cc\<close>. A cache is the
  geometry of \<open>CacheBase\<close>, its LRU sets, the shared statistics object, counters, the
  optional fault injector, and, for a shared cache, the way-reconfiguration state: modules
  of consecutive sets, the matrix \<open>isSubWayOn\<close> of enabled ways per module, and the hit
  counters \<open>L2Hits\<close>. A \<open>CacheBlockInfo*\<close> into the cache is the pair of its set and way.
  Members the constructor leaves uninitialised take the value an oracle \<open>indet\<close> gives for
  their name; a row of an unallocated matrix does not exist, so using it is \<open>Undefined\<close>.
  The per-set locks are not part of the state: every operation runs as one step.
\<close>

subsection \<open>Factory functions\<close>

datatype ReplacementPolicy =
  ROUND_ROBIN | LRU | LRU_QBS | NRU | MRU | NMRU | PLRU | SRRIP | SRRIP_QBS | RANDOM

definition parsePolicyType :: "string \<Rightarrow> ReplacementPolicy res" where
  "parsePolicyType policy =
     (if policy = ''round_robin'' then Inr ROUND_ROBIN
      else if policy = ''lru'' then Inr LRU
      else if policy = ''lru_qbs'' then Inr LRU_QBS
      else if policy = ''nru'' then Inr NRU
      else if policy = ''mru'' then Inr MRU
      else if policy = ''nmru'' then Inr NMRU
      else if policy = ''plru'' then Inr PLRU
      else if policy = ''srrip'' then Inr SRRIP
      else if policy = ''srrip_qbs'' then Inr SRRIP_QBS
      else if policy = ''random'' then Inr RANDOM
      else Inl LogError)"

definition getNumQBSAttempts :: "int \<Rightarrow> ReplacementPolicy \<Rightarrow> u8" where
  \<comment> \<open>\<open>attempts\<close> is the configuration value \<open>qbs/attempts\<close>\<close>
  "getNumQBSAttempts attempts policy =
     (case policy of LRU_QBS \<Rightarrow> of_int attempts | SRRIP_QBS \<Rightarrow> of_int attempts | _ \<Rightarrow> 1)"

definition createCacheSet ::
    "int \<Rightarrow> bool \<Rightarrow> string \<Rightarrow> nat \<Rightarrow> nat \<Rightarrow> bool \<Rightarrow> lru_set res" where
  "createCacheSet attempts fault_injection policy_name associativity blocksize ifLeader =
     rbind (parsePolicyType policy_name) (\<lambda>policy.
     case policy of
       LRU \<Rightarrow> Inr (CacheSetLRU_new associativity blocksize (getNumQBSAttempts attempts policy) fault_injection ifLeader)
     | LRU_QBS \<Rightarrow> Inr (CacheSetLRU_new associativity blocksize (getNumQBSAttempts attempts policy) fault_injection ifLeader)
     | _ \<Rightarrow> Inl LogError)"

definition createCacheSetInfo :: "int \<Rightarrow> string \<Rightarrow> nat \<Rightarrow> CacheSetInfoLRU option res" where
  "createCacheSetInfo attempts policy_name associativity =
     rbind (parsePolicyType policy_name) (\<lambda>policy.
     Inr (if policy \<in> {LRU, LRU_QBS, SRRIP, SRRIP_QBS}
          then Some (CacheSetInfoLRU_new associativity (unat (getNumQBSAttempts attempts policy)))
          else None))"

subsection \<open>State and construction\<close>

datatype access_t = LOAD | STORE

datatype cache_t = PR_L1_CACHE | PR_L2_CACHE | SHARED_CACHE

record cache =
  c_base :: CacheBase
  m_enabled :: bool
  m_num_accesses :: u64
  m_num_hits :: u64
  m_cache_type :: cache_t
  m_sets :: "lru_set list"
  m_set_info :: CacheSetInfoLRU
  m_fault_injector :: "FaultInjector option"
  p_num_modules :: int
  isSubWayOn :: "bool list list"
  L2Hits :: "u64 list list"
  ALPHA :: u64
  BETA :: u64
  p_module_size :: int
  p_atds_per_module :: int
  p_sampling_ratio :: int
  p_total_atds :: int
  W_min :: nat

fun leader_flags :: "int \<Rightarrow> nat \<Rightarrow> nat \<Rightarrow> int \<Rightarrow> bool list" where
  \<comment> \<open>the \<open>ifLeader\<close> arguments of the constructor loop from set \<open>i\<close> on, \<open>n\<close> sets to go\<close>
  "leader_flags atds i 0 a_index = []"
| "leader_flags atds i (Suc n) a_index =
     (if a_index \<le> atds \<and> int i = a_index * 64 - 1
      then True # leader_flags atds (Suc i) n (a_index + 1)
      else False # leader_flags atds (Suc i) n a_index)"

fun create_sets :: "(bool \<Rightarrow> lru_set res) \<Rightarrow> bool list \<Rightarrow> lru_set list res" where
  "create_sets mk [] = Inr []"
| "create_sets mk (f # fs) = rbind (mk f) (\<lambda>s. rbind (create_sets mk fs) (\<lambda>ss. Inr (s # ss)))"

definition num_modules :: "u32 \<Rightarrow> int" where
  "num_modules num_sets =
     (if num_sets = 4096 then 8 else if num_sets = 8192 then 16 else if num_sets = 16384 then 32 else - 1)"

definition Cache_new ::
    "(string \<Rightarrow> int) \<Rightarrow> int \<Rightarrow> bool \<Rightarrow> string \<Rightarrow> u32 \<Rightarrow> u32 \<Rightarrow> u32 \<Rightarrow> string \<Rightarrow> cache_t \<Rightarrow> hash_t \<Rightarrow>
     FaultInjector option \<Rightarrow> AddressHomeLookup option \<Rightarrow> cache res" where
  "Cache_new indet attempts fault_injection name num_sets associativity cache_block_size
     policy_name cache_type hash fault_injector ahl =
     rbind (CacheBase_new name num_sets associativity cache_block_size hash ahl) (\<lambda>base.
     let shared = (cache_type = SHARED_CACHE);
         modules = (if shared then num_modules num_sets else indet ''p_num_modules'');
         flex = (shared \<and> modules \<noteq> - 1);
         atds = (if flex then int (unat num_sets) div 64 else indet ''p_total_atds'');
         assoc = unat associativity
     in rbind (createCacheSetInfo attempts policy_name assoc) (\<lambda>info.
        rbind (create_sets
                 (createCacheSet attempts fault_injection policy_name assoc (unat cache_block_size))
                 (leader_flags atds 0 (unat num_sets) 1)) (\<lambda>sets.
        case info of
          None \<Rightarrow> Inl LogError \<comment> \<open>\<open>createCacheSet\<close> has already stopped for such a policy\<close>
        | Some info \<Rightarrow>
            Inr \<lparr>c_base = base, m_enabled = False, m_num_accesses = 0, m_num_hits = 0,
                 m_cache_type = cache_type, m_sets = sets, m_set_info = info, m_fault_injector = fault_injector,
                 p_num_modules = modules,
                 isSubWayOn = (if flex then replicate (nat modules) (replicate assoc True) else []),
                 L2Hits = (if flex then replicate (nat modules) (replicate assoc 0) else []),
                 ALPHA = (if shared then 5 else of_int (indet ''ALPHA'')),
                 BETA = (if shared then 55 else of_int (indet ''BETA'')),
                 p_module_size = (if flex then int (unat num_sets) div modules else indet ''p_module_size''),
                 p_atds_per_module = (if flex then atds div modules else indet ''p_atds_per_module''),
                 p_sampling_ratio = (if shared then 64 else indet ''p_sampling_ratio''),
                 p_total_atds = atds,
                 W_min = (if shared then 2 else nat (indet ''W_min''))\<rparr>)))"

subsection \<open>Operations\<close>

definition upd_set :: "cache \<Rightarrow> nat \<Rightarrow> lru_set \<Rightarrow> cache" where
  "upd_set c i s = c\<lparr>m_sets := (m_sets c)[i := s]\<rparr>"

definition nth_int :: "'a list \<Rightarrow> int \<Rightarrow> 'a res" where
  "nth_int xs i = (if 0 \<le> i then nth_res xs (nat i) else Inl Undefined)"

definition getModuleIndex :: "cache \<Rightarrow> u32 \<Rightarrow> int" where
  "getModuleIndex c set_index =
     (let m_set_index = sint set_index in
      case first_index (\<lambda>i. m_set_index < p_module_size c * (int i + 1) \<and> m_set_index \<ge> p_module_size c * int i)
             (nat (p_num_modules c)) of
        Some i \<Rightarrow> int i
      | None \<Rightarrow> - 1)"

definition invalidateSingleLine :: "cache \<Rightarrow> IntPtr \<Rightarrow> (bool \<times> cache) res" where
  "invalidateSingleLine c addr =
     rbind (splitAddress (c_base c) addr) (\<lambda>(tag, set_index).
     rbind (ensure AssertFailed (set_index < cb_num_sets (c_base c))) (\<lambda>_.
     rbind (nth_res (m_sets c) (unat set_index)) (\<lambda>s.
     case set_invalidate s tag of (r, s) \<Rightarrow> Inr (r, upd_set c (unat set_index) s))))"

definition fault_location :: "cache \<Rightarrow> u32 \<Rightarrow> nat \<Rightarrow> IntPtr" where
  \<comment> \<open>\<open>set_index * m_associativity + line_index\<close> in \<open>UInt32\<close>\<close>
  "fault_location c set_index line_index =
     ucast (set_index * cb_associativity (c_base c) + of_nat line_index)"

definition inject ::
    "(FaultInjector \<Rightarrow> IntPtr \<Rightarrow> IntPtr \<Rightarrow> u32 \<Rightarrow> u8 list \<Rightarrow> u64 \<Rightarrow> (u8 list \<times> FaultInjector) res) \<Rightarrow>
     cache \<Rightarrow> IntPtr \<Rightarrow> u32 \<Rightarrow> nat \<Rightarrow> nat \<Rightarrow> u32 \<Rightarrow> u64 \<Rightarrow> cache res" where
  \<comment> \<open>\<open>if (m_fault_injector) m_fault_injector->callback(\<dots>, getDataPtr(line_index, offset), now)\<close>\<close>
  "inject callback c addr set_index line_index offset bytes now =
     (case m_fault_injector c of
        None \<Rightarrow> Inr c
      | Some fi \<Rightarrow>
          rbind (nth_res (m_sets c) (unat set_index)) (\<lambda>s.
          case m_blocks s of
            None \<Rightarrow> Inl Undefined
          | Some blocks \<Rightarrow>
              let p = data_pos s line_index offset in
              rbind (ensure Undefined (p \<le> length blocks)) (\<lambda>_.
              rbind (callback fi addr (fault_location c set_index line_index) bytes (drop p blocks) now) (\<lambda>(d, fi).
              Inr ((upd_set c (unat set_index) (s\<lparr>m_blocks := Some (take p blocks @ d)\<rparr>))
                     \<lparr>m_fault_injector := Some fi\<rparr>)))))"

definition accessSingleLine ::
    "cache \<Rightarrow> IntPtr \<Rightarrow> access_t \<Rightarrow> u8 list option \<Rightarrow> nat \<Rightarrow> u64 \<Rightarrow> bool \<Rightarrow>
     ((nat \<times> nat) option \<times> u8 list option \<times> cache) res" where
  "accessSingleLine c addr access_type buff bytes now update_replacement =
     rbind (splitAddress_offset (c_base c) addr) (\<lambda>(tag, set_index, block_offset).
     rbind (nth_res (m_sets c) (unat set_index)) (\<lambda>s.
     case find_line s tag of
       None \<Rightarrow> Inr (None, buff, c)
     | Some line_index \<Rightarrow>
         (case access_type of
            LOAD \<Rightarrow>
              rbind (inject preRead c addr set_index line_index (unat block_offset) (of_nat bytes) now) (\<lambda>c.
              rbind (nth_res (m_sets c) (unat set_index)) (\<lambda>s.
              rbind (read_line updateReplacementIndex (m_set_info c) s line_index (unat block_offset) buff bytes
                       update_replacement) (\<lambda>(buff, info, s).
              Inr (Some (unat set_index, line_index), buff, (upd_set c (unat set_index) s)\<lparr>m_set_info := info\<rparr>))))
          | STORE \<Rightarrow>
              rbind (write_line updateReplacementIndex (m_set_info c) s line_index (unat block_offset) buff bytes
                       update_replacement) (\<lambda>(info, s).
              rbind (inject postWrite ((upd_set c (unat set_index) s)\<lparr>m_set_info := info\<rparr>)
                       addr set_index line_index (unat block_offset) (of_nat bytes) now) (\<lambda>c.
              Inr (Some (unat set_index, line_index), buff, c))))))"

definition after_insert ::
    "cache \<Rightarrow> IntPtr \<Rightarrow> IntPtr \<Rightarrow> u32 \<Rightarrow> u64 \<Rightarrow> cache res" where
  \<comment> \<open>the fault-injection part that ends each branch of \<open>insertSingleLine\<close>\<close>
  "after_insert c addr tag set_index now =
     (case m_fault_injector c of
        None \<Rightarrow> Inr c
      | Some _ \<Rightarrow>
          rbind (nth_res (m_sets c) (unat set_index)) (\<lambda>s.
          case find_line s tag of
            None \<Rightarrow> Inl AssertFailed
          | Some line_index \<Rightarrow>
              inject postWrite c addr set_index line_index 0 (of_nat (m_blocksize s)) now))"

definition insertSingleLine ::
    "cache \<Rightarrow> IntPtr \<Rightarrow> u8 list option \<Rightarrow> cache_block_info \<Rightarrow> u8 list option \<Rightarrow> u64 \<Rightarrow> bool \<Rightarrow>
     (evicted \<times> IntPtr \<times> cache) res" where
  \<comment> \<open>returns \<open>*eviction\<close>, \<open>*evict_block_info\<close> and \<open>evict_buff\<close>, and \<open>*evict_addr\<close>\<close>
  "insertSingleLine c addr fill_buff evict_block_info0 evict_buff0 now isShared =
     rbind (splitAddress (c_base c) addr) (\<lambda>(tag, set_index).
     let cache_block_info = CacheBlockInfo_create\<lparr>m_tag := tag\<rparr> in
     rbind (nth_res (m_sets c) (unat set_index)) (\<lambda>s.
     rbind (if isShared \<and> \<not> isLeader s
            then rbind (nth_int (isSubWayOn c) (getModuleIndex c set_index)) (\<lambda>isSubWay.
                 insertFlex getReplacementIndexFlex (m_set_info c) s cache_block_info fill_buff
                   evict_block_info0 evict_buff0 isSubWay)
            else set_insert getReplacementIndex (m_set_info c) s cache_block_info fill_buff
                   evict_block_info0 evict_buff0) (\<lambda>(ev, info, s).
     let evict_addr = tagToAddress (c_base c) (m_tag (evict_block_info ev)) in
     rbind (after_insert ((upd_set c (unat set_index) s)\<lparr>m_set_info := info\<rparr>) addr tag set_index now) (\<lambda>c.
     Inr (ev, evict_addr, c)))))"

definition count_hit :: "u64 list list \<Rightarrow> nat \<Rightarrow> nat \<Rightarrow> u64 list list" where
  "count_hit hits module_index line_index =
     hits[module_index := (hits ! module_index)[line_index := hits ! module_index ! line_index + 1]]"

definition peekSingleLine :: "cache \<Rightarrow> IntPtr \<Rightarrow> bool \<Rightarrow> bool \<Rightarrow> ((nat \<times> nat) option \<times> cache) res" where
  "peekSingleLine c addr isShared isFlexOp =
     rbind (splitAddress (c_base c) addr) (\<lambda>(tag, set_index).
     rbind (nth_res (m_sets c) (unat set_index)) (\<lambda>s.
     if isShared
     then let module_index = getModuleIndex c set_index in
          rbind (nth_int (isSubWayOn c) module_index) (\<lambda>isSubWay.
          case findFlex s tag isSubWay (isLeader s) of
            None \<Rightarrow> Inr (None, c)
          | Some line_index \<Rightarrow>
              if isFlexOp
              then rbind (nth_int (L2Hits c) module_index) (\<lambda>row.
                   rbind (nth_res row line_index) (\<lambda>_.
                   Inr (Some (unat set_index, line_index),
                        c\<lparr>L2Hits := count_hit (L2Hits c) (nat module_index) line_index\<rparr>)))
              else Inr (Some (unat set_index, line_index), c))
     else Inr (map_option (\<lambda>line_index. (unat set_index, line_index)) (find_line s tag), c)))"

definition updateCounters :: "cache \<Rightarrow> bool \<Rightarrow> cache" where
  "updateCounters c cache_hit =
     (if m_enabled c
      then (let c = c\<lparr>m_num_accesses := m_num_accesses c + 1\<rparr>
            in if cache_hit then c\<lparr>m_num_hits := m_num_hits c + 1\<rparr> else c)
      else c)"

definition updateHits :: "cache \<Rightarrow> u64 \<Rightarrow> cache" where
  "updateHits c hits =
     (if m_enabled c
      then c\<lparr>m_num_accesses := m_num_accesses c + hits, m_num_hits := m_num_hits c + hits\<rparr>
      else c)"

definition insertSingleLineAt ::
    "cache \<Rightarrow> nat \<Rightarrow> nat \<Rightarrow> nat \<Rightarrow> u8 list option \<Rightarrow> cache_block_info \<Rightarrow> u8 list option \<Rightarrow>
     (evicted \<times> IntPtr \<times> cache) res" where
  "insertSingleLineAt c set_index insert_index replace_index fill_buff evict_block_info0 evict_buff0 =
     rbind (nth_res (m_sets c) set_index) (\<lambda>s.
     rbind (nth_res (m_cache_block_info_array s) insert_index) (\<lambda>b.
     let cache_block_info = block_clone CacheBlockInfo_create b in
     rbind (insertAt s replace_index cache_block_info fill_buff evict_block_info0 evict_buff0) (\<lambda>(ev, s).
     Inr (ev, tagToAddress (c_base c) (m_tag (evict_block_info ev)), upd_set c set_index s))))"

subsection \<open>Leader sets and construction\<close>

lemma leader_flags_length [simp]: "length (leader_flags atds i n a) = n"
  by (induction n arbitrary: i a) simp_all

lemma leader_flags_nth:
  assumes "a = int (i div 64) + 1 \<or> atds < a \<and> atds \<le> int (i div 64)" and "j < n"
  shows "leader_flags atds i n a ! j \<longleftrightarrow> (i + j) mod 64 = 63 \<and> int ((i + j) div 64) < atds"
  using assms
proof (induction n arbitrary: i a j)
  case (Suc n)
  define q r where "q = i div 64" and "r = i mod 64"
  have i: "i = 64 * q + r" "r < 64" by (simp_all add: q_def r_def)
  let ?L = "a \<le> atds \<and> int i = a * 64 - 1"
  note a = Suc.prems(1) [folded q_def]
  have L: "?L \<longleftrightarrow> r = 63 \<and> int q < atds"
    using a i by linarith
  have q': "Suc i div 64 = (if r = 63 then q + 1 else q)"
  proof (cases "r = 63")
    case True
    then have "Suc i = 64 * (q + 1)" using i by simp
    with True show ?thesis by simp
  next
    case False
    then have "Suc i = 64 * q + (r + 1)" "r + 1 < 64" using i by simp_all
    with False show ?thesis by simp
  qed
  have inv: "(if ?L then a + 1 else a) = int (Suc i div 64) + 1 \<or>
      atds < (if ?L then a + 1 else a) \<and> atds \<le> int (Suc i div 64)"
  proof (cases ?L)
    case True
    then have "r = 63" "a = int q + 1" using L a by linarith+
    with True show ?thesis unfolding q' by simp
  next
    case False
    then show ?thesis using L a unfolding q' by (cases "r = 63"; simp; linarith)
  qed
  show ?case
  proof (cases j)
    case 0
    with L show ?thesis by (simp add: q_def r_def)
  next
    case (Suc j')
    have "leader_flags atds i (Suc n) a ! j = leader_flags atds (Suc i) n (if ?L then a + 1 else a) ! j'"
      using Suc by simp
    also have "\<dots> \<longleftrightarrow> (Suc i + j') mod 64 = 63 \<and> int ((Suc i + j') div 64) < atds"
      using Suc.prems(2) Suc by (intro Suc.IH [OF inv]) simp
    finally show ?thesis using Suc by simp
  qed
qed simp

lemma leader_every_64:
  assumes "n = 64 * k" and "j < n"
  shows "leader_flags (int n div 64) 0 n 1 ! j \<longleftrightarrow> j mod 64 = 63"
proof -
  have "int n div 64 = int k" unfolding assms(1) by simp
  moreover have "j div 64 < k" using assms by (simp add: div_less_iff_less_mult mult.commute)
  ultimately show ?thesis using leader_flags_nth [of 1 0 "int n div 64" j n] assms(2) by simp
qed

lemma create_sets_Inr:
  assumes "create_sets mk fs = Inr ss"
  shows "length ss = length fs" and "\<forall>j < length fs. mk (fs ! j) = Inr (ss ! j)"
proof -
  have "length ss = length fs \<and> (\<forall>j < length fs. mk (fs ! j) = Inr (ss ! j))"
    using assms
  proof (induction fs arbitrary: ss)
    case (Cons f fs)
    then show ?case by (auto simp: nth_Cons split: nat.split)
  qed simp
  then show "length ss = length fs" and "\<forall>j < length fs. mk (fs ! j) = Inr (ss ! j)" by auto
qed

lemma create_sets_total: "\<forall>f. \<exists>s. mk f = Inr s \<Longrightarrow> \<exists>ss. create_sets mk fs = Inr ss"
proof (induction fs)
  case (Cons f fs)
  then obtain s ss where "mk f = Inr s" "create_sets mk fs = Inr ss" by blast
  then show ?case by simp
qed simp

subsection \<open>The cache as a map\<close>

text \<open>The set a tag belongs to, \<open>None\<close> for words that are not the tag of any address.\<close>

definition tag_home :: "CacheBase \<Rightarrow> IntPtr \<Rightarrow> nat option" where
  "tag_home b t =
     (case splitAddress b (tagToAddress b t) of
        Inr (t', i) \<Rightarrow> if t' = t then Some (unat i) else None
      | Inl _ \<Rightarrow> None)"

definition cache_map :: "cache \<Rightarrow> (IntPtr \<rightharpoonup> cache_block_info)" where
  "cache_map c t = (case tag_home (c_base c) t of None \<Rightarrow> None | Some i \<Rightarrow> contents (m_sets c ! i) t)"

definition set_ok :: "CacheBase \<Rightarrow> nat \<Rightarrow> lru_set \<Rightarrow> bool" where
  "set_ok b i s \<longleftrightarrow> set_wf s \<and> ages_ok s \<and> tags_unique s \<and>
     m_associativity s = unat (cb_associativity b) \<and> m_blocksize s = unat (cb_blocksize b) \<and>
     (\<forall>u. contents s u \<noteq> None \<longrightarrow> tag_home b u = Some i)"

definition cache_wf :: "cache \<Rightarrow> bool" where
  "cache_wf c \<longleftrightarrow> CacheBase_wf (c_base c) \<and> length (m_sets c) = unat (cb_num_sets (c_base c)) \<and>
     length (m_access (m_set_info c)) = unat (cb_associativity (c_base c)) \<and>
     (\<forall>i < length (m_sets c). set_ok (c_base c) i (m_sets c ! i) \<and>
        (m_fault_injector c \<noteq> None \<longrightarrow> m_blocks (m_sets c ! i) \<noteq> None))"

text \<open>What a shared cache with reconfigurable ways keeps in addition.\<close>

definition lines_enabled :: "bool list \<Rightarrow> 'r cache_set \<Rightarrow> bool" where
  "lines_enabled sub s \<longleftrightarrow> (\<forall>w < m_associativity s. isValid (m_cache_block_info_array s ! w) \<longrightarrow> sub ! w)"

definition flex_shape :: "cache \<Rightarrow> bool" where
  "flex_shape c \<longleftrightarrow>
     0 < p_module_size c \<and> 0 \<le> p_num_modules c \<and>
     p_module_size c * p_num_modules c = int (length (m_sets c)) \<and> length (m_sets c) < 2 ^ 31 \<and>
     8 \<le> unat (cb_associativity (c_base c)) \<and>
     length (isSubWayOn c) = nat (p_num_modules c) \<and> length (L2Hits c) = nat (p_num_modules c) \<and>
     (\<forall>m < nat (p_num_modules c).
        length (isSubWayOn c ! m) = unat (cb_associativity (c_base c)) \<and> isSubWayOn c ! m ! 0 \<and>
        length (L2Hits c ! m) = unat (cb_associativity (c_base c)))"

definition flex_wf :: "cache \<Rightarrow> bool" where
  "flex_wf c \<longleftrightarrow> flex_shape c \<and>
     (\<forall>i < length (m_sets c). \<not> isLeader (m_sets c ! i) \<longrightarrow>
        lines_enabled (isSubWayOn c ! (i div nat (p_module_size c))) (m_sets c ! i))"

lemma drop_push_drop: "drop_bit k (push_bit k (drop_bit k (x :: 'a::len word))) = drop_bit k x"
  by (rule bit_eqI) (auto simp: bit_simps dest: bit_imp_le_length)

lemma tag_home_split:
  assumes "CacheBase_wf b" and "splitAddress b addr = Inr (t, i)"
  shows "tag_home b t = Some (unat i)" and "i < cb_num_sets b"
proof -
  obtain j where j: "splitAddress b addr = Inr (drop_bit (unat (cb_log_blocksize b)) addr, j)" "j < cb_num_sets b"
    using splitAddress_ok [OF assms(1)] by blast
  then have t: "t = drop_bit (unat (cb_log_blocksize b)) addr" "i = j" using assms(2) by auto
  have "splitAddress b (tagToAddress b t) = splitAddress b addr"
    unfolding t by (rule splitAddress_same_block [OF assms(1)]) (simp add: tagToAddress_def drop_push_drop)
  with assms(2) show "tag_home b t = Some (unat i)" by (simp add: tag_home_def)
  show "i < cb_num_sets b" using j t by simp
qed

lemma tag_home_less:
  assumes "CacheBase_wf b" and "tag_home b t = Some i"
  shows "i < unat (cb_num_sets b)"
proof -
  obtain j where "splitAddress b (tagToAddress b t) = Inr (t, j)" "i = unat j"
    using assms(2) by (auto simp: tag_home_def split: sum.splits if_splits)
  with tag_home_split(2) [OF assms(1)] show ?thesis by (simp add: word_less_nat_alt)
qed

lemma cache_wf_set:
  assumes "cache_wf c" and "splitAddress (c_base c) addr = Inr (t, i)"
  shows "unat i < length (m_sets c)" and "nth_res (m_sets c) (unat i) = Inr (m_sets c ! unat i)"
    and "set_ok (c_base c) (unat i) (m_sets c ! unat i)" and "tag_home (c_base c) t = Some (unat i)"
    and "cache_map c t = contents (m_sets c ! unat i) t"
    and "m_fault_injector c \<noteq> None \<Longrightarrow> m_blocks (m_sets c ! unat i) \<noteq> None"
proof -
  note wf = assms(1) [unfolded cache_wf_def]
  note h = tag_home_split [OF conjunct1 [OF wf] assms(2)]
  show i: "unat i < length (m_sets c)" using h(2) wf by (simp add: word_less_nat_alt)
  then show "nth_res (m_sets c) (unat i) = Inr (m_sets c ! unat i)" by (simp add: nth_res_def)
  show "set_ok (c_base c) (unat i) (m_sets c ! unat i)" using wf i by blast
  show "tag_home (c_base c) t = Some (unat i)" by (fact h(1))
  then show "cache_map c t = contents (m_sets c ! unat i) t" by (simp add: cache_map_def)
  show "m_fault_injector c \<noteq> None \<Longrightarrow> m_blocks (m_sets c ! unat i) \<noteq> None" using wf i by blast
qed

lemma upd_set_fields [simp]:
  "c_base (upd_set c i s) = c_base c" "m_set_info (upd_set c i s) = m_set_info c"
  "m_fault_injector (upd_set c i s) = m_fault_injector c" "m_sets (upd_set c i s) = (m_sets c)[i := s]"
  by (simp_all add: upd_set_def)

lemma cache_wf_upd:
  assumes "cache_wf c" and "set_ok (c_base c) i s" and "m_fault_injector c \<noteq> None \<Longrightarrow> m_blocks s \<noteq> None"
  shows "cache_wf (upd_set c i s)"
proof -
  have "set_ok (c_base c) j ((m_sets c)[i := s] ! j) \<and>
      (m_fault_injector c \<noteq> None \<longrightarrow> m_blocks ((m_sets c)[i := s] ! j) \<noteq> None)" if "j < length (m_sets c)" for j
    using assms that unfolding cache_wf_def by (cases "j = i") auto
  with assms(1) show ?thesis by (simp add: cache_wf_def)
qed

lemma cache_wf_info:
  "cache_wf c \<Longrightarrow> length (m_access info) = unat (cb_associativity (c_base c)) \<Longrightarrow> cache_wf (c\<lparr>m_set_info := info\<rparr>)"
  by (simp add: cache_wf_def)

lemma cache_map_upd:
  assumes "i < length (m_sets c)"
  shows "cache_map (upd_set c i s) t = (if tag_home (c_base c) t = Some i then contents s t else cache_map c t)"
  using assms by (auto simp: cache_map_def split: option.split)

lemma cache_map_cong: "c_base c' = c_base c \<Longrightarrow> m_sets c' = m_sets c \<Longrightarrow> cache_map c' = cache_map c"
  by (intro ext) (simp add: cache_map_def split: option.split)

subsection \<open>Modules\<close>

lemma sint_small:
  assumes "unat (x :: u32) < 2 ^ 31"
  shows "sint x = int (unat x)"
proof -
  have "int (unat x) < int (2 ^ 31)" using assms by (simp only: of_nat_less_iff)
  then have "uint x < 2 ^ 31" by simp
  then have "signed_take_bit 31 (uint x) = uint x"
    by (intro signed_take_bit_int_eq_self) (use uint_ge_0 [of x] in linarith)+
  then show ?thesis by (simp add: sint_uint)
qed

lemma getModuleIndex_eq:
  assumes "flex_shape c" and "unat si < length (m_sets c)"
  shows "getModuleIndex c si = int (unat si div nat (p_module_size c))"
    and "unat si div nat (p_module_size c) < nat (p_num_modules c)"
proof -
  define z n where "z = nat (p_module_size c)" and "n = nat (p_num_modules c)"
  let ?k = "unat si div z"
  have pz: "p_module_size c = int z" "p_num_modules c = int n" "0 < z"
    using conjunct1 [OF assms(1) [unfolded flex_shape_def]] conjunct1 [OF conjunct2 [OF assms(1) [unfolded flex_shape_def]]]
    by (simp_all add: z_def n_def)
  have "int z * int n = int (length (m_sets c))" and small: "length (m_sets c) < 2 ^ 31"
    using assms(1) unfolding flex_shape_def pz by blast+
  then have zn: "z * n = length (m_sets c)"
    by (simp only: of_nat_mult [symmetric] of_nat_eq_iff)
  have k: "?k < n" by (rule less_mult_imp_div_less) (use assms(2) zn in \<open>simp add: mult.commute\<close>)
  have si: "sint si = int (unat si)" using assms(2) small by (intro sint_small) linarith
  have e: "int z * (int j + 1) = int (z * (j + 1))" "int z * int j = int (z * j)" for j by (simp_all add: distrib_left)
  have lo: "z * ?k \<le> unat si" and hi: "unat si < z * (?k + 1)"
    using pz(3) by (simp_all add: dividend_less_times_div)
  have f: "first_index (\<lambda>i. sint si < p_module_size c * (int i + 1) \<and> sint si \<ge> p_module_size c * int i)
      (nat (p_num_modules c)) = Some ?k"
  proof (rule first_index_eqI)
    show "?k < nat (p_num_modules c)" using k pz by simp
    show "sint si < p_module_size c * (int ?k + 1) \<and> sint si \<ge> p_module_size c * int ?k"
      unfolding si pz e of_nat_less_iff of_nat_le_iff using lo hi by blast
  next
    fix j assume "j < ?k"
    then have "z * (j + 1) \<le> z * ?k" by (intro mult_left_mono) simp_all
    then have "\<not> unat si < z * (j + 1)" using lo by linarith
    then show "\<not> (sint si < p_module_size c * (int j + 1) \<and> sint si \<ge> p_module_size c * int j)"
      unfolding si pz e of_nat_less_iff of_nat_le_iff by blast
  qed
  show "getModuleIndex c si = int (unat si div nat (p_module_size c))"
    unfolding getModuleIndex_def Let_def f by (simp add: z_def)
  show "unat si div nat (p_module_size c) < nat (p_num_modules c)"
    using k by (simp add: z_def n_def)
qed

lemma nth_int_nat: "i < length xs \<Longrightarrow> nth_int xs (int i) = Inr (xs ! i)"
  by (simp add: nth_int_def nth_res_def)

lemma flex_row:
  assumes "flex_shape c" and "unat si < length (m_sets c)"
  defines "m \<equiv> unat si div nat (p_module_size c)"
  shows "nth_int (isSubWayOn c) (getModuleIndex c si) = Inr (isSubWayOn c ! m)"
    and "nth_int (L2Hits c) (getModuleIndex c si) = Inr (L2Hits c ! m)"
    and "isSubWayOn c ! m ! 0" and "length (isSubWayOn c ! m) = unat (cb_associativity (c_base c))"
    and "length (L2Hits c ! m) = unat (cb_associativity (c_base c))"
proof -
  note k = getModuleIndex_eq [OF assms(1,2), folded m_def]
  note w = assms(1) [unfolded flex_shape_def]
  show "nth_int (isSubWayOn c) (getModuleIndex c si) = Inr (isSubWayOn c ! m)"
    and "nth_int (L2Hits c) (getModuleIndex c si) = Inr (L2Hits c ! m)"
    unfolding k(1) using w k(2) by (simp_all add: nth_int_nat)
  show "isSubWayOn c ! m ! 0" "length (isSubWayOn c ! m) = unat (cb_associativity (c_base c))"
    "length (L2Hits c ! m) = unat (cb_associativity (c_base c))"
    using w k(2) by blast+
qed

lemma flex_wf_shape: "flex_wf c \<Longrightarrow> flex_shape c"
  by (simp add: flex_wf_def)

lemma flex_wf_lines:
  "flex_wf c \<Longrightarrow> i < length (m_sets c) \<Longrightarrow> \<not> isLeader (m_sets c ! i) \<Longrightarrow>
   lines_enabled (isSubWayOn c ! (i div nat (p_module_size c))) (m_sets c ! i)"
  by (simp add: flex_wf_def)

lemma upd_set_flex [simp]:
  "p_module_size (upd_set c i s) = p_module_size c" "p_num_modules (upd_set c i s) = p_num_modules c"
  "isSubWayOn (upd_set c i s) = isSubWayOn c" "L2Hits (upd_set c i s) = L2Hits c"
  by (simp_all add: upd_set_def)

lemma flex_shape_upd [simp]: "flex_shape (upd_set c i s) = flex_shape c"
  by (simp add: flex_shape_def)

lemma flex_wf_upd:
  assumes "flex_wf c" and "isLeader s = isLeader (m_sets c ! i)"
    and "\<not> isLeader s \<Longrightarrow> lines_enabled (isSubWayOn c ! (i div nat (p_module_size c))) s"
  shows "flex_wf (upd_set c i s)"
proof -
  have "lines_enabled (isSubWayOn c ! (j div nat (p_module_size c))) ((m_sets c)[i := s] ! j)"
    if "j < length (m_sets c)" "\<not> isLeader ((m_sets c)[i := s] ! j)" for j
    using assms that unfolding flex_wf_def by (cases "j = i") auto
  with assms(1) show ?thesis by (simp add: flex_wf_def)
qed

lemma flex_wf_info: "flex_wf (c\<lparr>m_set_info := info\<rparr>) = flex_wf c"
  by (simp add: flex_wf_def flex_shape_def)

subsection \<open>Insertion\<close>

lemma inject_postWrite:
  assumes "cache_wf c" and "splitAddress (c_base c) addr = Inr (t, i)"
    and "line < m_associativity (m_sets c ! unat i)" and "off \<le> m_blocksize (m_sets c ! unat i)"
  shows "inject postWrite c addr i line off n now = Inr c"
proof (cases "m_fault_injector c")
  case None
  then show ?thesis by (simp add: inject_def)
next
  case (Some fi)
  note s = cache_wf_set [OF assms(1,2)]
  let ?s = "m_sets c ! unat i"
  obtain blocks where b: "m_blocks ?s = Some blocks" using s(6) Some by auto
  have wf: "set_wf ?s" using s(3) by (simp add: set_ok_def)
  have "data_pos ?s line off \<le> line * m_blocksize ?s + off"
    by (simp add: data_pos_def)
  also have "\<dots> \<le> m_associativity ?s * m_blocksize ?s"
    using data_pos_line(2) [OF wf assms(3)] assms(4) by linarith
  finally have p: "data_pos ?s line off \<le> length blocks" using wf b by (simp add: set_wf_def)
  have "?s\<lparr>m_blocks := Some blocks\<rparr> = ?s" using b by (cases ?s) simp
  then have "(upd_set c (unat i) (?s\<lparr>m_blocks := Some blocks\<rparr>))\<lparr>m_fault_injector := Some fi\<rparr> = c"
    using Some by (cases c) (simp add: upd_set_def)
  with p b s(2) Some show ?thesis
    by (simp add: inject_def postWrite_def Let_def)
qed

lemma cache_line_facts:
  "t \<noteq> - 1 \<Longrightarrow> isValid (CacheBlockInfo_create\<lparr>m_tag := t\<rparr>)" "m_tag (CacheBlockInfo_create\<lparr>m_tag := t\<rparr>) = t"
  by (simp_all add: isValid_def)

lemma set_insert_info:
  assumes "0 < m_associativity s" and "set_insert getReplacementIndex info s b fb ei eb = Inr (ev, info', s')"
  shows "info' = info" and "isLeader s' = isLeader s" and "m_blocks s \<noteq> None \<Longrightarrow> m_blocks s' \<noteq> None"
    and "m_blocksize s' = m_blocksize s" and "m_associativity s' = m_associativity s"
    and "\<And>w. m_cache_block_info_array s' ! w \<in> {m_cache_block_info_array s ! w, b}"
proof -
  obtain k s1 where g: "getReplacementIndex info s = Inr (k, info', s1)" and i: "insertAt s1 k b fb ei eb = Inr (ev, s')"
    using assms(2) by (auto simp: set_insert_def)
  note r = getReplacementIndex_range [OF assms(1) g]
  show "info' = info" by (fact r(3))
  show "isLeader s' = isLeader s" "m_blocksize s' = m_blocksize s" "m_associativity s' = m_associativity s"
    using insertAt_SomeD(2) [OF i] unfolding r(2) by (auto simp: moveToMRU_def set_bits_def)
  obtain d where "m_cache_block_info_array s' = (m_cache_block_info_array s)[k := b]"
    using insertAt_SomeD(2) [OF i] unfolding r(2) by (auto simp: moveToMRU_def set_bits_def)
  then show "m_cache_block_info_array s' ! w \<in> {m_cache_block_info_array s ! w, b}" for w
    by (simp add: list_update_nth)
  show "m_blocks s \<noteq> None \<Longrightarrow> m_blocks s' \<noteq> None"
    using i unfolding r(2) by (auto simp: insertAt_def Let_def moveToMRU_def set_bits_def split: if_splits option.splits)
qed

lemma insertFlex_info:
  assumes "8 \<le> m_associativity s" and "sub ! 0"
    and "insertFlex getReplacementIndexFlex info s b fb ei eb sub = Inr (ev, info', s')"
  shows "info' = info" and "isLeader s' = isLeader s" and "m_blocks s \<noteq> None \<Longrightarrow> m_blocks s' \<noteq> None"
    and "m_blocksize s' = m_blocksize s" and "m_associativity s' = m_associativity s"
    and "\<And>w. \<not> sub ! w \<Longrightarrow> m_cache_block_info_array s' ! w = m_cache_block_info_array s ! w"
    and "\<And>w. m_cache_block_info_array s' ! w \<in> {m_cache_block_info_array s ! w, b}"
proof -
  obtain k s1 where g: "getReplacementIndexFlex info sub s = Inr (k, info', s1)" and i: "insertAt s1 k b fb ei eb = Inr (ev, s')"
    using assms(3) by (auto simp: insertFlex_def)
  note r = getReplacementIndexFlex_eq [OF g]
  have k: "sub ! k" using getReplacementIndexFlex_enabled(2) [OF g assms(2)] assms(1) by simp
  show "info' = info" by (fact r(2))
  obtain d where s': "s' = (moveToMRUFlex k sub s)\<lparr>m_cache_block_info_array := (m_cache_block_info_array s)[k := b], m_blocks := d\<rparr>"
    using insertAt_SomeD(2) [OF i] unfolding r(1) by auto
  show "isLeader s' = isLeader s" "m_blocksize s' = m_blocksize s" "m_associativity s' = m_associativity s"
    unfolding s' by (simp_all add: moveToMRUFlex_def set_bits_def)
  show "m_blocks s \<noteq> None \<Longrightarrow> m_blocks s' \<noteq> None"
    using i unfolding r(1) by (auto simp: insertAt_def Let_def moveToMRUFlex_def set_bits_def split: if_splits option.splits)
  show "m_cache_block_info_array s' ! w = m_cache_block_info_array s ! w" if "\<not> sub ! w" for w
    unfolding s' using that k by (cases "w = k") auto
  show "m_cache_block_info_array s' ! w \<in> {m_cache_block_info_array s ! w, b}" for w
    by (simp add: s' list_update_nth)
qed

lemma lines_enabled_keep:
  assumes "lines_enabled sub s" and "m_associativity s' = m_associativity s"
    and "\<And>w. w < m_associativity s \<Longrightarrow> \<not> sub ! w \<Longrightarrow> m_cache_block_info_array s' ! w = m_cache_block_info_array s ! w"
  shows "lines_enabled sub s'"
  using assms unfolding lines_enabled_def by metis

text \<open>What both insertions leave behind in the set of the inserted tag.\<close>

definition inserted_set ::
    "lru_set \<Rightarrow> cache_block_info \<Rightarrow> evicted \<Rightarrow> lru_set \<Rightarrow> bool" where
  "inserted_set s b ev s' \<longleftrightarrow>
     contents s' =
       (if eviction ev then (contents s)(m_tag (evict_block_info ev) := None) else contents s)(m_tag b \<mapsto> b) \<and>
     (eviction ev \<longrightarrow> contents s (m_tag (evict_block_info ev)) = Some (evict_block_info ev)) \<and>
     set_wf s' \<and> ages_ok s' \<and> tags_unique s' \<and> m_associativity s' = m_associativity s \<and>
     m_blocksize s' = m_blocksize s \<and> isLeader s' = isLeader s \<and> (m_blocks s \<noteq> None \<longrightarrow> m_blocks s' \<noteq> None) \<and>
     (\<forall>w < m_associativity s. m_cache_block_info_array s' ! w \<in> {m_cache_block_info_array s ! w, b})"

lemma insert_inserted_set:
  assumes "set_wf s" and "ages_ok s" and "tags_unique s" and "isValid b" and "\<not> holds s (m_tag b)"
    and "case fb of None \<Rightarrow> True | Some buf \<Rightarrow> m_blocksize s \<le> length buf"
  shows "\<exists>ev s'. set_insert getReplacementIndex info s b fb ei eb = Inr (ev, info, s') \<and> inserted_set s b ev s'"
proof -
  obtain ev info' s' where i: "set_insert getReplacementIndex info s b fb ei eb = Inr (ev, info', s')"
    using lru_ages.insert_total [OF assms(1,2,6)] by blast
  have "0 < m_associativity s" using assms(1) by (simp add: set_wf_def)
  note f = set_insert_info [OF this i]
  note keeps = lru_ages.insert_keeps [OF assms(1,2) i]
  have "inserted_set s b ev s'"
    unfolding inserted_set_def
    using lru_ages.insert_contents [OF assms(1-5) i] lru_ages.insert_evicts [OF assms(1-3) i] keeps(1,2)
      keeps(4) [OF assms(3-5)] f by auto
  then show ?thesis using i f(1) by blast
qed

lemma insertFlex_inserted_set:
  assumes "set_wf s" and "ages_ok s" and "tags_unique s" and "isValid b" and "\<not> holds s (m_tag b)"
    and "case fb of None \<Rightarrow> True | Some buf \<Rightarrow> m_blocksize s \<le> length buf"
    and "8 \<le> m_associativity s" and "sub ! 0"
  shows "\<exists>ev s'. insertFlex getReplacementIndexFlex info s b fb ei eb sub = Inr (ev, info, s') \<and>
    inserted_set s b ev s' \<and>
    (\<forall>w. \<not> sub ! w \<longrightarrow> m_cache_block_info_array s' ! w = m_cache_block_info_array s ! w)"
proof -
  note inv = conjI [OF assms(2,8)] and e = insertFlex_eq [OF assms(7,8)]
  obtain ev info' s' where i: "set_insert (\<lambda>info. getReplacementIndexFlex info sub) info s b fb ei eb = Inr (ev, info', s')"
    using lru_ages_flex.insert_total [OF assms(1) inv assms(6)] by blast
  have i': "insertFlex getReplacementIndexFlex info s b fb ei eb sub = Inr (ev, info', s')"
    using e i by simp
  note f = insertFlex_info [OF assms(7,8) i']
  note keeps = lru_ages_flex.insert_keeps [OF assms(1) inv i]
  have "inserted_set s b ev s'"
    unfolding inserted_set_def
    using lru_ages_flex.insert_contents [OF assms(1) inv assms(3-5) i]
      lru_ages_flex.insert_evicts [OF assms(1) inv assms(3) i] keeps(1,2) keeps(4) [OF assms(3-5)] f by auto
  then show ?thesis using i' f(1,6) by blast
qed

lemma inserted_set_ok:
  assumes "set_ok b i s" and "inserted_set s x ev s'" and "tag_home b (m_tag x) = Some i"
  shows "set_ok b i s'"
  using assms unfolding set_ok_def inserted_set_def
  by (auto split: if_splits)

lemma inserted_set_map:
  assumes "cache_wf c" and "i < length (m_sets c)" and "inserted_set (m_sets c ! i) x ev s'"
    and "tag_home (c_base c) (m_tag x) = Some i"
  shows "cache_map (upd_set c i s') =
    (if eviction ev then (cache_map c)(m_tag (evict_block_info ev) := None) else cache_map c)(m_tag x \<mapsto> x)"
    and "eviction ev \<Longrightarrow> cache_map c (m_tag (evict_block_info ev)) = Some (evict_block_info ev)"
proof -
  let ?e = "m_tag (evict_block_info ev)"
  have ok: "set_ok (c_base c) i (m_sets c ! i)" using assms(1,2) by (simp add: cache_wf_def)
  have e: "contents (m_sets c ! i) ?e = Some (evict_block_info ev)" if "eviction ev"
    using assms(3) that by (simp add: inserted_set_def)
  then have he: "tag_home (c_base c) ?e = Some i" if "eviction ev"
    using ok that by (auto simp: set_ok_def)
  with e show "eviction ev \<Longrightarrow> cache_map c ?e = Some (evict_block_info ev)" by (simp add: cache_map_def)
  show "cache_map (upd_set c i s') =
    (if eviction ev then (cache_map c)(?e := None) else cache_map c)(m_tag x \<mapsto> x)"
  proof
    fix t
    have "contents s' t = ((if eviction ev then (contents (m_sets c ! i))(?e := None) else contents (m_sets c ! i))(m_tag x \<mapsto> x)) t"
      using assms(3) by (simp add: inserted_set_def)
    then show "cache_map (upd_set c i s') t =
        ((if eviction ev then (cache_map c)(?e := None) else cache_map c)(m_tag x \<mapsto> x)) t"
      unfolding cache_map_upd [OF assms(2)] using he assms(4) by (auto simp: cache_map_def)
  qed
qed

lemma insertSingleLine_step:
  assumes wf: "cache_wf c" and sp: "splitAddress (c_base c) addr = Inr (t, i)" and t: "t \<noteq> - 1"
    and new: "cache_map c t = None"
    and fb: "case fb of None \<Rightarrow> True | Some buf \<Rightarrow> unat (cb_blocksize (c_base c)) \<le> length buf"
    and sh: "isShared \<Longrightarrow> flex_shape c"
  shows "\<exists>ev s'. insertSingleLine c addr fb ei eb now isShared =
      Inr (ev, tagToAddress (c_base c) (m_tag (evict_block_info ev)), upd_set c (unat i) s') \<and>
    inserted_set (m_sets c ! unat i) (CacheBlockInfo_create\<lparr>m_tag := t\<rparr>) ev s' \<and>
    (isShared \<longrightarrow> \<not> isLeader s' \<longrightarrow>
       (\<forall>w. \<not> isSubWayOn c ! (unat i div nat (p_module_size c)) ! w \<longrightarrow>
          m_cache_block_info_array s' ! w = m_cache_block_info_array (m_sets c ! unat i) ! w))"
proof -
  note s = cache_wf_set [OF wf sp]
  let ?s = "m_sets c ! unat i" and ?b = "CacheBlockInfo_create\<lparr>m_tag := t\<rparr>"
  let ?sub = "isSubWayOn c ! (unat i div nat (p_module_size c))"
  have ok: "set_wf ?s" "ages_ok ?s" "tags_unique ?s" "m_blocksize ?s = unat (cb_blocksize (c_base c))"
    "m_associativity ?s = unat (cb_associativity (c_base c))"
    using s(3) by (simp_all add: set_ok_def)
  have nh: "\<not> holds ?s (m_tag ?b)" using new t s(5) by (simp add: contents_None)
  have fb': "case fb of None \<Rightarrow> True | Some buf \<Rightarrow> m_blocksize ?s \<le> length buf" using fb unfolding ok(4) .
  note b = cache_line_facts(1) [OF t]
  let ?ins = "if isShared \<and> \<not> isLeader ?s
            then rbind (nth_int (isSubWayOn c) (getModuleIndex c i)) (\<lambda>isSubWay.
                 insertFlex getReplacementIndexFlex (m_set_info c) ?s ?b fb ei eb isSubWay)
            else set_insert getReplacementIndex (m_set_info c) ?s ?b fb ei eb"
  have "\<exists>ev s'. ?ins = Inr (ev, m_set_info c, s') \<and> inserted_set ?s ?b ev s' \<and>
      (isShared \<longrightarrow> \<not> isLeader s' \<longrightarrow> (\<forall>w. \<not> ?sub ! w \<longrightarrow> m_cache_block_info_array s' ! w = m_cache_block_info_array ?s ! w))"
  proof (cases "isShared \<and> \<not> isLeader ?s")
    case True
    then have f: "flex_shape c" using sh by simp
    note row = flex_row [OF f s(1)]
    have "8 \<le> m_associativity ?s" using f ok(5) by (simp add: flex_shape_def)
    from insertFlex_inserted_set [OF ok(1-3) b nh fb' this row(3), of "m_set_info c" ei eb] True row(1)
    show ?thesis by auto
  next
    case False
    from insert_inserted_set [OF ok(1-3) b nh fb', of "m_set_info c" ei eb]
    obtain ev s' where "set_insert getReplacementIndex (m_set_info c) ?s ?b fb ei eb = Inr (ev, m_set_info c, s')"
      "inserted_set ?s ?b ev s'" by blast
    moreover from this(2) False have "isShared \<longrightarrow> isLeader s'" by (simp add: inserted_set_def)
    ultimately show ?thesis using False by auto
  qed
  then obtain ev s' where ins: "?ins = Inr (ev, m_set_info c, s')" and r: "inserted_set ?s ?b ev s'"
    and en: "isShared \<longrightarrow> \<not> isLeader s' \<longrightarrow> (\<forall>w. \<not> ?sub ! w \<longrightarrow> m_cache_block_info_array s' ! w = m_cache_block_info_array ?s ! w)"
    by blast
  let ?c1 = "upd_set c (unat i) s'"
  have i1: "?c1\<lparr>m_set_info := m_set_info c\<rparr> = ?c1" by (simp add: upd_set_def)
  have ok': "set_ok (c_base c) (unat i) s'"
    by (rule inserted_set_ok [OF s(3) r]) (simp add: s(4))
  have wf1: "cache_wf ?c1"
    by (rule cache_wf_upd [OF wf ok']) (use r s(6) in \<open>simp add: inserted_set_def\<close>)
  have "contents s' t = Some ?b" using r by (simp add: inserted_set_def)
  then obtain w where w: "find_line s' t = Some w" using t by (auto simp: contents_def)
  have "after_insert ?c1 addr t i now = Inr ?c1"
    using inject_postWrite [OF wf1, of addr t i w 0] sp w find_line_SomeD(1) [OF w] s(1)
    by (simp add: after_insert_def nth_res_def split: option.split)
  then have "insertSingleLine c addr fb ei eb now isShared =
      Inr (ev, tagToAddress (c_base c) (m_tag (evict_block_info ev)), ?c1)"
    unfolding insertSingleLine_def sp rbind_Inr prod.case Let_def s(2) ins i1 by simp
  with r en show ?thesis by blast
qed

lemma CacheBlockInfo_create_not_valid [simp]: "m_tag CacheBlockInfo_create = - 1"
  by (simp add: CacheBlockInfo_create_def CacheBlockInfo_def)

subsection \<open>Access\<close>

definition blocks_like :: "u8 list option \<Rightarrow> u8 list option \<Rightarrow> bool" where
  "blocks_like a b \<longleftrightarrow> map_option length b = map_option length a"

lemma blocks_like_refl [simp]: "blocks_like a a"
  by (simp add: blocks_like_def)

lemma contents_blocks [simp]: "contents (s\<lparr>m_blocks := d\<rparr>) = contents s"
  by (simp add: contents_def find_line_def fun_eq_iff)

lemma contents_moveToMRU [simp]: "contents (moveToMRU k s) = contents s"
  by (simp add: contents_def find_line_def fun_eq_iff)

lemma set_ok_blocks:
  assumes "set_ok b i s" and "blocks_like (m_blocks s) d"
  shows "set_ok b i (s\<lparr>m_blocks := d\<rparr>)"
proof -
  have "set_wf (s\<lparr>m_blocks := d\<rparr>)"
    using assms by (cases d; cases "m_blocks s") (simp_all add: set_ok_def set_wf_def blocks_like_def)
  moreover have "ages_ok (s\<lparr>m_blocks := d\<rparr>) = ages_ok s" "tags_unique (s\<lparr>m_blocks := d\<rparr>) = tags_unique s"
    by (simp_all add: ages_ok_def bits_def tags_unique_def)
  ultimately show ?thesis
    using assms(1) unfolding set_ok_def contents_blocks by simp
qed

lemma set_ok_touch:
  assumes "set_ok b i s" and "k < m_associativity s"
  shows "set_ok b i (moveToMRU k s)"
proof -
  have "tags_unique (moveToMRU k s) = tags_unique s" by (simp add: tags_unique_def)
  moreover have "m_blocksize (moveToMRU k s) = m_blocksize s" by (simp add: moveToMRU_def set_bits_def)
  ultimately show ?thesis
    using assms ages_ok_moveToMRU [of s k] by (simp add: set_ok_def moveToMRU_wf)
qed

text \<open>What an access leaves behind in the set it touches.\<close>

definition accessed_set :: "lru_set \<Rightarrow> lru_set \<Rightarrow> bool" where
  "accessed_set s s' \<longleftrightarrow> m_cache_block_info_array s' = m_cache_block_info_array s \<and>
     m_associativity s' = m_associativity s \<and> m_blocksize s' = m_blocksize s \<and> isLeader s' = isLeader s \<and>
     blocks_like (m_blocks s) (m_blocks s')"

lemma accessed_set_trans: "accessed_set s s' \<Longrightarrow> accessed_set s' s'' \<Longrightarrow> accessed_set s s''"
  by (simp add: accessed_set_def blocks_like_def)

lemma accessed_set_contents: "accessed_set s s' \<Longrightarrow> contents s' = contents s"
  by (simp add: accessed_set_def contents_def find_line_def fun_eq_iff)

lemma accessed_set_lines: "accessed_set s s' \<Longrightarrow> lines_enabled sub s' = lines_enabled sub s"
  by (simp add: accessed_set_def lines_enabled_def)

lemma touch_step:
  assumes "set_ok b i s" and "k < m_associativity s" and "length (m_access info) = m_associativity s"
  shows "\<exists>info' s'. (if u then updateReplacementIndex k info s else Inr (info, s)) = Inr (info', s') \<and>
    set_ok b i s' \<and> accessed_set s s' \<and> length (m_access info') = length (m_access info)"
proof (cases u)
  case True
  have "ages_ok s" using assms(1) by (simp add: set_ok_def)
  note u = updateReplacementIndex_total [OF this assms(2,3)]
  have "accessed_set s (moveToMRU k s)" by (simp add: accessed_set_def moveToMRU_def set_bits_def)
  with True u set_ok_touch [OF assms(1,2)] show ?thesis by simp
next
  case False
  with assms(1) show ?thesis by (simp add: accessed_set_def)
qed

lemma read_line_step:
  assumes "set_ok b i s" and "k < m_associativity s" and "length (m_access info) = m_associativity s"
    and "off + n \<le> m_blocksize s" and "0 < n"
  shows "\<exists>out info' s'. read_line updateReplacementIndex info s k off buff n u = Inr (out, info', s') \<and>
    set_ok b i s' \<and> accessed_set s s' \<and> length (m_access info') = length (m_access info)"
proof -
  have wf: "set_wf s" using assms(1) by (simp add: set_ok_def)
  note p = data_pos_in [OF wf assms(2,4,5)]
  have small: "(off + n) mod 2 ^ 32 \<le> m_blocksize s" using assms(4) mod_less_eq_dividend order_trans by blast
  have "\<exists>out. (case (buff, m_blocks s) of
              (Some _, Some blocks) \<Rightarrow> rbind (memcpy_out blocks (data_pos s k off) n) (\<lambda>d. Inr (Some d))
            | _ \<Rightarrow> Inr buff) = Inr out"
    using wf p by (cases buff; cases "m_blocks s") (simp_all add: memcpy_out_def set_wf_def)
  then obtain out where out: "(case (buff, m_blocks s) of
              (Some _, Some blocks) \<Rightarrow> rbind (memcpy_out blocks (data_pos s k off) n) (\<lambda>d. Inr (Some d))
            | _ \<Rightarrow> Inr buff) = Inr out" ..
  obtain info' s' where t: "(if u then updateReplacementIndex k info s else Inr (info, s)) = Inr (info', s')"
    and r: "set_ok b i s'" "accessed_set s s'" "length (m_access info') = length (m_access info)"
    using touch_step [OF assms(1-3), of u] by blast
  have "read_line updateReplacementIndex info s k off buff n u = Inr (out, info', s')"
    unfolding read_line_def out using small t by (cases u) (simp_all add: ensure_def)
  with r show ?thesis by blast
qed

lemma write_line_step:
  assumes "set_ok b i s" and "k < m_associativity s" and "length (m_access info) = m_associativity s"
    and "off + n \<le> m_blocksize s" and "0 < n" and "case buff of None \<Rightarrow> True | Some d \<Rightarrow> n \<le> length d"
  shows "\<exists>info' s'. write_line updateReplacementIndex info s k off buff n u = Inr (info', s') \<and>
    set_ok b i s' \<and> accessed_set s s' \<and> length (m_access info') = length (m_access info)"
proof -
  have wf: "set_wf s" using assms(1) by (simp add: set_ok_def)
  note p = data_pos_in [OF wf assms(2,4,5)]
  have small: "(off + n) mod 2 ^ 32 \<le> m_blocksize s" using assms(4) mod_less_eq_dividend order_trans by blast
  let ?w = "case (buff, m_blocks s) of
              (Some buf, Some blocks) \<Rightarrow>
                if n \<le> length buf
                then rbind (memcpy_in blocks (data_pos s k off) (take n buf)) (\<lambda>b. Inr (s\<lparr>m_blocks := Some b\<rparr>))
                else Inl Undefined
            | _ \<Rightarrow> Inr s"
  have "\<exists>d. ?w = Inr (s\<lparr>m_blocks := d\<rparr>) \<and> blocks_like (m_blocks s) d"
  proof (cases "buff = None \<or> m_blocks s = None")
    case True
    then have "?w = Inr s" by (cases buff; cases "m_blocks s") auto
    moreover have "s = s\<lparr>m_blocks := m_blocks s\<rparr>" by simp
    ultimately show ?thesis using blocks_like_refl by metis
  next
    case False
    then obtain buf blocks where bb: "buff = Some buf" "m_blocks s = Some blocks" by auto
    then have l: "n \<le> length buf" "length blocks = m_associativity s * m_blocksize s"
      using assms(6) wf by (simp_all add: set_wf_def)
    then obtain d where "memcpy_in blocks (data_pos s k off) (take n buf) = Inr d"
      using p by (simp add: memcpy_in_def)
    with bb l length_memcpy_in [OF this] show ?thesis
      by (intro exI [of _ "Some d"]) (simp add: blocks_like_def)
  qed
  then obtain d where d: "?w = Inr (s\<lparr>m_blocks := d\<rparr>)" "blocks_like (m_blocks s) d" by blast
  let ?s1 = "s\<lparr>m_blocks := d\<rparr>"
  have a1: "accessed_set s ?s1" using d(2) by (simp add: accessed_set_def)
  obtain info' s' where t: "(if u then updateReplacementIndex k info ?s1 else Inr (info, ?s1)) = Inr (info', s')"
    and r: "set_ok b i s'" "accessed_set ?s1 s'" "length (m_access info') = length (m_access info)"
    using touch_step [OF set_ok_blocks [OF assms(1) d(2)], of k info u] assms(2,3) by auto
  have "write_line updateReplacementIndex info s k off buff n u = Inr (info', s')"
    unfolding write_line_def d(1) using small t by (simp add: ensure_def)
  with r accessed_set_trans [OF a1 r(2)] show ?thesis by blast
qed

lemma inject_preRead:
  assumes "cache_wf c" and "splitAddress (c_base c) addr = Inr (t, i)"
    and "line < m_associativity (m_sets c ! unat i)" and "off + n \<le> m_blocksize (m_sets c ! unat i)" and "0 < n"
  shows "\<exists>d fi. inject preRead c addr i line off (of_nat n) now =
      Inr ((upd_set c (unat i) ((m_sets c ! unat i)\<lparr>m_blocks := d\<rparr>))\<lparr>m_fault_injector := fi\<rparr>) \<and>
    blocks_like (m_blocks (m_sets c ! unat i)) d \<and> (fi = None \<longleftrightarrow> m_fault_injector c = None)"
proof (cases "m_fault_injector c")
  case None
  have "(upd_set c (unat i) ((m_sets c ! unat i)\<lparr>m_blocks := m_blocks (m_sets c ! unat i)\<rparr>))\<lparr>m_fault_injector := None\<rparr> = c"
    using None by (simp add: upd_set_def)
  with None show ?thesis
    by (intro exI [of _ "m_blocks (m_sets c ! unat i)"] exI [of _ None]) (simp add: inject_def)
next
  case (Some fi)
  note s = cache_wf_set [OF assms(1,2)]
  let ?s = "m_sets c ! unat i"
  obtain blocks where b: "m_blocks ?s = Some blocks" using s(6) Some by auto
  have wf: "set_wf ?s" using s(3) by (simp add: set_ok_def)
  note p = data_pos_in [OF wf assms(3,4,5)]
  have len: "data_pos ?s line off + n \<le> length blocks" using p wf b by (simp add: set_wf_def)
  have "n < 2 ^ 32" using len wf b by (simp add: set_wf_def)
  then have n: "unat (of_nat n :: u32) = n" by (simp add: unat_of_nat)
  then have "(0 :: u32) < of_nat n" using assms(5) by (simp add: word_less_nat_alt)
  have "unat (of_nat n :: u32) \<le> length (drop (data_pos ?s line off) blocks)" using len n by simp
  from preRead_writes [OF \<open>(0 :: u32) < of_nat n\<close> this, of fi addr
      "fault_location c i line" now]
  obtain d fi' where pr: "preRead fi addr (fault_location c i line) (of_nat n) (drop (data_pos ?s line off) blocks) now = Inr (d, fi')"
    and ld: "length d = length blocks - data_pos ?s line off" by auto
  let ?d = "Some (take (data_pos ?s line off) blocks @ d)"
  have "blocks_like (m_blocks ?s) ?d" using b ld len by (simp add: blocks_like_def)
  moreover have "inject preRead c addr i line off (of_nat n) now =
      Inr ((upd_set c (unat i) (?s\<lparr>m_blocks := ?d\<rparr>))\<lparr>m_fault_injector := Some fi'\<rparr>)"
    using Some s(2) b len pr by (simp add: inject_def Let_def)
  ultimately show ?thesis using Some by (intro exI [of _ ?d] exI [of _ "Some fi'"]) simp
qed

subsection \<open>Construction establishes the invariants\<close>

lemma CacheSetLRU_new_ok:
  fixes n :: u8 and fi l :: bool
  assumes "0 < associativity" and "associativity \<le> 256" and "associativity * blocksize < 2 ^ 32"
  defines "s \<equiv> CacheSetLRU_new associativity blocksize n fi l"
  shows "set_wf s" and "ages_ok s" and "tags_unique s" and "contents s = Map.empty"
    and "m_associativity s = associativity" and "m_blocksize s = blocksize" and "isLeader s = l"
    and "fi \<Longrightarrow> m_blocks s \<noteq> None" and "lines_enabled sub s"
proof -
  have f: "m_cache_block_info_array s = replicate associativity CacheBlockInfo_create"
    "m_associativity s = associativity" "m_blocksize s = blocksize" "isLeader s = l"
    "m_blocks s = (if fi then Some (replicate (associativity * blocksize mod 2 ^ 32) 0) else None)"
    by (simp_all add: s_def CacheSetLRU_new_def CacheSet_new_def)
  show "set_wf s" using assms(1,3) by (simp add: set_wf_def f)
  show "ages_ok s" unfolding s_def by (rule lru_inv_ages_ok [OF CacheSetLRU_new_inv [OF assms(2)]])
  show "tags_unique s" by (simp add: tags_unique_def f isValid_def)
  have "\<not> holds s t" if "t \<noteq> - 1" for t using that by (auto simp: holds_def f)
  then show "contents s = Map.empty"
    by (intro ext) (metis contents_None contents_def)
  show "lines_enabled sub s" by (simp add: lines_enabled_def f isValid_def)
  show "m_associativity s = associativity" "m_blocksize s = blocksize" "isLeader s = l" "fi \<Longrightarrow> m_blocks s \<noteq> None"
    by (simp_all add: f)
qed

lemma createCacheSet_lru:
  "policy_name = ''lru'' \<or> policy_name = ''lru_qbs'' \<Longrightarrow>
   \<exists>n. \<forall>l. createCacheSet attempts fi policy_name a b l = Inr (CacheSetLRU_new a b n fi l)"
proof (elim disjE)
  assume "policy_name = ''lru''"
  then show ?thesis
    by (intro exI [of _ "getNumQBSAttempts attempts LRU"]) (simp add: createCacheSet_def parsePolicyType_def)
next
  assume "policy_name = ''lru_qbs''"
  then show ?thesis
    by (intro exI [of _ "getNumQBSAttempts attempts LRU_QBS"]) (simp add: createCacheSet_def parsePolicyType_def)
qed

lemma createCacheSetInfo_lru:
  "policy_name = ''lru'' \<or> policy_name = ''lru_qbs'' \<Longrightarrow>
   \<exists>info. createCacheSetInfo attempts policy_name a = Inr (Some info) \<and> length (m_access info) = a"
  by (auto simp: createCacheSetInfo_def parsePolicyType_def CacheSetInfoLRU_new_def)

lemma Cache_new_step:
  assumes "CacheBase_new name num_sets associativity blocksize hash ahl = Inr base" and "CacheBase_wf base"
    and "policy_name = ''lru'' \<or> policy_name = ''lru_qbs''"
    and "0 < associativity" and "unat associativity \<le> 256" and "unat associativity * unat blocksize < 2 ^ 32"
    and "fault_injector \<noteq> None \<Longrightarrow> fault_injection"
  shows "\<exists>c. Cache_new indet attempts fault_injection name num_sets associativity blocksize policy_name
        cache_type hash fault_injector ahl = Inr c \<and>
    c_base c = base \<and> cache_wf c \<and> cache_map c = Map.empty \<and>
    (cache_type = SHARED_CACHE \<and> num_sets \<in> {4096, 8192, 16384} \<and> 8 \<le> associativity \<longrightarrow>
       flex_wf c \<and> p_module_size c = 512 \<and> W_min c = 2 \<and> list_all (list_all id) (isSubWayOn c) \<and>
       (\<forall>i < unat num_sets. isLeader (m_sets c ! i) \<longleftrightarrow> i mod 64 = 63) \<and> p_atds_per_module c = 8)"
proof -
  let ?a = "unat associativity" and ?b = "unat blocksize"
  let ?shared = "cache_type = SHARED_CACHE"
  let ?modules = "if ?shared then num_modules num_sets else indet ''p_num_modules''"
  let ?flex = "?shared \<and> ?modules \<noteq> - 1"
  let ?atds = "if ?flex then int (unat num_sets) div 64 else indet ''p_total_atds''"
  have base: "cb_num_sets base = num_sets" "cb_associativity base = associativity" "cb_blocksize base = blocksize"
    using assms(1) by (auto simp: CacheBase_new_def)
  obtain n where n: "\<And>l. createCacheSet attempts fault_injection policy_name ?a ?b l = Inr (CacheSetLRU_new ?a ?b n fault_injection l)"
    using createCacheSet_lru [OF assms(3), of attempts fault_injection ?a ?b] by blast
  obtain info where info: "createCacheSetInfo attempts policy_name ?a = Inr (Some info)" "length (m_access info) = ?a"
    using createCacheSetInfo_lru [OF assms(3)] by blast
  let ?flags = "leader_flags ?atds 0 (unat num_sets) 1"
  obtain sets where sets: "create_sets (createCacheSet attempts fault_injection policy_name ?a ?b) ?flags = Inr sets"
    using create_sets_total [of "createCacheSet attempts fault_injection policy_name ?a ?b" ?flags] n by blast
  have len: "length sets = unat num_sets" using create_sets_Inr(1) [OF sets] by simp
  have nth: "sets ! j = CacheSetLRU_new ?a ?b n fault_injection (?flags ! j)" if "j < unat num_sets" for j
    using create_sets_Inr(2) [OF sets] n that by simp
  obtain c where c: "Cache_new indet attempts fault_injection name num_sets associativity blocksize policy_name
      cache_type hash fault_injector ahl = Inr c"
    and cf: "c_base c = base" "m_sets c = sets" "m_set_info c = info" "m_fault_injector c = fault_injector"
      "p_num_modules c = ?modules" "isSubWayOn c = (if ?flex then replicate (nat ?modules) (replicate ?a True) else [])"
      "L2Hits c = (if ?flex then replicate (nat ?modules) (replicate ?a 0) else [])"
      "p_module_size c = (if ?flex then int (unat num_sets) div ?modules else indet ''p_module_size'')"
      "p_atds_per_module c = (if ?flex then ?atds div ?modules else indet ''p_atds_per_module'')"
      "W_min c = (if ?shared then 2 else nat (indet ''W_min''))"
    using assms(1) info sets unfolding Cache_new_def by (simp add: Let_def)
  have a: "0 < ?a" using assms(4) by (simp add: unat_gt_0 word_greater_zero_iff)
  note new = CacheSetLRU_new_ok [OF a assms(5,6)]
  have wf: "cache_wf c"
    unfolding cache_wf_def cf base len
  proof (intro conjI allI impI)
    show "set_ok base j (sets ! j)" if "j < unat num_sets" for j
      unfolding set_ok_def nth [OF that] base using new(1-6) [of n fault_injection "?flags ! j"] by simp
    show "m_blocks (sets ! j) \<noteq> None" if "j < unat num_sets" "fault_injector \<noteq> None" for j
      unfolding nth [OF that(1)] using new(8) assms(7) that(2) by blast
  qed (use assms(2) info(2) in simp_all)
  have emp: "cache_map c = Map.empty"
  proof
    fix t
    show "cache_map c t = None"
      using tag_home_less [OF assms(2), of t] base(1) nth new(4)
      by (auto simp: cache_map_def cf split: option.split)
  qed
  have "flex_wf c \<and> p_module_size c = 512 \<and> W_min c = 2 \<and> list_all (list_all id) (isSubWayOn c) \<and>
       (\<forall>i < unat num_sets. isLeader (m_sets c ! i) \<longleftrightarrow> i mod 64 = 63) \<and> p_atds_per_module c = 8"
    if h: "?shared" "num_sets \<in> {4096, 8192, 16384}" "8 \<le> associativity"
  proof -
    define M where "M = num_modules num_sets"
    have M: "?modules = M" "M \<noteq> - 1" "M * 512 = int (unat num_sets)" "0 < M" "unat num_sets \<le> 16384"
      using h(1,2) by (auto simp: num_modules_def M_def)
    have fl: "?flex" using h(1) M(1,2) by simp
    have atds: "?atds = int (unat num_sets) div 64" using fl by (rule if_P)
    have z0: "p_module_size c = int (unat num_sets) div ?modules" "p_atds_per_module c = ?atds div ?modules"
      "isSubWayOn c = replicate (nat ?modules) (replicate ?a True)" "L2Hits c = replicate (nat ?modules) (replicate ?a 0)"
      unfolding cf(6-9) by (rule if_P [OF fl])+
    have "int (unat num_sets) div M = 512" unfolding M(3) [symmetric] using M(4) by simp
    moreover have "int (unat num_sets) div 64 div M = 8"
    proof -
      have "M * 512 div 64 = M * 8" by simp
      then show ?thesis unfolding M(3) [symmetric] using M(4) by simp
    qed
    ultimately have z: "p_module_size c = 512" "p_atds_per_module c = 8" "p_num_modules c = M"
      unfolding z0(1,2) cf(5) atds unfolding M(1) by blast+
    have lead: "isLeader (sets ! i) \<longleftrightarrow> i mod 64 = 63" if "i < unat num_sets" for i
    proof -
      have "M * 512 = int (64 * (8 * nat M))" using M(4) by simp
      then have "unat num_sets = 64 * (8 * nat M)" using M(3) by linarith
      from leader_every_64 [OF this that] have "?flags ! i \<longleftrightarrow> i mod 64 = 63" unfolding atds .
      then show ?thesis unfolding nth [OF that] new(7) .
    qed
    have sub: "isSubWayOn c = replicate (nat M) (replicate ?a True)" "L2Hits c = replicate (nat M) (replicate ?a 0)"
      using z0(3,4) unfolding M(1) by blast+
    have "8 \<le> ?a" using h(3) by (simp add: word_le_nat_alt)
    then have "flex_wf c"
      unfolding flex_wf_def flex_shape_def z(1) z(3) sub cf(1,2) base(2) len using M(3-5) a
      by (simp add: nth new(9))
    moreover have "list_all (list_all id) (isSubWayOn c)"
      by (simp add: sub list_all_iff)
    ultimately show ?thesis using z lead cf(2,10) h(1) by simp
  qed
  with c wf emp cf(1) show ?thesis by blast
qed

subsection \<open>Properties\<close>


lemma insertSingleLine_map:
  assumes "cache_wf c" and "splitAddress (c_base c) addr = Inr (t, i)" and "t \<noteq> - 1" and "cache_map c t = None"
    and "case fb of None \<Rightarrow> True | Some buf \<Rightarrow> unat (cb_blocksize (c_base c)) \<le> length buf"
    and "isShared \<Longrightarrow> flex_wf c"
  shows "\<exists>ev evict_addr c'. insertSingleLine c addr fb ei eb now isShared = Inr (ev, evict_addr, c') \<and>
    cache_map c' = (if eviction ev then (cache_map c)(m_tag (evict_block_info ev) := None) else cache_map c)
                     (t \<mapsto> CacheBlockInfo_create\<lparr>m_tag := t\<rparr>) \<and>
    (eviction ev \<longrightarrow> cache_map c (m_tag (evict_block_info ev)) = Some (evict_block_info ev)) \<and>
    evict_addr = tagToAddress (c_base c) (m_tag (evict_block_info ev)) \<and>
    cache_wf c' \<and> (isShared \<longrightarrow> flex_wf c')"
proof -
  note s = cache_wf_set [OF assms(1,2)]
  obtain ev s' where ins: "insertSingleLine c addr fb ei eb now isShared =
      Inr (ev, tagToAddress (c_base c) (m_tag (evict_block_info ev)), upd_set c (unat i) s')"
    and r: "inserted_set (m_sets c ! unat i) (CacheBlockInfo_create\<lparr>m_tag := t\<rparr>) ev s'"
    and en: "isShared \<longrightarrow> \<not> isLeader s' \<longrightarrow> (\<forall>w. \<not> isSubWayOn c ! (unat i div nat (p_module_size c)) ! w \<longrightarrow>
      m_cache_block_info_array s' ! w = m_cache_block_info_array (m_sets c ! unat i) ! w)"
    using insertSingleLine_step [OF assms(1-5) flex_wf_shape [OF assms(6)], of isShared ei eb now] by blast
  have h: "tag_home (c_base c) (m_tag (CacheBlockInfo_create\<lparr>m_tag := t\<rparr>)) = Some (unat i)" by (simp add: s(4))
  have "cache_wf (upd_set c (unat i) s')"
    by (rule cache_wf_upd [OF assms(1) inserted_set_ok [OF s(3) r h]])
      (use r s(6) in \<open>simp add: inserted_set_def\<close>)
  moreover have "isShared \<longrightarrow> flex_wf (upd_set c (unat i) s')"
  proof (intro impI flex_wf_upd)
    assume sh: isShared
    then show f: "flex_wf c" by (rule assms(6))
    show l: "isLeader s' = isLeader (m_sets c ! unat i)" using r by (simp add: inserted_set_def)
    assume "\<not> isLeader s'"
    then show "lines_enabled (isSubWayOn c ! (unat i div nat (p_module_size c))) s'"
      using lines_enabled_keep [OF flex_wf_lines [OF f s(1)]] l r en sh by (auto simp: inserted_set_def)
  qed
  ultimately show ?thesis
    using ins inserted_set_map [OF assms(1) s(1) r h] by simp
qed

text \<open>
  C4. Cache insertion refines insertion into a map from tags to lines. On a well-formed
  cache (and, for a shared one, well-formed way masks), inserting the block of an address
  that is not cached always succeeds. Afterwards the cached lines are the old ones plus the
  new one, minus the one reported as evicted if there was an eviction; the evicted line was
  cached, and the reported address is the start of its block. The cache stays well formed;
  in a shared cache no line of a follower set is in a switched-off way.
\<close>

theorem insertSingleLine_refines_map:
  assumes "cache_wf c" and "splitAddress (c_base c) addr = Inr (t, i)" and "t \<noteq> - 1" and "cache_map c t = None"
    and "case fb of None \<Rightarrow> True | Some buf \<Rightarrow> unat (cb_blocksize (c_base c)) \<le> length buf"
    and "isShared \<Longrightarrow> flex_wf c"
  shows "\<exists>ev evict_addr c'. insertSingleLine c addr fb ei eb now isShared = Inr (ev, evict_addr, c') \<and>
    cache_map c' = (if eviction ev then (cache_map c)(m_tag (evict_block_info ev) := None) else cache_map c)
                     (t \<mapsto> CacheBlockInfo_create\<lparr>m_tag := t\<rparr>) \<and>
    (eviction ev \<longrightarrow> cache_map c (m_tag (evict_block_info ev)) = Some (evict_block_info ev)) \<and>
    evict_addr = tagToAddress (c_base c) (m_tag (evict_block_info ev)) \<and>
    cache_wf c' \<and> (isShared \<longrightarrow> flex_wf c')"
  using assms by (rule insertSingleLine_map)

text \<open>
  C28. Cache invalidation: on a well-formed cache \<open>invalidateSingleLine\<close> always returns,
  reports whether the block of the address was cached, and removes exactly this block.
\<close>

theorem invalidateSingleLine_refines_map:
  assumes "cache_wf c" and "splitAddress (c_base c) addr = Inr (t, i)" and "t \<noteq> - 1"
  shows "\<exists>c'. invalidateSingleLine c addr = Inr (cache_map c t \<noteq> None, c') \<and>
    cache_map c' = (cache_map c)(t := None) \<and> cache_wf c' \<and> (flex_wf c \<longrightarrow> flex_wf c')"
proof -
  note s = cache_wf_set [OF assms(1,2)]
  let ?s = "m_sets c ! unat i"
  let ?s' = "snd (set_invalidate ?s t)"
  have ok: "set_wf ?s" "ages_ok ?s" "tags_unique ?s" using s(3) by (simp_all add: set_ok_def)
  have r: "fst (set_invalidate ?s t) = (cache_map c t \<noteq> None)"
    unfolding set_invalidate_result s(5) by (simp add: contents_None [OF assms(3)])
  have inv: "invalidateSingleLine c addr = Inr (cache_map c t \<noteq> None, upd_set c (unat i) ?s')"
    using assms(2) s(2) tag_home_split(2) [OF _ assms(2)] assms(1) r
    by (simp add: invalidateSingleLine_def split_beta cache_wf_def)
  note con = set_invalidate_contents [OF ok(1,3) assms(3)]
  have ok': "set_ok (c_base c) (unat i) ?s'"
    unfolding set_ok_def
    using s(3) set_invalidate_wf [OF ok(1)] set_invalidate_unique [OF ok(1,3) assms(3)]
    by (auto simp: set_invalidate_frame set_ok_def ages_ok_def bits_def con)
  have wf: "cache_wf (upd_set c (unat i) ?s')"
    by (rule cache_wf_upd [OF assms(1) ok']) (use s(6) in \<open>simp add: set_invalidate_frame\<close>)
  have "lines_enabled sub ?s \<Longrightarrow> lines_enabled sub ?s'" for sub
    using set_invalidate_array [OF ok(1,3) assms(3)]
    by (auto simp: lines_enabled_def set_invalidate_frame isValid_def split: if_splits)
  then have "flex_wf c \<longrightarrow> flex_wf (upd_set c (unat i) ?s')"
    using flex_wf_lines [OF _ s(1)] by (auto intro!: flex_wf_upd simp: set_invalidate_frame)
  moreover have "cache_map (upd_set c (unat i) ?s') = (cache_map c)(t := None)"
    unfolding fun_eq_iff cache_map_upd [OF s(1)] con using s(4) by (auto simp: cache_map_def)
  ultimately show ?thesis using inv wf by blast
qed


lemma accessSingleLine_step:
  assumes "cache_wf c" and "splitAddress_offset (c_base c) addr = Inr (t, i, off)" and "t \<noteq> - 1"
    and "0 < n" and "unat off + n \<le> unat (cb_blocksize (c_base c))"
    and "case buff of None \<Rightarrow> True | Some d \<Rightarrow> n \<le> length d"
  shows "\<exists>p out c'. accessSingleLine c addr access_type buff n now u = Inr (p, out, c') \<and>
    (p = None \<longleftrightarrow> cache_map c t = None) \<and> cache_map c' = cache_map c \<and> cache_wf c' \<and> (flex_wf c \<longrightarrow> flex_wf c')"
proof -
  have sp: "splitAddress (c_base c) addr = Inr (t, i)"
    using assms(2) by (auto simp: splitAddress_offset_def Let_def)
  note s = cache_wf_set [OF assms(1) sp]
  let ?s = "m_sets c ! unat i"
  have a: "m_associativity ?s = unat (cb_associativity (c_base c))" "m_blocksize ?s = unat (cb_blocksize (c_base c))"
    using s(3) by (simp_all add: set_ok_def)
  have il: "length (m_access (m_set_info c)) = m_associativity ?s" using assms(1) a(1) by (simp add: cache_wf_def)
  show ?thesis
  proof (cases "find_line ?s t")
    case None
    then have "cache_map c t = None" unfolding s(5) by (simp add: contents_def)
    then show ?thesis
      using assms(1,2) s(2) None by (simp add: accessSingleLine_def)
  next
    case (Some k)
    note k = find_line_SomeD(1) [OF Some]
    have hit: "cache_map c t \<noteq> None" unfolding s(5) using Some assms(3) by (simp add: contents_def)
    have fin: "cache_map c' = cache_map c \<and> cache_wf c' \<and> (flex_wf c \<longrightarrow> flex_wf c')"
      if c': "c' = ((upd_set c (unat i) s')\<lparr>m_fault_injector := fi\<rparr>)\<lparr>m_set_info := info\<rparr>"
        and r: "set_ok (c_base c) (unat i) s'" "accessed_set ?s s'" "length (m_access info) = length (m_access (m_set_info c))"
        and fi: "fi = None \<longleftrightarrow> m_fault_injector c = None" for c' s' fi info
    proof -
      have "cache_map c' = cache_map (upd_set c (unat i) s')" unfolding c' by (intro cache_map_cong) simp_all
      also have "\<dots> = cache_map c"
        unfolding fun_eq_iff cache_map_upd [OF s(1)] accessed_set_contents [OF r(2)] by (simp add: cache_map_def)
      finally have m: "cache_map c' = cache_map c" .
      have "cache_wf (upd_set c (unat i) s')"
        by (rule cache_wf_upd [OF assms(1) r(1)]) (use s(6) r(2) in \<open>auto simp: accessed_set_def blocks_like_def\<close>)
      then have "cache_wf c'" unfolding c' using fi r(3) assms(1) by (simp add: cache_wf_def)
      moreover have "flex_wf c'" if f: "flex_wf c"
      proof -
        have "flex_wf (upd_set c (unat i) s')"
          using f r(2) flex_wf_lines [OF f s(1)] accessed_set_lines [OF r(2)]
          by (intro flex_wf_upd) (auto simp: accessed_set_def)
        then show ?thesis unfolding c' by (simp add: flex_wf_def flex_shape_def)
      qed
      ultimately show ?thesis using m by blast
    qed
    show ?thesis
    proof (cases access_type)
      case LOAD
      obtain d fi where inj: "inject preRead c addr i k (unat off) (of_nat n) now =
          Inr ((upd_set c (unat i) (?s\<lparr>m_blocks := d\<rparr>))\<lparr>m_fault_injector := fi\<rparr>)"
        and d: "blocks_like (m_blocks ?s) d" and fi: "fi = None \<longleftrightarrow> m_fault_injector c = None"
        using inject_preRead [OF assms(1) sp k, of "unat off" n now] assms(4,5) a(2) by auto
      let ?s1 = "?s\<lparr>m_blocks := d\<rparr>"
      obtain out info' s' where rd: "read_line updateReplacementIndex (m_set_info c) ?s1 k (unat off) buff n u = Inr (out, info', s')"
        and r: "set_ok (c_base c) (unat i) s'" "accessed_set ?s1 s'" "length (m_access info') = length (m_access (m_set_info c))"
        using read_line_step [OF set_ok_blocks [OF s(3) d], of k "m_set_info c" "unat off" n buff u] k il assms(4,5) a(2) by auto
      have "accessed_set ?s ?s1" using d by (simp add: accessed_set_def)
      then have acc: "accessed_set ?s s'" using r(2) by (rule accessed_set_trans)
      let ?c' = "((upd_set c (unat i) s')\<lparr>m_fault_injector := fi\<rparr>)\<lparr>m_set_info := info'\<rparr>"
      have "accessSingleLine c addr access_type buff n now u = Inr (Some (unat i, k), out, ?c')"
        using assms(2) s(1,2) Some LOAD inj rd
        by (simp add: accessSingleLine_def nth_res_def) (simp add: upd_set_def)
      with fin [OF refl r(1) acc r(3) fi] hit show ?thesis
        by (intro exI [of _ "Some (unat i, k)"] exI [of _ out] exI [of _ ?c']) simp
    next
      case STORE
      obtain info' s' where wr: "write_line updateReplacementIndex (m_set_info c) ?s k (unat off) buff n u = Inr (info', s')"
        and r: "set_ok (c_base c) (unat i) s'" "accessed_set ?s s'" "length (m_access info') = length (m_access (m_set_info c))"
        using write_line_step [OF s(3) k il _ assms(4,6), of "unat off" u] assms(5) a(2) by auto
      let ?c' = "((upd_set c (unat i) s')\<lparr>m_fault_injector := m_fault_injector c\<rparr>)\<lparr>m_set_info := info'\<rparr>"
      have c'eq: "(upd_set c (unat i) s')\<lparr>m_set_info := info'\<rparr> = ?c'" by (simp add: upd_set_def)
      note f = fin [OF refl r refl]
      have "inject postWrite ?c' addr i k (unat off) (of_nat n) now = Inr ?c'"
        by (rule inject_postWrite [OF conjunct1 [OF conjunct2 [OF f]]])
          (use sp s(1) k r(2) assms(4,5) a(2) in \<open>auto simp: accessed_set_def\<close>)
      then have "accessSingleLine c addr access_type buff n now u = Inr (Some (unat i, k), buff, ?c')"
        using assms(2) s(2) Some STORE wr by (simp add: accessSingleLine_def c'eq)
      with f hit show ?thesis
        by (intro exI [of _ "Some (unat i, k)"] exI [of _ buff] exI [of _ ?c']) simp
    qed
  qed
qed

text \<open>
  C6. Access: on a well-formed cache, reading or writing a non-empty range inside one block
  always returns (in particular the statistics assertion \<open>index < m_associativity\<close> of LRU
  holds), reports a line exactly when the block is cached, and leaves the set of cached
  lines and the well-formedness of the cache unchanged, also with a fault injector attached.
\<close>

theorem accessSingleLine_correct:
  assumes "cache_wf c" and "splitAddress_offset (c_base c) addr = Inr (t, i, off)" and "t \<noteq> - 1"
    and "0 < n" and "unat off + n \<le> unat (cb_blocksize (c_base c))"
    and "case buff of None \<Rightarrow> True | Some d \<Rightarrow> n \<le> length d"
  shows "\<exists>p out c'. accessSingleLine c addr access_type buff n now u = Inr (p, out, c') \<and>
    (p = None \<longleftrightarrow> cache_map c t = None) \<and> cache_map c' = cache_map c \<and> cache_wf c' \<and> (flex_wf c \<longrightarrow> flex_wf c')"
  using assms by (rule accessSingleLine_step)

subsection \<open>Examples\<close>

definition example_cache :: cache where
  "example_cache =
     projr (Cache_new (\<lambda>_. 0) 0 False ''L2'' 4096 8 64 ''lru'' SHARED_CACHE HASH_MASK None None)"

lemma example_cache_facts:
  "c_base example_cache = example_base" "cache_wf example_cache" "flex_wf example_cache"
  "cache_map example_cache = Map.empty"
proof -
  have b: "CacheBase_new ''L2'' 4096 8 64 HASH_MASK None = Inr example_base"
    using example_base_wf by (simp add: CacheBase_wf_def example_base_def)
  obtain c where c: "Cache_new (\<lambda>_. 0) 0 False ''L2'' 4096 8 64 ''lru'' SHARED_CACHE HASH_MASK None None = Inr c"
    "c_base c = example_base" "cache_wf c" "cache_map c = Map.empty" "flex_wf c"
    using Cache_new_step [OF b example_base_wf, of "''lru''" None False "\<lambda>_. 0" 0 SHARED_CACHE] by auto
  then show "c_base example_cache = example_base" "cache_wf example_cache" "flex_wf example_cache"
    "cache_map example_cache = Map.empty"
    by (simp_all add: example_cache_def)
qed

lemma example_split: "splitAddress example_base 0x1041 = Inr (0x41, 0x41)"
  "splitAddress_offset example_base 0x1041 = Inr (0x41, 0x41, 1)"
  by (simp_all add: splitAddress_offset_def splitAddress_def example_base_def hash_set_index_def)


theorem insertSingleLine_refines_map_witness:
  "\<exists>ev ea c'. insertSingleLine example_cache 0x1041 None CacheBlockInfo_create None 0 True = Inr (ev, ea, c') \<and>
     cache_map c' 0x41 \<noteq> None \<and> flex_wf c'"
  using insertSingleLine_refines_map [OF example_cache_facts(2), of "0x1041" "0x41" "0x41" None True CacheBlockInfo_create None 0]
  by (auto simp: example_cache_facts example_split split: if_splits)

theorem invalidateSingleLine_refines_map_witness:
  "\<exists>c'. invalidateSingleLine example_cache 0x1041 = Inr (False, c') \<and> cache_wf c'"
  using invalidateSingleLine_refines_map [OF example_cache_facts(2), of "0x1041" "0x41" "0x41"]
  by (auto simp: example_cache_facts example_split)


theorem accessSingleLine_correct_witness:
  "\<exists>out c'. accessSingleLine example_cache 0x1041 LOAD (Some (replicate 8 0)) 8 0 True = Inr (None, out, c') \<and> cache_wf c'"
proof -
  have "splitAddress_offset (c_base example_cache) 0x1041 = Inr (0x41, 0x41, 1)"
    by (simp add: example_cache_facts example_split)
  from accessSingleLine_correct [OF example_cache_facts(2) this, of 8 "Some (replicate 8 0)" LOAD 0 True]
  show ?thesis by (auto simp: example_cache_facts example_base_def)
qed

end
