(* ===== verification/Reconf.thy ===== *)
theory Reconf
  imports Cache
begin

section \<open>Way reconfiguration\<close>

text \<open>
  The FlexiWay part of the simulator: \<^verbatim>\<open>core/dyn_reconf.{h,cc}\<close> counts instructions and starts
  a reconfiguration every 20000 of them; \<open>CacheCntlr::reconfigure\<close> and \<open>block_transfer\<close> of
  \<^verbatim>\<open>parametric_dram_directory_msi/cache_cntlr.cc\<close> decide per module which ways of the shared
  cache stay on and move the dirty lines out of the ways switched off. The effect of
  \<open>insertCacheBlock\<close> on the shared cache is modelled here; the evictions it causes are
  returned in order, for the part of the controller that writes them back and notifies the
  previous levels (it does not touch the shared cache itself). The fill buffer
  \<open>block_transfer\<close> passes is an uninitialised array: its contents are an argument.
\<close>

subsection \<open>The interval counter\<close>

datatype reconf_status = STABLE | FIRST_CHANGE | RE_CHANGE

record Dyn_reconf =
  p_instruction_count :: u64
  p_base_count :: u64
  p_last_base_count :: u64
  p_base_addr :: IntPtr
  p_last_base_addr :: IntPtr
  dr_state :: reconf_status
  t_now :: u64
  t_prev :: u64

definition processAddress :: "Dyn_reconf \<Rightarrow> IntPtr \<Rightarrow> Dyn_reconf" where
  "processAddress d address = d\<lparr>p_instruction_count := p_instruction_count d\<rparr>"

definition Dyn_reconf_new :: Dyn_reconf where
  "Dyn_reconf_new =
     \<lparr>p_instruction_count = 0, p_base_count = 0, p_last_base_count = 0, p_base_addr = 0, p_last_base_addr = 0,
      dr_state = STABLE, t_now = 0, t_prev = 0\<rparr>"

definition incrementCount :: "('s \<Rightarrow> 's res) \<Rightarrow> u64 \<Rightarrow> Dyn_reconf \<Rightarrow> 's \<Rightarrow> (Dyn_reconf \<times> 's) res" where
  \<comment> \<open>\<open>reconf\<close> is \<open>l2_cache->reconfigure()\<close>, \<open>elapsed\<close> the current user-thread time\<close>
  "incrementCount reconf elapsed d l2 =
     (let d = d\<lparr>p_instruction_count := p_instruction_count d + 1\<rparr> in
      rbind (if p_instruction_count d mod 20000 = 0
             then rbind (reconf l2) (\<lambda>l2. Inr (d\<lparr>t_now := elapsed\<rparr>, l2))
             else Inr (d, l2)) (\<lambda>(d, l2).
      Inr (d\<lparr>t_prev := t_now d\<rparr>, l2)))"

subsection \<open>Choosing the enabled ways of a module\<close>

definition turn_on_step :: "u64 list \<Rightarrow> u64 \<Rightarrow> nat \<Rightarrow> bool list \<times> bool \<Rightarrow> bool list \<times> bool" where
  "turn_on_step hits beta v = (\<lambda>(row, didChange).
     if row ! v = False
     then if hits ! v > beta
          then (fold (\<lambda>e row. if row ! e = False then row[e := True] else row) [2..<v] (row[v := True]), True)
          else (row, didChange)
     else (row, didChange))"

fun turn_off ::
    "u64 list \<Rightarrow> u64 \<Rightarrow> nat \<Rightarrow> nat \<Rightarrow> bool list \<times> bool \<times> nat \<times> nat \<Rightarrow> (bool list \<times> bool \<times> nat \<times> nat) res" where
  \<comment> \<open>\<open>for (UInt32 v = \<dots>; v >= W_min; v--)\<close>: below way 0 the index wraps around\<close>
  "turn_off hits alpha w_min v (row, didChange, mx, mn) =
     (if v < w_min then Inr (row, didChange, mx, mn)
      else if row ! v = True
      then if hits ! v < alpha
           then let st = (row[v := False], True, (if mx < v then v else mx), (if mn > v then v else mn))
                in if v = 0 then Inl Undefined else turn_off hits alpha w_min (v - 1) st
           else Inr (row, didChange, mx, mn)
      else if v = 0 then Inl Undefined else turn_off hits alpha w_min (v - 1) (row, didChange, mx, mn))"

declare turn_off.simps [simp del]

definition reconf_module ::
    "nat \<Rightarrow> nat \<Rightarrow> u64 \<Rightarrow> u64 \<Rightarrow> u64 list \<Rightarrow> bool list \<Rightarrow> (bool list \<times> bool \<times> nat \<times> nat) res" where
  \<comment> \<open>one iteration of the module loop up to the call of \<open>block_transfer\<close>: row, \<open>didChangeHappen\<close>, \<open>max\<close>, \<open>min\<close>\<close>
  "reconf_module associativity w_min alpha beta hits row =
     rbind (ensure Undefined (0 < associativity \<and> associativity \<le> length row \<and> associativity \<le> length hits)) (\<lambda>_.
     case fold (turn_on_step hits beta) [w_min..<associativity] (row, False) of
       (row, didChange) \<Rightarrow>
         if didChange = False
         then turn_off hits alpha w_min (associativity - 1) (row, didChange, 0, associativity - 1)
         else Inr (row, didChange, 0, associativity - 1))"

subsection \<open>Operations of the controller on the shared cache\<close>

definition getCacheBlockInfo :: "cache \<Rightarrow> IntPtr \<Rightarrow> bool \<Rightarrow> (nat \<times> nat) option res" where
  "getCacheBlockInfo c address flex =
     rbind (if flex then peekSingleLine c address True False else peekSingleLine c address False False)
       (\<lambda>(p, _). Inr p)"

definition getCacheState :: "cache \<Rightarrow> IntPtr \<Rightarrow> bool \<Rightarrow> cstate_t res" where
  "getCacheState c address flex =
     rbind (getCacheBlockInfo c address flex) (\<lambda>p.
     case p of
       None \<Rightarrow> Inr INVALID
     | Some (i, w) \<Rightarrow> Inr (m_cstate (m_cache_block_info_array (m_sets c ! i) ! w)))"

definition upd_way :: "lru_set \<Rightarrow> nat \<Rightarrow> (cache_block_info \<Rightarrow> cache_block_info) \<Rightarrow> lru_set" where
  "upd_way s w f = s\<lparr>m_cache_block_info_array := (m_cache_block_info_array s)[w := f (m_cache_block_info_array s ! w)]\<rparr>"

definition upd_line :: "cache \<Rightarrow> nat \<Rightarrow> nat \<Rightarrow> (cache_block_info \<Rightarrow> cache_block_info) \<Rightarrow> cache" where
  \<comment> \<open>a change through the pointer to the line at set \<open>i\<close>, way \<open>w\<close>\<close>
  "upd_line c i w f = upd_set c i (upd_way (m_sets c ! i) w f)"

definition setCacheState :: "cache \<Rightarrow> IntPtr \<Rightarrow> cstate_t \<Rightarrow> (nat \<times> nat \<times> cache) res" where
  "setCacheState c address cstate =
     rbind (getCacheBlockInfo c address False) (\<lambda>p.
     case p of
       None \<Rightarrow> Inl Undefined
     | Some (i, w) \<Rightarrow> Inr (i, w, upd_line c i w (\<lambda>b. b\<lparr>m_cstate := cstate\<rparr>)))"

record insert_env =
  env_warmup :: bool \<comment> \<open>the instrumentation mode is \<open>CACHE_ONLY\<close>\<close>
  env_owner :: "u64 option" \<comment> \<open>the answer of the cache-efficiency callback, if there is one\<close>
  env_evict_buf :: "u8 list" \<comment> \<open>contents of the uninitialised \<open>evict_buf\<close>\<close>
  env_now :: u64

definition insertCacheBlock_local ::
    "insert_env \<Rightarrow> bool \<Rightarrow> cache \<Rightarrow> IntPtr \<Rightarrow> cstate_t \<Rightarrow> u8 list option \<Rightarrow> (evicted \<times> IntPtr \<times> cache) res" where
  \<comment> \<open>\<open>CacheCntlr::insertCacheBlock\<close> up to the handling of the evicted line\<close>
  "insertCacheBlock_local env isShared c address cstate data_buf =
     rbind (getCacheState c address isShared) (\<lambda>old.
     rbind (ensure AssertFailed (old = INVALID)) (\<lambda>_.
     rbind (insertSingleLine c address data_buf CacheBlockInfo_create (Some (env_evict_buf env)) (env_now env) isShared)
       (\<lambda>(ev, evict_address, c).
     rbind (setCacheState c address cstate) (\<lambda>(i, w, c).
     let c = (if env_warmup env then upd_line c i w (\<lambda>b. setOption b WARMUP) else c);
         c = (case env_owner env of Some own \<Rightarrow> upd_line c i w (\<lambda>b. b\<lparr>m_owner := own\<rparr>) | None \<Rightarrow> c)
     in Inr (ev, evict_address, c)))))"

subsection \<open>Emptying the ways switched off\<close>

definition transfer_line ::
    "insert_env \<Rightarrow> u8 list \<Rightarrow> nat \<Rightarrow> nat \<Rightarrow> cache \<times> evicted list \<Rightarrow> (cache \<times> evicted list) res" where
  "transfer_line env data_buf s v = (\<lambda>(c, log).
     rbind (nth_res (m_sets c) s) (\<lambda>cs.
     rbind (nth_res (m_cache_block_info_array cs) v) (\<lambda>b.
     if m_cstate b = MODIFIED
     then let insert_addr = tagToAddress (c_base c) (m_tag b) in
          rbind (insertCacheBlock_local env True (upd_line c s v block_invalidate) insert_addr MODIFIED (Some data_buf))
            (\<lambda>(ev, _, c). Inr (c, log @ (if eviction ev then [ev] else [])))
     else Inr (upd_line c s v block_invalidate, log))))"

fun transfer_ways ::
    "insert_env \<Rightarrow> u8 list \<Rightarrow> nat \<Rightarrow> nat \<Rightarrow> nat \<Rightarrow> cache \<times> evicted list \<Rightarrow> (cache \<times> evicted list) res" where
  \<comment> \<open>\<open>for (UInt32 v = max_way; v >= min_way; v--)\<close>\<close>
  "transfer_ways env data_buf s min_way v st =
     (if v < min_way then Inr st
      else rbind (transfer_line env data_buf s v st) (\<lambda>st.
           if v = 0 then Inl Undefined else transfer_ways env data_buf s min_way (v - 1) st))"

declare transfer_ways.simps [simp del]

fun transfer_sets ::
    "insert_env \<Rightarrow> u8 list \<Rightarrow> nat \<Rightarrow> nat \<Rightarrow> nat list \<Rightarrow> cache \<times> evicted list \<Rightarrow> (cache \<times> evicted list) res" where
  "transfer_sets env data_buf max_way min_way [] st = Inr st"
| "transfer_sets env data_buf max_way min_way (s # ss) st =
     rbind (nth_res (m_sets (fst st)) s) (\<lambda>cs.
     rbind (if isLeader cs then Inr st else transfer_ways env data_buf s min_way max_way st) (\<lambda>st.
     transfer_sets env data_buf max_way min_way ss st))"

definition block_transfer ::
    "insert_env \<Rightarrow> u8 list \<Rightarrow> nat \<Rightarrow> nat \<Rightarrow> nat \<Rightarrow> cache \<times> evicted list \<Rightarrow> (cache \<times> evicted list) res" where
  "block_transfer env data_buf module_index max_way min_way st =
     (let sz = nat (p_module_size (fst st))
      in transfer_sets env data_buf max_way min_way [module_index * sz..<(module_index + 1) * sz] st)"

fun reconf_modules ::
    "insert_env \<Rightarrow> u8 list \<Rightarrow> nat list \<Rightarrow> cache \<times> evicted list \<Rightarrow> (cache \<times> evicted list) res" where
  "reconf_modules env data_buf [] st = Inr st"
| "reconf_modules env data_buf (x # xs) (c, log) =
     rbind (nth_res (isSubWayOn c) x) (\<lambda>row.
     rbind (nth_res (L2Hits c) x) (\<lambda>hits.
     rbind (reconf_module (unat (cb_associativity (c_base c))) (W_min c) (ALPHA c) (BETA c) hits row)
       (\<lambda>(row, didChange, mx, mn).
     let c = c\<lparr>isSubWayOn := (isSubWayOn c)[x := row]\<rparr> in
     rbind (if didChange then block_transfer env data_buf x mx mn (c, log) else Inr (c, log)) (\<lambda>st.
     reconf_modules env data_buf xs st))))"

definition reconfigure :: "insert_env \<Rightarrow> u8 list \<Rightarrow> cache \<Rightarrow> (cache \<times> evicted list) res" where
  "reconfigure env data_buf c = reconf_modules env data_buf [0..<nat (p_num_modules c)] (c, [])"

subsection \<open>The masks stay prefixes\<close>

lemma prefix_mask_eqI:
  assumes "length row = n" and "m \<le> n" and "\<And>i. i < n \<Longrightarrow> row ! i \<longleftrightarrow> i < m"
  shows "row = prefix_mask n m"
  using assms by (intro nth_equalityI) (auto simp: prefix_mask_nth)

lemma prefix_mask_count: "length (filter id (prefix_mask n j)) = j"
  by (simp add: prefix_mask_def)

lemma prefix_mask_inj: "prefix_mask n j = prefix_mask n k \<Longrightarrow> j = k"
  by (metis prefix_mask_count)

lemma fold_enable:
  "v \<le> length row \<Longrightarrow>
   length (fold (\<lambda>e row. if row ! e = False then row[e := True] else row) [2..<v] row) = length row \<and>
   (\<forall>i < length row. fold (\<lambda>e row. if row ! e = False then row[e := True] else row) [2..<v] row ! i \<longleftrightarrow>
      row ! i \<or> 2 \<le> i \<and> i < v)"
proof (induction v)
  case (Suc v)
  show ?case
  proof (cases "2 \<le> v")
    case True
    with Suc show ?thesis by (auto simp: nth_list_update less_Suc_eq)
  next
    case False
    then have "[2..<Suc v] = []" by simp
    with False show ?thesis by (auto simp: less_Suc_eq)
  qed
qed simp

lemma turn_on_step_prefix:
  assumes "2 \<le> k" and "k \<le> n" and "v < n" and "2 \<le> v"
  shows "turn_on_step hits beta v (prefix_mask n k, ch) =
    (if k \<le> v \<and> hits ! v > beta then (prefix_mask n (Suc v), True) else (prefix_mask n k, ch))"
proof (cases "k \<le> v \<and> hits ! v > beta")
  case True
  let ?row = "(prefix_mask n k)[v := True]"
  have l: "length ?row = n" using assms(2) by simp
  note f = fold_enable [of v ?row, unfolded l]
  have "fold (\<lambda>e row. if row ! e = False then row[e := True] else row) [2..<v] ?row = prefix_mask n (Suc v)"
    by (rule prefix_mask_eqI)
      (use f assms True in \<open>auto simp: nth_list_update prefix_mask_nth less_Suc_eq\<close>)
  with True assms show ?thesis by (simp add: turn_on_step_def prefix_mask_nth)
next
  case False
  with assms show ?thesis by (auto simp: turn_on_step_def prefix_mask_nth)
qed

definition last_hot :: "u64 list \<Rightarrow> u64 \<Rightarrow> nat \<Rightarrow> nat \<Rightarrow> nat option" where
  \<comment> \<open>the highest disabled way with more than \<open>beta\<close> hits\<close>
  "last_hot hits beta k n = last_index (\<lambda>v. k \<le> v \<and> hits ! v > beta) n"

lemma turn_on_prefix:
  assumes "2 \<le> k" and "k \<le> n" and "m \<le> n"
  shows "fold (turn_on_step hits beta) [2..<m] (prefix_mask n k, False) =
    (case last_hot hits beta k m of None \<Rightarrow> (prefix_mask n k, False) | Some v \<Rightarrow> (prefix_mask n (Suc v), True))"
  using assms(3)
proof (induction m)
  case 0
  show ?case by (simp add: last_hot_def)
next
  case (Suc m)
  show ?case
  proof (cases "2 \<le> m")
    case True
    have IH: "fold (turn_on_step hits beta) [2..<m] (prefix_mask n k, False) =
      (case last_hot hits beta k m of None \<Rightarrow> (prefix_mask n k, False) | Some v \<Rightarrow> (prefix_mask n (Suc v), True))"
      using Suc by simp
    have e: "last_hot hits beta k (Suc m) = (if k \<le> m \<and> hits ! m > beta then Some m else last_hot hits beta k m)"
      by (simp add: last_hot_def)
    have f: "fold (turn_on_step hits beta) [2..<Suc m] (prefix_mask n k, False) =
      turn_on_step hits beta m (fold (turn_on_step hits beta) [2..<m] (prefix_mask n k, False))"
      using True by simp
    show ?thesis
    proof (cases "last_hot hits beta k m")
      case None
      then show ?thesis
        unfolding f IH e using turn_on_step_prefix [OF assms(1,2), of m hits beta False] True Suc.prems by simp
    next
      case (Some v)
      then have v: "v < m" "k \<le> v" using last_index_SomeD [OF Some [unfolded last_hot_def]] by auto
      show ?thesis
        unfolding f IH e Some using turn_on_step_prefix [of "Suc v" n m hits beta True] True Suc.prems v assms(1)
        by auto
    qed
  next
    case False
    then have "last_hot hits beta k (Suc m) = None"
      using assms(1) by (auto simp: last_hot_def last_index_None less_Suc_eq)
    with False show ?thesis by simp
  qed
qed

fun cold_from :: "u64 list \<Rightarrow> u64 \<Rightarrow> nat \<Rightarrow> nat" where
  \<comment> \<open>the first way of the run of ways below \<open>k\<close> (and from 2 on) with fewer than \<open>alpha\<close> hits\<close>
  "cold_from hits alpha 0 = 0"
| "cold_from hits alpha (Suc k) = (if 2 \<le> k \<and> hits ! k < alpha then cold_from hits alpha k else Suc k)"

lemma cold_from_le: "cold_from hits alpha k \<le> k"
  by (induction k) auto

lemma cold_from_ge: "2 \<le> k \<Longrightarrow> 2 \<le> cold_from hits alpha k"
  by (induction k) (auto simp: le_Suc_eq)

lemma cold_from_spec:
  "cold_from hits alpha k \<le> v \<Longrightarrow> v < k \<Longrightarrow> hits ! v < alpha"
  by (induction k) (auto simp: less_Suc_eq split: if_splits)

lemma cold_from_stop: "2 < cold_from hits alpha k \<Longrightarrow> \<not> hits ! (cold_from hits alpha k - 1) < alpha"
  by (induction k) (auto split: if_splits)

lemma turn_off_skip:
  assumes "2 \<le> k" and "k \<le> Suc v" and "v < n"
  shows "turn_off hits alpha 2 v (prefix_mask n k, ch, mx, mn) =
    turn_off hits alpha 2 (k - 1) (prefix_mask n k, ch, mx, mn)"
  using assms
proof (induction v)
  case (Suc v)
  show ?case
  proof (cases "k = Suc (Suc v)")
    case False
    then have "k \<le> Suc v" using Suc.prems(2) by simp
    then have "\<not> prefix_mask n k ! Suc v" using Suc.prems by (simp add: prefix_mask_nth)
    then have "turn_off hits alpha 2 (Suc v) (prefix_mask n k, ch, mx, mn) = turn_off hits alpha 2 v (prefix_mask n k, ch, mx, mn)"
      using \<open>k \<le> Suc v\<close> Suc.prems by (subst turn_off.simps) auto
    with Suc.IH Suc.prems \<open>k \<le> Suc v\<close> show ?thesis by simp
  qed simp
qed simp

lemma prefix_mask_clear: "Suc k \<le> n \<Longrightarrow> (prefix_mask n (Suc k))[k := False] = prefix_mask n k"
  by (rule prefix_mask_eqI) (auto simp: nth_list_update prefix_mask_nth)

lemma turn_off_prefix:
  assumes "2 \<le> k" and "k \<le> n"
  shows "turn_off hits alpha 2 (k - 1) (prefix_mask n k, ch, mx, mn) =
    Inr (prefix_mask n (cold_from hits alpha k), ch \<or> cold_from hits alpha k < k,
      if cold_from hits alpha k < k then max mx (k - 1) else mx,
      if cold_from hits alpha k < k then min mn (cold_from hits alpha k) else mn)"
  using assms
proof (induction k arbitrary: ch mx mn rule: dec_induct)
  case base
  have "cold_from hits alpha 2 = 2" by (simp add: numeral_2_eq_2)
  then show ?case by (simp add: turn_off.simps)
next
  case (step k)
  have k: "2 \<le> k" "Suc k \<le> n" using step by simp_all
  have on: "prefix_mask n (Suc k) ! k" using k by (simp add: prefix_mask_nth)
  show ?case
  proof (cases "hits ! k < alpha")
    case True
    have "turn_off hits alpha 2 (Suc k - 1) (prefix_mask n (Suc k), ch, mx, mn) =
        turn_off hits alpha 2 (k - 1) (prefix_mask n k, True, max mx k, min mn k)"
      using k on True
      by (simp add: turn_off.simps [of _ _ _ k] prefix_mask_clear Let_def max_def min_def not_less)
    moreover have "cold_from hits alpha (Suc k) = cold_from hits alpha k" "cold_from hits alpha k \<le> k"
      using k True cold_from_le by simp_all
    ultimately show ?thesis
      using step.IH [of True "max mx k" "min mn k"] k by (auto simp: max_def min_def)
  next
    case False
    then show ?thesis using k on by (simp add: turn_off.simps [of _ _ _ k])
  qed
qed

lemma reconf_module_prefix:
  assumes "2 \<le> k" and "k \<le> n" and "n \<le> length hits"
  shows "reconf_module n 2 alpha beta hits (prefix_mask n k) =
    (case last_hot hits beta k n of
       Some v \<Rightarrow> Inr (prefix_mask n (Suc v), True, 0, n - 1)
     | None \<Rightarrow>
        let m = cold_from hits alpha k
        in Inr (prefix_mask n m, m < k, if m < k then k - 1 else 0, if m < k then m else n - 1))"
proof -
  have n: "0 < n" "n \<le> length (prefix_mask n k)" using assms(1,2) by simp_all
  have "min (n - 1) (cold_from hits alpha k) = cold_from hits alpha k" if "cold_from hits alpha k < k"
    using that assms(2) by simp
  then have off: "turn_off hits alpha 2 (n - 1) (prefix_mask n k, False, 0, n - 1) =
    (let m = cold_from hits alpha k
     in Inr (prefix_mask n m, m < k, if m < k then k - 1 else 0, if m < k then m else n - 1))"
    using turn_off_skip [of k "n - 1" n] turn_off_prefix [OF assms(1,2), of hits alpha False 0 "n - 1"] assms(1,2) n(1)
    by (simp add: Let_def)
  show ?thesis
    unfolding reconf_module_def turn_on_prefix [OF assms(1,2) order_refl]
    using n assms(3) off by (cases "last_hot hits beta k n") (simp_all add: ensure_def)
qed

subsection \<open>Changing one line of a set\<close>

lemma line_tag_set_ok:
  assumes ok: "set_ok b i s" and w: "w < m_associativity s" and tag: "m_tag (f (m_cache_block_info_array s ! w)) = m_tag (m_cache_block_info_array s ! w)"
  defines "s' \<equiv> s\<lparr>m_cache_block_info_array := (m_cache_block_info_array s)[w := f (m_cache_block_info_array s ! w)]\<rparr>"
  shows "set_ok b i s'"
    and "isValid (m_cache_block_info_array s ! w) \<Longrightarrow>
      contents s' = (contents s)(m_tag (m_cache_block_info_array s ! w) \<mapsto> f (m_cache_block_info_array s ! w))"
proof -
  let ?a = "m_cache_block_info_array s"
  have wf: "set_wf s" and u: "tags_unique s" and ag: "ages_ok s" using ok by (simp_all add: set_ok_def)
  have len: "length ?a = m_associativity s" using wf by (simp add: set_wf_def)
  have tags: "m_tag (?a[w := f (?a ! w)] ! j) = m_tag (?a ! j)" for j
    using tag w len by (cases "j = w") auto
  have u': "tags_unique s'"
    using u unfolding tags_unique_def s'_def by (simp add: tags isValid_def)
  have wf': "set_wf s'" using wf by (cases "m_blocks s") (simp_all add: s'_def set_wf_def)
  have find: "find_line s' t = find_line s t" for t
    unfolding find_line_def s'_def by (simp add: tags)
  have arr: "m_cache_block_info_array s' = ?a[w := f (?a ! w)]" by (simp add: s'_def)
  have dom: "contents s' t \<noteq> None \<longleftrightarrow> contents s t \<noteq> None" for t
    by (simp add: contents_def find)
  have "ages_ok s'" using ag by (simp add: s'_def ages_ok_def bits_def)
  with ok wf' u' dom show "set_ok b i s'" by (auto simp: set_ok_def s'_def)
  show "contents s' = (contents s)(m_tag (?a ! w) \<mapsto> f (?a ! w))" if v: "isValid (?a ! w)"
  proof
    fix t
    have fw: "find_line s (m_tag (?a ! w)) = Some w" using find_line_unique [OF u w v] by simp
    show "contents s' t = ((contents s)(m_tag (?a ! w) \<mapsto> f (?a ! w))) t"
    proof (cases "t = m_tag (?a ! w)")
      case True
      with v fw w len arr show ?thesis by (simp add: contents_def find isValid_def)
    next
      case False
      have "?a[w := f (?a ! w)] ! j = ?a ! j" if "find_line s t = Some j" for j
        using find_line_SomeD(2) [OF that] False by (cases "j = w") auto
      then show ?thesis using False arr by (auto simp: contents_def find map_option_case split: option.split)
    qed
  qed
qed

lemma line_invalidate_set_ok:
  assumes ok: "set_ok b i s" and w: "w < m_associativity s"
  defines "s' \<equiv> s\<lparr>m_cache_block_info_array := (m_cache_block_info_array s)[w := block_invalidate (m_cache_block_info_array s ! w)]\<rparr>"
  shows "set_ok b i s'" and "contents s' = (contents s)(m_tag (m_cache_block_info_array s ! w) := None)"
proof -
  let ?a = "m_cache_block_info_array s"
  have wf: "set_wf s" and u: "tags_unique s" and ag: "ages_ok s" using ok by (simp_all add: set_ok_def)
  have len: "length ?a = m_associativity s" using wf by (simp add: set_wf_def)
  have nth: "?a[w := block_invalidate (?a ! w)] ! j = (if j = w then block_invalidate (?a ! w) else ?a ! j)"
    if "j < m_associativity s" for j
    using that w len by (simp add: nth_list_update)
  have inv: "m_tag (block_invalidate x) = - 1" for x :: cache_block_info by (simp add: block_invalidate_def)
  have u': "tags_unique s'"
    unfolding tags_unique_def s'_def
  proof (intro allI impI)
    fix j k
    assume jk: "j < m_associativity (s\<lparr>m_cache_block_info_array := ?a[w := block_invalidate (?a ! w)]\<rparr>)"
      "k < m_associativity (s\<lparr>m_cache_block_info_array := ?a[w := block_invalidate (?a ! w)]\<rparr>)"
      and v: "isValid (m_cache_block_info_array (s\<lparr>m_cache_block_info_array := ?a[w := block_invalidate (?a ! w)]\<rparr>) ! j)"
      and e: "m_tag (m_cache_block_info_array (s\<lparr>m_cache_block_info_array := ?a[w := block_invalidate (?a ! w)]\<rparr>) ! j) =
        m_tag (m_cache_block_info_array (s\<lparr>m_cache_block_info_array := ?a[w := block_invalidate (?a ! w)]\<rparr>) ! k)"
    have "j \<noteq> w" "k \<noteq> w" using v e jk by (auto simp: nth inv isValid_def)
    with v e jk show "j = k" by (intro tags_uniqueD [OF u]) (simp_all add: nth)
  qed
  have wf': "set_wf s'" using wf by (cases "m_blocks s") (simp_all add: s'_def set_wf_def)
  show c: "contents s' = (contents s)(m_tag (?a ! w) := None)"
  proof (rule map_eq_by_Some)
    fix t x
    have "(\<exists>j < m_associativity s. ?a[w := block_invalidate (?a ! w)] ! j = x) \<longleftrightarrow>
        (\<exists>j < m_associativity s. ?a ! j = x) \<and> t \<noteq> m_tag (?a ! w)" if t: "t \<noteq> - 1" "m_tag x = t"
    proof -
      have "?a[w := block_invalidate (?a ! w)] ! j = x \<longleftrightarrow> ?a ! j = x \<and> t \<noteq> m_tag (?a ! w)"
        if j: "j < m_associativity s" for j
      proof (cases "j = w")
        case True
        then show ?thesis using t nth [OF j] inv [of "?a ! w"] by auto
      next
        case False
        then have "?a ! j = x \<Longrightarrow> t \<noteq> m_tag (?a ! w)"
          using tags_uniqueD [OF u j w] t by (auto simp: isValid_def)
        with False show ?thesis using nth [OF j] by auto
      qed
      then show ?thesis by blast
    qed
    then show "contents s' t = Some x \<longleftrightarrow> ((contents s)(m_tag (?a ! w) := None)) t = Some x"
      unfolding contents_eq_Some [OF u'] fun_upd_apply
      using contents_eq_Some [OF u, of t x] by (auto simp: s'_def)
  qed
  have "ages_ok s'" using ag by (simp add: s'_def ages_ok_def bits_def)
  with ok wf' u' show "set_ok b i s'" unfolding set_ok_def c by (auto simp: s'_def)
qed


subsection \<open>Inserting with a state\<close>

lemma upd_way_fields [simp]:
  "m_associativity (upd_way s w f) = m_associativity s" "m_blocksize (upd_way s w f) = m_blocksize s"
  "isLeader (upd_way s w f) = isLeader s" "m_blocks (upd_way s w f) = m_blocks s"
  "m_cache_block_info_array (upd_way s w f) = (m_cache_block_info_array s)[w := f (m_cache_block_info_array s ! w)]"
  by (simp_all add: upd_way_def)

lemma upd_set_again [simp]: "upd_set (upd_set c i s) i s' = upd_set c i s'"
  by (simp add: upd_set_def)

lemma upd_set_same [simp]: "upd_set c i (m_sets c ! i) = c"
  by (simp add: upd_set_def)

lemma upd_line_upd_set: "i < length (m_sets c) \<Longrightarrow> upd_line (upd_set c i s) i w f = upd_set c i (upd_way s w f)"
  by (simp add: upd_line_def)

lemma upd_way_twice: "w < length (m_cache_block_info_array s) \<Longrightarrow> upd_way (upd_way s w f) w g = upd_way s w (g \<circ> f)"
  by (simp add: upd_way_def)

lemma inserted_set_upd_way:
  assumes ok: "set_ok bb i s'" and ins: "inserted_set s b ev s'" and b: "isValid b" and nh: "\<not> holds s (m_tag b)"
    and w: "find_line s' (m_tag b) = Some w" and tag: "m_tag (f b) = m_tag b"
  shows "inserted_set s (f b) ev (upd_way s' w f)"
    and "\<And>v. m_cache_block_info_array s' ! v = m_cache_block_info_array s ! v \<Longrightarrow>
      m_cache_block_info_array (upd_way s' w f) ! v = m_cache_block_info_array s ! v"
proof -
  note i = ins [unfolded inserted_set_def]
  note f = find_line_SomeD [OF w]
  have wf: "set_wf s'" and u: "tags_unique s'" using ok by (simp_all add: set_ok_def)
  have len: "length (m_cache_block_info_array s') = m_associativity s'" using wf by (simp add: set_wf_def)
  have t: "m_tag b \<noteq> - 1" using b by (simp add: isValid_def)
  have "contents s' (m_tag b) = Some (m_cache_block_info_array s' ! w)" using w t by (simp add: contents_def)
  then have bw: "m_cache_block_info_array s' ! w = b" using i by simp
  have new: "m_cache_block_info_array s ! w \<noteq> b"
    using nh f(1) i by (auto simp: holds_def)
  have other: "m_cache_block_info_array s' ! v \<noteq> b" if "v < m_associativity s" "v \<noteq> w" for v
    using tags_uniqueD [OF u f(1), of v] that bw b i by auto
  have tag': "m_tag (f (m_cache_block_info_array s' ! w)) = m_tag (m_cache_block_info_array s' ! w)" by (simp add: bw tag)
  note l = line_tag_set_ok [where f = f, OF ok f(1) tag', folded upd_way_def]
  have ok': "set_wf (upd_way s' w f)" "ages_ok (upd_way s' w f)" "tags_unique (upd_way s' w f)"
    using l(1) by (simp_all add: set_ok_def)
  have con: "contents (upd_way s' w f) = (contents s')(m_tag b \<mapsto> f b)" using l(2) b by (simp add: bw)
  have arr: "m_cache_block_info_array (upd_way s' w f) ! v \<in> {m_cache_block_info_array s ! v, f b}"
    if "v < m_associativity s" for v
    using other [OF that] i that bw f(1) len by (cases "v = w") auto
  show "inserted_set s (f b) ev (upd_way s' w f)"
    unfolding inserted_set_def con tag using i ok' arr by simp
  show "m_cache_block_info_array (upd_way s' w f) ! v = m_cache_block_info_array s ! v"
    if "m_cache_block_info_array s' ! v = m_cache_block_info_array s ! v" for v
    using that bw new by (cases "v = w") auto
qed

lemma getCacheState_absent:
  assumes wf: "cache_wf c" and sp: "splitAddress (c_base c) addr = Inr (t, i)" and t: "t \<noteq> - 1"
    and new: "cache_map c t = None" and sh: "isShared \<Longrightarrow> flex_shape c"
  shows "getCacheState c addr isShared = Inr INVALID"
proof -
  note s = cache_wf_set [OF wf sp]
  have nh: "\<not> holds (m_sets c ! unat i) t" using new t s(5) by (simp add: contents_None)
  then have f: "find_line (m_sets c ! unat i) t = None" by (simp add: find_line_None)
  have "findFlex (m_sets c ! unat i) t sub lead = None" for sub lead
    using nh by (auto simp: findFlex_def last_index_None holds_def)
  then show ?thesis
    using sp s(2) f flex_row(1) [OF sh s(1)]
    by (cases isShared) (simp_all add: getCacheState_def getCacheBlockInfo_def peekSingleLine_def Let_def)
qed

lemma setCacheState_found:
  assumes wf: "cache_wf c" and sp: "splitAddress (c_base c) addr = Inr (t, i)"
    and w: "find_line (m_sets c ! unat i) t = Some w"
  shows "setCacheState c addr st = Inr (unat i, w, upd_line c (unat i) w (\<lambda>b. b\<lparr>m_cstate := st\<rparr>))"
  using sp cache_wf_set(2) [OF wf sp] w
  by (simp add: setCacheState_def getCacheBlockInfo_def peekSingleLine_def)

lemma insertCacheBlock_local_step:
  assumes wf: "cache_wf c" and sp: "splitAddress (c_base c) addr = Inr (t, i)" and t: "t \<noteq> - 1"
    and new: "cache_map c t = None"
    and fb: "case fb of None \<Rightarrow> True | Some buf \<Rightarrow> unat (cb_blocksize (c_base c)) \<le> length buf"
    and sh: "isShared \<Longrightarrow> flex_shape c"
  shows "\<exists>ev s' b. insertCacheBlock_local env isShared c addr st fb =
      Inr (ev, tagToAddress (c_base c) (m_tag (evict_block_info ev)), upd_set c (unat i) s') \<and>
    m_tag b = t \<and> m_cstate b = st \<and> inserted_set (m_sets c ! unat i) b ev s' \<and> set_ok (c_base c) (unat i) s' \<and>
    (isShared \<longrightarrow> \<not> isLeader s' \<longrightarrow>
       (\<forall>w. \<not> isSubWayOn c ! (unat i div nat (p_module_size c)) ! w \<longrightarrow>
          m_cache_block_info_array s' ! w = m_cache_block_info_array (m_sets c ! unat i) ! w))"
proof -
  note s = cache_wf_set [OF wf sp]
  let ?b = "CacheBlockInfo_create\<lparr>m_tag := t\<rparr>"
  obtain ev s1 where ins: "insertSingleLine c addr fb CacheBlockInfo_create (Some (env_evict_buf env)) (env_now env) isShared =
      Inr (ev, tagToAddress (c_base c) (m_tag (evict_block_info ev)), upd_set c (unat i) s1)"
    and r: "inserted_set (m_sets c ! unat i) ?b ev s1"
    and off: "isShared \<longrightarrow> \<not> isLeader s1 \<longrightarrow>
       (\<forall>w. \<not> isSubWayOn c ! (unat i div nat (p_module_size c)) ! w \<longrightarrow>
          m_cache_block_info_array s1 ! w = m_cache_block_info_array (m_sets c ! unat i) ! w)"
    using insertSingleLine_step [OF wf sp t new fb sh] by blast
  have ok1: "set_ok (c_base c) (unat i) s1" by (rule inserted_set_ok [OF s(3) r]) (simp add: s(4))
  have wf1: "cache_wf (upd_set c (unat i) s1)"
    by (rule cache_wf_upd [OF wf ok1]) (use r s(6) in \<open>simp add: inserted_set_def\<close>)
  have "contents s1 t = Some ?b" using r by (simp add: inserted_set_def)
  then obtain w where w: "find_line s1 t = Some w" using t by (auto simp: contents_def)
  have len: "w < length (m_cache_block_info_array s1)"
    using find_line_SomeD(1) [OF w] ok1 by (simp add: set_ok_def set_wf_def)
  let ?f = "\<lambda>b. b\<lparr>m_cstate := st\<rparr> :: cache_block_info"
  let ?g = "(if env_warmup env then (\<lambda>b. setOption b WARMUP) else id) :: cache_block_info \<Rightarrow> cache_block_info"
  let ?h = "(case env_owner env of Some own \<Rightarrow> (\<lambda>b. b\<lparr>m_owner := own\<rparr>) | None \<Rightarrow> id) :: cache_block_info \<Rightarrow> cache_block_info"
  let ?F = "?h \<circ> (?g \<circ> ?f)"
  have id: "upd_way x w id = x" for x by (simp add: upd_way_def)
  have set: "setCacheState (upd_set c (unat i) s1) addr st = Inr (unat i, w, upd_set c (unat i) (upd_way s1 w ?f))"
    using setCacheState_found [OF wf1, of addr t i w st] sp w s(1) by (simp add: upd_line_upd_set)
  have e1: "(if env_warmup env then upd_line (upd_set c (unat i) (upd_way s1 w ?f)) (unat i) w (\<lambda>b. setOption b WARMUP)
      else upd_set c (unat i) (upd_way s1 w ?f)) = upd_set c (unat i) (upd_way s1 w (?g \<circ> ?f))"
    using s(1) len by (simp add: upd_line_upd_set upd_way_twice)
  have e2: "(case env_owner env of Some own \<Rightarrow> upd_line (upd_set c (unat i) (upd_way s1 w (?g \<circ> ?f))) (unat i) w (\<lambda>b. b\<lparr>m_owner := own\<rparr>)
      | None \<Rightarrow> upd_set c (unat i) (upd_way s1 w (?g \<circ> ?f))) = upd_set c (unat i) (upd_way s1 w ?F)"
    using s(1) len by (simp add: upd_line_upd_set upd_way_twice split: option.split)
  have gs: "getCacheState c addr isShared = Inr INVALID"
    by (rule getCacheState_absent [OF wf sp t new]) (rule sh)
  have run: "insertCacheBlock_local env isShared c addr st fb =
      Inr (ev, tagToAddress (c_base c) (m_tag (evict_block_info ev)), upd_set c (unat i) (upd_way s1 w ?F))"
    unfolding insertCacheBlock_local_def gs rbind_Inr simp_thms(6) ensure_True ins prod.case set Let_def e1 e2 ..
  have F: "m_tag (?F ?b) = t" "m_cstate (?F ?b) = st"
    by (auto simp: setOption_def split: option.split)
  have nh: "\<not> holds (m_sets c ! unat i) (m_tag ?b)" using new t s(5) by (simp add: contents_None)
  have tag: "m_tag (?F ?b) = m_tag ?b" and w': "find_line s1 (m_tag ?b) = Some w" using F(1) w by simp_all
  note ups = inserted_set_upd_way [where f = ?F, OF ok1 r cache_line_facts(1) [OF t] nh w' tag]
  have "set_ok (c_base c) (unat i) (upd_way s1 w ?F)"
    by (rule inserted_set_ok [OF s(3) ups(1)]) (simp only: F(1) s(4))
  moreover have "isShared \<longrightarrow> \<not> isLeader (upd_way s1 w ?F) \<longrightarrow>
       (\<forall>v. \<not> isSubWayOn c ! (unat i div nat (p_module_size c)) ! v \<longrightarrow>
          m_cache_block_info_array (upd_way s1 w ?F) ! v = m_cache_block_info_array (m_sets c ! unat i) ! v)"
    using off ups(2) by (simp only: upd_way_fields(3)) blast
  ultimately show ?thesis
    using run F ups(1) by (intro exI [of _ ev] exI [of _ "upd_way s1 w ?F"] exI [of _ "?F ?b"]) blast
qed

subsection \<open>Moving the dirty lines out of a way\<close>

definition mod_ok :: "lru_set \<Rightarrow> bool" where
  "mod_ok s \<longleftrightarrow> (\<forall>w < m_associativity s.
     m_cstate (m_cache_block_info_array s ! w) = MODIFIED \<longrightarrow> isValid (m_cache_block_info_array s ! w))"

definition dirty_ev :: "evicted list \<Rightarrow> IntPtr set" where
  \<comment> \<open>the modified lines among the evictions reported\<close>
  "dirty_ev log = {m_tag (evict_block_info ev) | ev. ev \<in> set log \<and> m_cstate (evict_block_info ev) = MODIFIED}"

lemma dirty_ev_simps [simp]:
  "dirty_ev [] = {}" "dirty_ev (l @ l') = dirty_ev l \<union> dirty_ev l'"
  "dirty_ev (if b then [ev] else []) =
    (if b \<and> m_cstate (evict_block_info ev) = MODIFIED then {m_tag (evict_block_info ev)} else {})"
  by (auto simp: dirty_ev_def)

definition transferred ::
    "CacheBase \<Rightarrow> nat \<Rightarrow> bool list \<Rightarrow> lru_set \<Rightarrow> lru_set \<Rightarrow> evicted list \<Rightarrow> bool" where
  \<comment> \<open>what a step of \<open>block_transfer\<close> does to the set it works on\<close>
  "transferred b i sub s s' l \<longleftrightarrow>
     set_ok b i s' \<and> mod_ok s' \<and> isLeader s' = isLeader s \<and> (m_blocks s \<noteq> None \<longrightarrow> m_blocks s' \<noteq> None) \<and>
     (\<forall>w < m_associativity s. \<not> sub ! w \<longrightarrow> isValid (m_cache_block_info_array s' ! w) \<longrightarrow>
        isValid (m_cache_block_info_array s ! w)) \<and>
     (\<forall>t x. contents s t = Some x \<longrightarrow> m_cstate x = MODIFIED \<longrightarrow>
        (\<exists>y. contents s' t = Some y \<and> m_cstate y = MODIFIED) \<or> t \<in> dirty_ev l)"

lemma transferred_refl: "set_ok b i s \<Longrightarrow> mod_ok s \<Longrightarrow> transferred b i sub s s []"
  by (auto simp: transferred_def)

lemma transferred_trans:
  assumes "transferred b i sub s s' l" and "transferred b i sub s' s'' l'" and "set_ok b i s"
  shows "transferred b i sub s s'' (l @ l')"
proof -
  have "m_associativity s' = m_associativity s" using assms(1,3) by (simp add: transferred_def set_ok_def)
  with assms(1,2) show ?thesis unfolding transferred_def dirty_ev_simps Un_iff by metis
qed

lemma mod_ok_upd_way: "mod_ok s \<Longrightarrow> mod_ok (upd_way s v block_invalidate)"
  unfolding mod_ok_def by (auto simp: nth_list_update list_update_beyond) (metis list_update_beyond m_cstate_invalidate
    nth_list_update_eq nth_list_update_neq cstate_t.distinct leI)+

lemma contents_way:
  assumes "tags_unique s" and "v < m_associativity s" and "contents s (m_tag (m_cache_block_info_array s ! v)) = Some x"
  shows "x = m_cache_block_info_array s ! v"
proof -
  let ?b = "m_cache_block_info_array s ! v"
  have t: "m_tag ?b \<noteq> - 1" using assms(3) by (auto simp: contents_def split: if_splits)
  then have "find_line s (m_tag ?b) = Some v" using find_line_unique [OF assms(1,2)] by (simp add: isValid_def)
  with assms(3) t show ?thesis by (simp add: contents_def)
qed

lemma transfer_drop:
  assumes ok: "set_ok b i s" and m: "mod_ok s" and v: "v < m_associativity s"
  defines "s' \<equiv> upd_way s v block_invalidate"
  shows "set_ok b i s'" and "mod_ok s'" and "contents s' = (contents s)(m_tag (m_cache_block_info_array s ! v) := None)"
    and "\<not> isValid (m_cache_block_info_array s' ! v)"
    and "\<And>w. w \<noteq> v \<Longrightarrow> m_cache_block_info_array s' ! w = m_cache_block_info_array s ! w"
proof -
  note l = line_invalidate_set_ok [OF ok v, folded upd_way_def, folded s'_def]
  show "set_ok b i s'" "contents s' = (contents s)(m_tag (m_cache_block_info_array s ! v) := None)" by (fact l)+
  show "mod_ok s'" unfolding s'_def by (rule mod_ok_upd_way [OF m])
  show "\<not> isValid (m_cache_block_info_array s' ! v)"
    using ok v by (simp add: s'_def set_ok_def set_wf_def)
  show "m_cache_block_info_array s' ! w = m_cache_block_info_array s ! w" if "w \<noteq> v" for w
    using that by (simp add: s'_def)
qed

lemma transfer_line_step:
  assumes wf: "cache_wf c" and sh: "flex_shape c" and s: "s < length (m_sets c)" and fol: "\<not> isLeader (m_sets c ! s)"
    and m: "mod_ok (m_sets c ! s)" and v: "v < unat (cb_associativity (c_base c))"
    and off: "\<not> isSubWayOn c ! (s div nat (p_module_size c)) ! v"
    and buf: "unat (cb_blocksize (c_base c)) \<le> length buf"
  shows "\<exists>cs l. transfer_line env buf s v (c, log) = Inr (upd_set c s cs, log @ l) \<and>
    transferred (c_base c) s (isSubWayOn c ! (s div nat (p_module_size c))) (m_sets c ! s) cs l \<and>
    \<not> isValid (m_cache_block_info_array cs ! v)"
proof -
  let ?s = "m_sets c ! s" and ?sub = "isSubWayOn c ! (s div nat (p_module_size c))"
  let ?b = "m_cache_block_info_array ?s ! v" and ?s1 = "upd_way ?s v block_invalidate"
  have ok: "set_ok (c_base c) s ?s" and fb: "m_fault_injector c \<noteq> None \<longrightarrow> m_blocks ?s \<noteq> None"
    using wf s by (simp_all add: cache_wf_def)
  have va: "v < m_associativity ?s" and u: "tags_unique ?s" and len: "v < length (m_cache_block_info_array ?s)"
    using ok v by (simp_all add: set_ok_def set_wf_def)
  note d = transfer_drop [OF ok m va]
  have l1: "upd_line c s v block_invalidate = upd_set c s ?s1" by (simp add: upd_line_def)
  have run: "transfer_line env buf s v (c, log) =
      (if m_cstate ?b = MODIFIED
       then rbind (insertCacheBlock_local env True (upd_set c s ?s1) (tagToAddress (c_base c) (m_tag ?b)) MODIFIED (Some buf))
            (\<lambda>(ev, _, c). Inr (c, log @ (if eviction ev then [ev] else [])))
       else Inr (upd_set c s ?s1, log))"
    using s len by (simp add: transfer_line_def l1 Let_def)
  show ?thesis
  proof (cases "m_cstate ?b = MODIFIED")
    case False
    have "(\<exists>y. contents ?s1 t = Some y \<and> m_cstate y = MODIFIED) \<or> t \<in> dirty_ev []"
      if "contents ?s t = Some x" "m_cstate x = MODIFIED" for t x
      using that d(3) contents_way [OF u va, of x] False by auto
    then have "transferred (c_base c) s ?sub ?s ?s1 []"
      unfolding transferred_def using d(1,2) d(4,5) by (metis upd_way_fields(3,4))
    then show ?thesis
      unfolding run using False d(4) by (intro exI [of _ ?s1] exI [of _ "[]"]) simp
  next
    case True
    let ?c1 = "upd_set c s ?s1" and ?t = "m_tag ?b"
    have bv: "isValid ?b" using m va True by (simp add: mod_ok_def)
    then have t: "?t \<noteq> - 1" by (simp add: isValid_def)
    have "contents ?s ?t = Some ?b"
      using find_line_unique [OF u va bv] t by (simp add: contents_def)
    then have home: "tag_home (c_base c) ?t = Some s" using ok by (auto simp: set_ok_def)
    then obtain i where sp: "splitAddress (c_base c) (tagToAddress (c_base c) ?t) = Inr (?t, i)" and i: "unat i = s"
      by (auto simp: tag_home_def split: sum.splits if_splits)
    have wf1: "cache_wf ?c1" by (rule cache_wf_upd [OF wf d(1)]) (use fb in simp)
    have new: "cache_map ?c1 ?t = None" by (simp add: cache_map_upd [OF s] home d(3))
    have sp1: "splitAddress (c_base ?c1) (tagToAddress (c_base c) ?t) = Inr (?t, i)" using sp by simp
    have s1: "m_sets ?c1 ! unat i = ?s1" using s i by simp
    obtain ev cs b where ins: "insertCacheBlock_local env True ?c1 (tagToAddress (c_base c) ?t) MODIFIED (Some buf) =
        Inr (ev, tagToAddress (c_base ?c1) (m_tag (evict_block_info ev)), upd_set ?c1 (unat i) cs)"
      and b: "m_tag b = ?t" "m_cstate b = MODIFIED" and r: "inserted_set ?s1 b ev cs" and ok2: "set_ok (c_base ?c1) (unat i) cs"
      and keep: "\<not> isLeader cs \<longrightarrow> (\<forall>w. \<not> isSubWayOn ?c1 ! (unat i div nat (p_module_size ?c1)) ! w \<longrightarrow>
          m_cache_block_info_array cs ! w = m_cache_block_info_array ?s1 ! w)"
      using insertCacheBlock_local_step [OF wf1 sp1 t new, of "Some buf" True env MODIFIED] buf sh
      unfolding s1 by auto
    note r' = r [unfolded inserted_set_def]
    have fol': "\<not> isLeader cs" using r' fol by simp
    have keep': "m_cache_block_info_array cs ! w = m_cache_block_info_array ?s1 ! w" if "\<not> ?sub ! w" for w
      using keep fol' that by (simp add: i)
    have m2: "mod_ok cs"
      unfolding mod_ok_def
    proof (intro allI impI)
      fix w assume w: "w < m_associativity cs" "m_cstate (m_cache_block_info_array cs ! w) = MODIFIED"
      then have "w < m_associativity ?s1" using r' by simp
      with r' have "m_cache_block_info_array cs ! w \<in> {m_cache_block_info_array ?s1 ! w, b}" by blast
      moreover have "isValid b" using b(1) t by (simp add: isValid_def)
      ultimately show "isValid (m_cache_block_info_array cs ! w)"
        using d(2) w \<open>w < m_associativity ?s1\<close> unfolding mod_ok_def by auto
    qed
    have con: "contents cs = (if eviction ev then (contents ?s1)(m_tag (evict_block_info ev) := None) else contents ?s1)(?t \<mapsto> b)"
      using r' b(1) by simp
    have evc: "eviction ev \<Longrightarrow> contents ?s1 (m_tag (evict_block_info ev)) = Some (evict_block_info ev)" using r' by simp
    let ?l = "if eviction ev then [ev] else []"
    have dirty: "(\<exists>y. contents cs t = Some y \<and> m_cstate y = MODIFIED) \<or> t \<in> dirty_ev ?l"
      if x: "contents ?s t = Some x" "m_cstate x = MODIFIED" for t x
    proof (cases "t = ?t")
      case True
      then show ?thesis using con b(2) by simp
    next
      case False
      then have x1: "contents ?s1 t = Some x" using x(1) d(3) by simp
      show ?thesis
      proof (cases "eviction ev \<and> t = m_tag (evict_block_info ev)")
        case True
        then show ?thesis using evc x1 x(2) by (simp add: dirty_ev_def)
      next
        case no: False
        then have "contents cs t = Some x" using con x1 False by auto
        then show ?thesis using x(2) by blast
      qed
    qed
    have "transferred (c_base c) s ?sub ?s cs ?l"
      unfolding transferred_def
      using ok2 m2 r' dirty keep' d(4,5) i by (metis upd_set_fields(1) upd_way_fields(3,4))
    moreover have "\<not> isValid (m_cache_block_info_array cs ! v)" using keep' [OF off] d(4) by simp
    moreover have "transfer_line env buf s v (c, log) = Inr (upd_set c s cs, log @ ?l)"
      unfolding run using True ins i by simp
    ultimately show ?thesis by blast
  qed
qed

lemma transfer_ways_step:
  assumes "cache_wf c" and "flex_shape c" and "s < length (m_sets c)" and "\<not> isLeader (m_sets c ! s)"
    and "mod_ok (m_sets c ! s)" and "v < unat (cb_associativity (c_base c))" and "0 < mn"
    and "\<And>w. mn \<le> w \<Longrightarrow> w \<le> v \<Longrightarrow> \<not> isSubWayOn c ! (s div nat (p_module_size c)) ! w"
    and "unat (cb_blocksize (c_base c)) \<le> length buf"
  shows "\<exists>cs l. transfer_ways env buf s mn v (c, log) = Inr (upd_set c s cs, log @ l) \<and>
    transferred (c_base c) s (isSubWayOn c ! (s div nat (p_module_size c))) (m_sets c ! s) cs l \<and>
    (\<forall>w. mn \<le> w \<longrightarrow> w \<le> v \<longrightarrow> \<not> isValid (m_cache_block_info_array cs ! w))"
  using assms
proof (induction v arbitrary: c log)
  case 0
  then have "transferred (c_base c) s (isSubWayOn c ! (s div nat (p_module_size c))) (m_sets c ! s) (m_sets c ! s) []"
    by (intro transferred_refl) (simp_all add: cache_wf_def)
  moreover have "transfer_ways env buf s mn 0 (c, log) = Inr (upd_set c s (m_sets c ! s), log @ [])"
    using 0(7) by (simp add: transfer_ways.simps)
  ultimately show ?case using 0(7) by fastforce
next
  case (Suc v)
  let ?sub = "isSubWayOn c ! (s div nat (p_module_size c))"
  have ok: "set_ok (c_base c) s (m_sets c ! s)" using Suc.prems(1,3) by (simp add: cache_wf_def)
  show ?case
  proof (cases "Suc v < mn")
    case True
    then have "transfer_ways env buf s mn (Suc v) (c, log) = Inr (upd_set c s (m_sets c ! s), log @ [])"
      by (simp add: transfer_ways.simps)
    with transferred_refl [OF ok Suc.prems(5)] True show ?thesis by fastforce
  next
    case False
    have off: "\<not> ?sub ! Suc v" using Suc.prems(8) False by simp
    obtain cs l where t: "transfer_line env buf s (Suc v) (c, log) = Inr (upd_set c s cs, log @ l)"
      and r: "transferred (c_base c) s ?sub (m_sets c ! s) cs l" and inv: "\<not> isValid (m_cache_block_info_array cs ! Suc v)"
      using transfer_line_step [OF Suc.prems(1-6) off Suc.prems(9)] by blast
    let ?c1 = "upd_set c s cs"
    note r' = r [unfolded transferred_def]
    have fb: "m_fault_injector c \<noteq> None \<Longrightarrow> m_blocks cs \<noteq> None"
      using Suc.prems(1,3) r' by (auto simp: cache_wf_def)
    have wf1: "cache_wf ?c1" by (rule cache_wf_upd [OF Suc.prems(1)]) (use r' fb in simp_all)
    have s1: "m_sets ?c1 ! s = cs" using Suc.prems(3) by simp
    have "\<exists>cs' l'. transfer_ways env buf s mn v (?c1, log @ l) = Inr (upd_set ?c1 s cs', (log @ l) @ l') \<and>
      transferred (c_base ?c1) s (isSubWayOn ?c1 ! (s div nat (p_module_size ?c1))) (m_sets ?c1 ! s) cs' l' \<and>
      (\<forall>w. mn \<le> w \<longrightarrow> w \<le> v \<longrightarrow> \<not> isValid (m_cache_block_info_array cs' ! w))"
      by (rule Suc.IH) (use wf1 s1 r' Suc.prems in simp_all)
    then obtain cs' l' where t2: "transfer_ways env buf s mn v (?c1, log @ l) = Inr (upd_set c s cs', log @ l @ l')"
      and r2: "transferred (c_base c) s ?sub cs cs' l'"
      and inv2: "\<forall>w. mn \<le> w \<longrightarrow> w \<le> v \<longrightarrow> \<not> isValid (m_cache_block_info_array cs' ! w)"
      unfolding s1 by auto
    have "transfer_ways env buf s mn (Suc v) (c, log) = Inr (upd_set c s cs', log @ l @ l')"
      using False t t2 by (simp add: transfer_ways.simps [of _ _ _ _ "Suc v"])
    moreover have "\<not> isValid (m_cache_block_info_array cs' ! Suc v)"
      using r2 off inv Suc.prems(6) r' unfolding transferred_def set_ok_def by metis
    ultimately show ?thesis
      using transferred_trans [OF r r2 ok] inv2 by (metis le_SucE)
  qed
qed

subsection \<open>Transferring a module\<close>

definition reconf_inv :: "cache \<Rightarrow> bool" where
  "reconf_inv c \<longleftrightarrow> cache_wf c \<and> flex_shape c \<and> (\<forall>i < length (m_sets c). mod_ok (m_sets c ! i))"

definition keeps_dirty :: "cache \<Rightarrow> cache \<Rightarrow> evicted list \<Rightarrow> bool" where
  \<comment> \<open>every modified line is still cached as modified, or reported as evicted\<close>
  "keeps_dirty c c' l \<longleftrightarrow> (\<forall>t x. cache_map c t = Some x \<longrightarrow> m_cstate x = MODIFIED \<longrightarrow>
     (\<exists>y. cache_map c' t = Some y \<and> m_cstate y = MODIFIED) \<or> t \<in> dirty_ev l)"

lemma keeps_dirty_refl [simp]: "keeps_dirty c c []"
  by (simp add: keeps_dirty_def)

lemma keeps_dirty_trans: "keeps_dirty c c' l \<Longrightarrow> keeps_dirty c' c'' l' \<Longrightarrow> keeps_dirty c c'' (l @ l')"
  unfolding keeps_dirty_def dirty_ev_simps Un_iff by metis

lemma keeps_dirty_cong:
  "c_base c1 = c_base c \<Longrightarrow> m_sets c1 = m_sets c \<Longrightarrow> c_base c1' = c_base c' \<Longrightarrow> m_sets c1' = m_sets c' \<Longrightarrow>
   keeps_dirty c1 c1' l = keeps_dirty c c' l"
  using cache_map_cong [of c1 c] cache_map_cong [of c1' c'] by (simp add: keeps_dirty_def)

lemma transferred_reconf_inv:
  assumes "reconf_inv c" and "s < length (m_sets c)" and r: "transferred (c_base c) s sub (m_sets c ! s) cs l"
  shows "reconf_inv (upd_set c s cs)" and "keeps_dirty c (upd_set c s cs) l"
proof -
  note i = assms(1) [unfolded reconf_inv_def] and r' = r [unfolded transferred_def]
  have "cache_wf (upd_set c s cs)"
    by (rule cache_wf_upd) (use i r' assms(2) in \<open>auto simp: cache_wf_def\<close>)
  moreover have "mod_ok ((m_sets c)[s := cs] ! j)" if "j < length (m_sets c)" for j
    using i r' that by (cases "j = s") auto
  ultimately show "reconf_inv (upd_set c s cs)" using i by (simp add: reconf_inv_def)
  show "keeps_dirty c (upd_set c s cs) l"
    unfolding keeps_dirty_def
  proof (intro allI impI)
    fix t x assume x: "cache_map c t = Some x" "m_cstate x = MODIFIED"
    show "(\<exists>y. cache_map (upd_set c s cs) t = Some y \<and> m_cstate y = MODIFIED) \<or> t \<in> dirty_ev l"
    proof (cases "tag_home (c_base c) t = Some s")
      case True
      then have "contents (m_sets c ! s) t = Some x" using x(1) by (simp add: cache_map_def)
      then show ?thesis using r' x(2) True by (simp add: cache_map_upd [OF assms(2)])
    next
      case False
      then show ?thesis using x by (simp add: cache_map_upd [OF assms(2)])
    qed
  qed
qed

definition emptied :: "bool list \<Rightarrow> nat \<Rightarrow> nat \<Rightarrow> lru_set \<Rightarrow> lru_set \<Rightarrow> bool" where
  \<comment> \<open>ways \<open>mn\<close> to \<open>mx\<close> are empty, and no other disabled way got a line\<close>
  "emptied sub mn mx s s' \<longleftrightarrow> (\<forall>w < m_associativity s. \<not> sub ! w \<longrightarrow> isValid (m_cache_block_info_array s' ! w) \<longrightarrow>
     isValid (m_cache_block_info_array s ! w) \<and> \<not> (mn \<le> w \<and> w \<le> mx))"

lemma transfer_sets_step:
  assumes "reconf_inv c" and "\<And>s. s \<in> set ss \<Longrightarrow> s < length (m_sets c) \<and> s div nat (p_module_size c) = x"
    and "distinct ss" and "mx < unat (cb_associativity (c_base c))" and "0 < mn"
    and "\<And>w. mn \<le> w \<Longrightarrow> w \<le> mx \<Longrightarrow> \<not> isSubWayOn c ! x ! w"
    and "unat (cb_blocksize (c_base c)) \<le> length buf"
  shows "\<exists>sets l. transfer_sets env buf mx mn ss (c, log) = Inr (c\<lparr>m_sets := sets\<rparr>, log @ l) \<and>
    length sets = length (m_sets c) \<and> reconf_inv (c\<lparr>m_sets := sets\<rparr>) \<and> keeps_dirty c (c\<lparr>m_sets := sets\<rparr>) l \<and>
    (\<forall>j. isLeader (sets ! j) = isLeader (m_sets c ! j)) \<and> (\<forall>j. j \<notin> set ss \<longrightarrow> sets ! j = m_sets c ! j) \<and>
    (\<forall>j \<in> set ss. \<not> isLeader (m_sets c ! j) \<longrightarrow> emptied (isSubWayOn c ! x) mn mx (m_sets c ! j) (sets ! j))"
  using assms
proof (induction ss arbitrary: c log)
  case Nil
  have "c\<lparr>m_sets := m_sets c\<rparr> = c" by simp
  then show ?case using Nil(1) by (intro exI [of _ "m_sets c"] exI [of _ "[]"]) simp
next
  case (Cons s ss)
  have s: "s < length (m_sets c)" "s div nat (p_module_size c) = x" and nin: "s \<notin> set ss"
    using Cons.prems(2,3) by auto
  show ?case
  proof (cases "isLeader (m_sets c ! s)")
    case True
    have "\<exists>sets l. transfer_sets env buf mx mn ss (c, log) = Inr (c\<lparr>m_sets := sets\<rparr>, log @ l) \<and>
      length sets = length (m_sets c) \<and> reconf_inv (c\<lparr>m_sets := sets\<rparr>) \<and> keeps_dirty c (c\<lparr>m_sets := sets\<rparr>) l \<and>
      (\<forall>j. isLeader (sets ! j) = isLeader (m_sets c ! j)) \<and> (\<forall>j. j \<notin> set ss \<longrightarrow> sets ! j = m_sets c ! j) \<and>
      (\<forall>j \<in> set ss. \<not> isLeader (m_sets c ! j) \<longrightarrow> emptied (isSubWayOn c ! x) mn mx (m_sets c ! j) (sets ! j))"
      by (rule Cons.IH) (use Cons.prems in auto)
    then show ?thesis using True s(1) by auto
  next
    case False
    have inv: "cache_wf c" "flex_shape c" "mod_ok (m_sets c ! s)"
      using Cons.prems(1) s(1) by (simp_all add: reconf_inv_def)
    have off: "\<not> isSubWayOn c ! (s div nat (p_module_size c)) ! w" if "mn \<le> w" "w \<le> mx" for w
      using Cons.prems(6) that s(2) by simp
    obtain cs l where w: "transfer_ways env buf s mn mx (c, log) = Inr (upd_set c s cs, log @ l)"
      and r: "transferred (c_base c) s (isSubWayOn c ! x) (m_sets c ! s) cs l"
      and e: "\<forall>w. mn \<le> w \<longrightarrow> w \<le> mx \<longrightarrow> \<not> isValid (m_cache_block_info_array cs ! w)"
      using transfer_ways_step [OF inv(1,2) s(1) False inv(3) Cons.prems(4,5) off Cons.prems(7)] unfolding s(2) by blast
    note i1 = transferred_reconf_inv [OF Cons.prems(1) s(1) r]
    let ?c1 = "upd_set c s cs"
    have "\<exists>sets l'. transfer_sets env buf mx mn ss (?c1, log @ l) = Inr (?c1\<lparr>m_sets := sets\<rparr>, (log @ l) @ l') \<and>
      length sets = length (m_sets ?c1) \<and> reconf_inv (?c1\<lparr>m_sets := sets\<rparr>) \<and> keeps_dirty ?c1 (?c1\<lparr>m_sets := sets\<rparr>) l' \<and>
      (\<forall>j. isLeader (sets ! j) = isLeader (m_sets ?c1 ! j)) \<and> (\<forall>j. j \<notin> set ss \<longrightarrow> sets ! j = m_sets ?c1 ! j) \<and>
      (\<forall>j \<in> set ss. \<not> isLeader (m_sets ?c1 ! j) \<longrightarrow> emptied (isSubWayOn ?c1 ! x) mn mx (m_sets ?c1 ! j) (sets ! j))"
      by (rule Cons.IH) (use i1(1) Cons.prems in auto)
    moreover have "?c1\<lparr>m_sets := sets\<rparr> = c\<lparr>m_sets := sets\<rparr>" for sets by (simp add: upd_set_def)
    ultimately obtain sets l' where t: "transfer_sets env buf mx mn ss (?c1, log @ l) = Inr (c\<lparr>m_sets := sets\<rparr>, log @ l @ l')"
      and len: "length sets = length (m_sets c)" and i2: "reconf_inv (c\<lparr>m_sets := sets\<rparr>)"
      and k2: "keeps_dirty ?c1 (c\<lparr>m_sets := sets\<rparr>) l'"
      and lead: "\<forall>j. isLeader (sets ! j) = isLeader (m_sets ?c1 ! j)"
      and oth: "\<forall>j. j \<notin> set ss \<longrightarrow> sets ! j = m_sets ?c1 ! j"
      and em: "\<forall>j \<in> set ss. \<not> isLeader (m_sets ?c1 ! j) \<longrightarrow> emptied (isSubWayOn c ! x) mn mx (m_sets ?c1 ! j) (sets ! j)"
      by auto
    have c1: "m_sets ?c1 ! j = (if j = s then cs else m_sets c ! j)" for j using s(1) by simp
    have "emptied (isSubWayOn c ! x) mn mx (m_sets c ! s) cs"
      using r e unfolding emptied_def transferred_def by blast
    moreover have "sets ! s = cs" using oth nin c1 [of s] by simp
    moreover have "emptied (isSubWayOn c ! x) mn mx (m_sets c ! j) (sets ! j)" if "j \<in> set ss" "\<not> isLeader (m_sets c ! j)" for j
    proof -
      have "m_sets ?c1 ! j = m_sets c ! j" using that nin c1 [of j] by auto
      with em that show ?thesis by metis
    qed
    ultimately have em': "\<forall>j \<in> set (s # ss). \<not> isLeader (m_sets c ! j) \<longrightarrow> emptied (isSubWayOn c ! x) mn mx (m_sets c ! j) (sets ! j)"
      by simp
    have lead': "\<forall>j. isLeader (sets ! j) = isLeader (m_sets c ! j)"
      using lead r unfolding c1 transferred_def by auto
    have "transfer_sets env buf mx mn (s # ss) (c, log) = Inr (c\<lparr>m_sets := sets\<rparr>, log @ l @ l')"
      using False s(1) w t by simp
    then show ?thesis
      using len i2 keeps_dirty_trans [OF i1(2) k2] lead' em' oth unfolding c1 by (intro exI [of _ sets] exI [of _ "l @ l'"]) auto
  qed
qed

subsection \<open>The whole reconfiguration\<close>

definition next_ways :: "u64 list \<Rightarrow> u64 \<Rightarrow> u64 \<Rightarrow> nat \<Rightarrow> nat \<Rightarrow> nat" where
  \<comment> \<open>how many ways of a module are on after the reconfiguration\<close>
  "next_ways hits alpha beta n k =
     (case last_hot hits beta k n of Some v \<Rightarrow> Suc v | None \<Rightarrow> cold_from hits alpha k)"

definition ways_on :: "cache \<Rightarrow> nat \<Rightarrow> nat \<Rightarrow> bool" where
  "ways_on c x k \<longleftrightarrow> 2 \<le> k \<and> k \<le> unat (cb_associativity (c_base c)) \<and>
     isSubWayOn c ! x = prefix_mask (unat (cb_associativity (c_base c))) k"

definition reconf_wf :: "cache \<Rightarrow> bool" where
  "reconf_wf c \<longleftrightarrow> cache_wf c \<and> flex_wf c \<and> (\<forall>i < length (m_sets c). mod_ok (m_sets c ! i)) \<and> W_min c = 2 \<and>
     (\<forall>x < nat (p_num_modules c). \<exists>k. ways_on c x k)"

lemma next_ways_range:
  assumes "2 \<le> k" and "k \<le> n"
  shows "2 \<le> next_ways hits alpha beta n k" and "next_ways hits alpha beta n k \<le> n"
proof -
  have "2 \<le> next_ways hits alpha beta n k \<and> next_ways hits alpha beta n k \<le> n"
  proof (cases "last_hot hits beta k n")
    case None
    then show ?thesis using cold_from_ge [OF assms(1)] cold_from_le [of hits alpha k] assms(2) by (simp add: next_ways_def)
  next
    case (Some v)
    then have "v < n" "k \<le> v" using last_index_SomeD [OF Some [unfolded last_hot_def]] by simp_all
    with Some assms show ?thesis by (simp add: next_ways_def)
  qed
  then show "2 \<le> next_ways hits alpha beta n k" and "next_ways hits alpha beta n k \<le> n" by simp_all
qed

lemma module_sets:
  assumes "x < n" and "0 < sz" and "sz * n = len" and "s \<in> set [x * sz..<(x + 1) * sz :: nat]"
  shows "s < len" and "s div sz = x"
proof -
  have s: "x * sz \<le> s" "s < Suc x * sz" using assms(4) by auto
  have "Suc x * sz \<le> n * sz" using assms(1) by (intro mult_le_mono1) simp
  then show "s < len" using s(2) assms(3) by (simp add: mult.commute)
  show "s div sz = x" using s by (intro div_nat_eqI) (simp_all add: mult.commute)
qed

lemma in_module: "0 < sz \<Longrightarrow> s div sz = x \<Longrightarrow> s \<in> set [x * sz..<(x + 1) * sz :: nat]"
  using dividend_less_div_times [of sz s] div_times_less_eq_dividend [of s sz] by auto

lemma reconf_module_range:
  fixes alpha beta :: u64
  assumes k: "2 \<le> k" "k \<le> n" "n \<le> length hits"
  defines "m \<equiv> next_ways hits alpha beta n k"
  obtains ch mx mn where "reconf_module n 2 alpha beta hits (prefix_mask n k) = Inr (prefix_mask n m, ch, mx, mn)"
    and "mx < n" and "0 < mn" and "\<And>w. mn \<le> w \<Longrightarrow> w \<le> mx \<Longrightarrow> m \<le> w"
    and "\<And>w. m \<le> w \<Longrightarrow> w < k \<Longrightarrow> ch \<and> mn \<le> w \<and> w \<le> mx"
proof (cases "last_hot hits beta k n")
  case (Some v)
  have v: "k \<le> v" using last_index_SomeD [OF Some [unfolded last_hot_def]] by simp
  show ?thesis
    by (rule that [of True 0 "n - 1"])
      (use k Some v in \<open>auto simp: reconf_module_prefix m_def next_ways_def\<close>)
next
  case None
  then have m: "m = cold_from hits alpha k" by (simp add: m_def next_ways_def)
  have r: "2 \<le> m" "m \<le> k" unfolding m using cold_from_ge [OF k(1)] cold_from_le by blast+
  show ?thesis
    by (rule that [of "m < k" "if m < k then k - 1 else 0" "if m < k then m else n - 1"])
      (use k None r in \<open>auto simp: reconf_module_prefix m [symmetric] Let_def split: if_splits\<close>)
qed

lemma reconf_wf_mask:
  assumes w: "reconf_wf c" and x: "x < nat (p_num_modules c)" and m: "2 \<le> m" "m \<le> unat (cb_associativity (c_base c))"
  defines "c1 \<equiv> c\<lparr>isSubWayOn := (isSubWayOn c)[x := prefix_mask (unat (cb_associativity (c_base c))) m]\<rparr>"
  shows "reconf_inv c1" and "ways_on c1 x m"
    and "\<And>y k. y \<noteq> x \<Longrightarrow> ways_on c1 y k = ways_on c y k"
proof -
  note w' = w [unfolded reconf_wf_def]
  have f: "flex_shape c" using w' flex_wf_shape by blast
  note f' = f [unfolded flex_shape_def]
  let ?n = "unat (cb_associativity (c_base c))"
  have "length (isSubWayOn c) = nat (p_num_modules c)" using f' by blast
  then have lx: "x < length (isSubWayOn c)" using x by simp
  have fields: "m_sets c1 = m_sets c" "c_base c1 = c_base c" "p_module_size c1 = p_module_size c"
    "p_num_modules c1 = p_num_modules c" "L2Hits c1 = L2Hits c" "m_set_info c1 = m_set_info c"
    "m_fault_injector c1 = m_fault_injector c" "length (isSubWayOn c1) = length (isSubWayOn c)"
    by (simp_all add: c1_def)
  have same: "isSubWayOn c1 ! x = prefix_mask ?n m" using lx by (simp add: c1_def)
  have oth: "isSubWayOn c1 ! y = isSubWayOn c ! y" if "y \<noteq> x" for y using that by (simp add: c1_def)
  have mod: "length (isSubWayOn c ! y) = ?n" "isSubWayOn c ! y ! 0" "length (L2Hits c ! y) = ?n"
    if "y < nat (p_num_modules c)" for y
    using f' that by blast+
  have "length (isSubWayOn c1 ! y) = ?n \<and> isSubWayOn c1 ! y ! 0 \<and> length (L2Hits c ! y) = ?n"
    if y: "y < nat (p_num_modules c)" for y
  proof (cases "y = x")
    case True
    have "length (prefix_mask ?n m) = ?n" "prefix_mask ?n m ! 0" using m by (simp_all add: prefix_mask_nth)
    then show ?thesis using mod(3) [OF y] unfolding True same by (intro conjI)
  next
    case False
    then show ?thesis using mod [OF y] unfolding oth [OF False] by (intro conjI)
  qed
  with f' have "flex_shape c1" unfolding flex_shape_def fields by (intro conjI) (elim conjE, assumption | blast)+
  moreover have "cache_wf c1" using w' unfolding cache_wf_def fields by (elim conjE) (intro conjI)
  ultimately show "reconf_inv c1" using w' unfolding reconf_inv_def fields by (intro conjI) simp_all
  show "ways_on c1 x m" unfolding ways_on_def fields same using m by blast
  show "ways_on c1 y k = ways_on c y k" if "y \<noteq> x" for y k
    using oth [OF that] by (simp add: ways_on_def fields)
qed

lemma emptied_enabled:
  assumes "lines_enabled (prefix_mask n k) s" and "emptied (prefix_mask n m) mn mx s s'" and "m_associativity s = n"
    and "m_associativity s' = n" and "k \<le> n" and "m \<le> n" and "\<And>w. m \<le> w \<Longrightarrow> w < k \<Longrightarrow> mn \<le> w \<and> w \<le> mx"
  shows "lines_enabled (prefix_mask n m) s'"
  unfolding lines_enabled_def
proof (intro allI impI)
  fix w assume w: "w < m_associativity s'" "isValid (m_cache_block_info_array s' ! w)"
  have "w < m"
  proof (rule ccontr)
    assume "\<not> w < m"
    then have v: "isValid (m_cache_block_info_array s ! w)" and no: "\<not> (mn \<le> w \<and> w \<le> mx)"
      using assms(2-4,6) w by (auto simp: emptied_def prefix_mask_nth)
    have "w < k" using assms(1,3-5) w(1) v by (simp add: lines_enabled_def prefix_mask_nth)
    with no assms(7) \<open>\<not> w < m\<close> show False by auto
  qed
  then show "prefix_mask n m ! w" using w(1) assms(4,6) by (simp add: prefix_mask_nth)
qed

lemma enabled_mono: "lines_enabled (prefix_mask n k) s \<Longrightarrow> m_associativity s = n \<Longrightarrow> k \<le> m \<Longrightarrow> m \<le> n \<Longrightarrow> lines_enabled (prefix_mask n m) s"
  by (auto simp: lines_enabled_def prefix_mask_nth)

lemma reconf_one:
  assumes w: "reconf_wf c" and x: "x < nat (p_num_modules c)" and k: "ways_on c x k"
    and buf: "unat (cb_blocksize (c_base c)) \<le> length buf"
  defines "n \<equiv> unat (cb_associativity (c_base c))"
  defines "m \<equiv> next_ways (L2Hits c ! x) (ALPHA c) (BETA c) n k"
  defines "c1 \<equiv> c\<lparr>isSubWayOn := (isSubWayOn c)[x := prefix_mask n m]\<rparr>"
  obtains ch mx mn sets l where
    "reconf_module n (W_min c) (ALPHA c) (BETA c) (L2Hits c ! x) (isSubWayOn c ! x) = Inr (prefix_mask n m, ch, mx, mn)"
    and "(if ch then block_transfer env buf x mx mn (c1, log) else Inr (c1, log)) = Inr (c1\<lparr>m_sets := sets\<rparr>, log @ l)"
    and "reconf_wf (c1\<lparr>m_sets := sets\<rparr>)" and "keeps_dirty c (c1\<lparr>m_sets := sets\<rparr>) l" and "ways_on (c1\<lparr>m_sets := sets\<rparr>) x m"
proof -
  note w' = w [unfolded reconf_wf_def] and k' = k [unfolded ways_on_def, folded n_def]
  have f: "flex_shape c" using w' by (simp add: flex_wf_def)
  note f' = f [unfolded flex_shape_def]
  have len: "n \<le> length (L2Hits c ! x)" using f' x by (simp add: n_def)
  have k2: "2 \<le> k" "k \<le> n" using k' by simp_all
  obtain ch mx mn where rm: "reconf_module n 2 (ALPHA c) (BETA c) (L2Hits c ! x) (prefix_mask n k) = Inr (prefix_mask n m, ch, mx, mn)"
    and r: "mx < n" "0 < mn" "\<And>w. mn \<le> w \<Longrightarrow> w \<le> mx \<Longrightarrow> m \<le> w" "\<And>w. m \<le> w \<Longrightarrow> w < k \<Longrightarrow> ch \<and> mn \<le> w \<and> w \<le> mx"
    by (rule reconf_module_range [OF k2 len, of "ALPHA c" "BETA c", folded m_def]) (rule that)
  have m: "2 \<le> m" "m \<le> n" using next_ways_range [of k n] k' by (simp_all add: m_def)
  note c1 = reconf_wf_mask [OF w x, of m, folded n_def, folded c1_def, OF m]
  let ?sz = "nat (p_module_size c)"
  have fields: "m_sets c1 = m_sets c" "c_base c1 = c_base c" "p_module_size c1 = p_module_size c" "p_num_modules c1 = p_num_modules c"
    "W_min c1 = 2" using w' by (simp_all add: c1_def)
  have row: "isSubWayOn c1 ! x = prefix_mask n m" using c1(2) by (simp add: ways_on_def n_def fields)
  have sz: "0 < ?sz" using f' by simp
  have "nat (p_module_size c) * nat (p_num_modules c) = nat (p_module_size c * p_num_modules c)"
    using f' by (intro nat_mult_distrib [symmetric]) simp
  then have tot: "?sz * nat (p_num_modules c) = length (m_sets c)" using f' by simp
  note ms = module_sets [OF x sz tot]
  have "\<exists>sets l. (if ch then block_transfer env buf x mx mn (c1, log) else Inr (c1, log)) = Inr (c1\<lparr>m_sets := sets\<rparr>, log @ l) \<and>
    length sets = length (m_sets c) \<and> reconf_inv (c1\<lparr>m_sets := sets\<rparr>) \<and> keeps_dirty c1 (c1\<lparr>m_sets := sets\<rparr>) l \<and>
    (\<forall>j. isLeader (sets ! j) = isLeader (m_sets c ! j)) \<and> (\<forall>j. j div ?sz \<noteq> x \<longrightarrow> sets ! j = m_sets c ! j) \<and>
    (\<forall>j. j div ?sz = x \<longrightarrow> \<not> isLeader (m_sets c ! j) \<longrightarrow>
       (if ch then emptied (prefix_mask n m) mn mx (m_sets c ! j) (sets ! j) else sets ! j = m_sets c ! j))"
  proof (cases ch)
    case True
    have "\<exists>sets l. transfer_sets env buf mx mn [x * ?sz..<(x + 1) * ?sz] (c1, log) = Inr (c1\<lparr>m_sets := sets\<rparr>, log @ l) \<and>
      length sets = length (m_sets c1) \<and> reconf_inv (c1\<lparr>m_sets := sets\<rparr>) \<and> keeps_dirty c1 (c1\<lparr>m_sets := sets\<rparr>) l \<and>
      (\<forall>j. isLeader (sets ! j) = isLeader (m_sets c1 ! j)) \<and>
      (\<forall>j. j \<notin> set [x * ?sz..<(x + 1) * ?sz] \<longrightarrow> sets ! j = m_sets c1 ! j) \<and>
      (\<forall>j \<in> set [x * ?sz..<(x + 1) * ?sz]. \<not> isLeader (m_sets c1 ! j) \<longrightarrow>
         emptied (isSubWayOn c1 ! x) mn mx (m_sets c1 ! j) (sets ! j))" (is "\<exists>sets l. ?P sets l")
    proof (rule transfer_sets_step [OF c1(1)])
      show "\<And>s. s \<in> set [x * ?sz..<(x + 1) * ?sz] \<Longrightarrow> s < length (m_sets c1) \<and> s div nat (p_module_size c1) = x"
        using ms by (simp only: fields)
      show "\<not> isSubWayOn c1 ! x ! w" if "mn \<le> w" "w \<le> mx" for w
        using r(1,3) that m by (simp add: row prefix_mask_nth not_less)
    qed (use r buf in \<open>simp_all add: fields n_def\<close>)
    then obtain sets l where T: "?P sets l" by (elim exE) (rule that)
    note T' = T [unfolded fields row]
    have t: "block_transfer env buf x mx mn (c1, log) = Inr (c1\<lparr>m_sets := sets\<rparr>, log @ l)"
      unfolding block_transfer_def Let_def fst_conv fields by (rule conjunct1 [OF T'])
    have t1: "j \<notin> set [x * ?sz..<(x + 1) * ?sz] \<Longrightarrow> sets ! j = m_sets c ! j" for j
      using T' by simp
    have t2: "j \<in> set [x * ?sz..<(x + 1) * ?sz] \<Longrightarrow> \<not> isLeader (m_sets c ! j) \<Longrightarrow>
         emptied (prefix_mask n m) mn mx (m_sets c ! j) (sets ! j)" for j
      using T' by simp
    have "\<forall>j. j div ?sz \<noteq> x \<longrightarrow> sets ! j = m_sets c ! j" using t1 ms(2) by blast
    moreover have "\<forall>j. j div ?sz = x \<longrightarrow> \<not> isLeader (m_sets c ! j) \<longrightarrow> emptied (prefix_mask n m) mn mx (m_sets c ! j) (sets ! j)"
      using t2 in_module [OF sz] by blast
    ultimately show ?thesis
      using t T' True by (intro exI [of _ sets] exI [of _ l]) (simp only: if_True simp_thms)
  next
    case False
    have "c1\<lparr>m_sets := m_sets c\<rparr> = c1" by (simp add: c1_def)
    with False c1(1) show ?thesis by (intro exI [of _ "m_sets c"] exI [of _ "[]"]) simp
  qed
  then obtain sets l where run: "(if ch then block_transfer env buf x mx mn (c1, log) else Inr (c1, log)) = Inr (c1\<lparr>m_sets := sets\<rparr>, log @ l)"
    and ls: "length sets = length (m_sets c)" and inv: "reconf_inv (c1\<lparr>m_sets := sets\<rparr>)" and kd: "keeps_dirty c1 (c1\<lparr>m_sets := sets\<rparr>) l"
    and lead: "\<And>j. isLeader (sets ! j) = isLeader (m_sets c ! j)" and oth: "\<And>j. j div ?sz \<noteq> x \<Longrightarrow> sets ! j = m_sets c ! j"
    and em: "\<And>j. j div ?sz = x \<Longrightarrow> \<not> isLeader (m_sets c ! j) \<Longrightarrow>
       (if ch then emptied (prefix_mask n m) mn mx (m_sets c ! j) (sets ! j) else sets ! j = m_sets c ! j)"
    by blast
  have assoc: "m_associativity (m_sets c ! j) = n" "m_associativity (sets ! j) = n" if "j < length (m_sets c)" for j
    using w' inv that ls by (simp_all add: reconf_inv_def cache_wf_def set_ok_def n_def fields)
  have en: "lines_enabled (isSubWayOn c1 ! (j div ?sz)) (sets ! j)" if j: "j < length (m_sets c)" "\<not> isLeader (sets ! j)" for j
  proof -
    have e0: "lines_enabled (isSubWayOn c ! (j div ?sz)) (m_sets c ! j)"
      using w' j lead by (intro flex_wf_lines) simp_all
    show ?thesis
    proof (cases "j div ?sz = x")
      case False
      then show ?thesis using e0 oth by (simp add: c1_def)
    next
      case True
      have e1: "lines_enabled (prefix_mask n k) (m_sets c ! j)" using e0 k' True by simp
      have em': "if ch then emptied (prefix_mask n m) mn mx (m_sets c ! j) (sets ! j) else sets ! j = m_sets c ! j"
        using em [OF True] j(2) lead by simp
      show ?thesis
      proof (cases ch)
        case ch: True
        show ?thesis
          unfolding True row
          by (rule emptied_enabled [OF e1 _ assoc [OF j(1)]]) (use em' ch k' m in simp_all, use r(4) in blast)
      next
        case False
        then have km: "k \<le> m" using r(4) [of m] by (metis leI order_refl)
        show ?thesis
          unfolding True row using enabled_mono [OF e1 assoc(1) [OF j(1)] km m(2)] em' False by simp
      qed
    qed
  qed
  have wx: "ways_on (c1\<lparr>m_sets := sets\<rparr>) y j = ways_on c1 y j" for y j by (simp add: ways_on_def)
  have masks: "\<exists>j. ways_on (c1\<lparr>m_sets := sets\<rparr>) y j" if "y < nat (p_num_modules c)" for y
    unfolding wx using w' that c1(2,3) by (cases "y = x") auto
  have wf': "reconf_wf (c1\<lparr>m_sets := sets\<rparr>)"
    using inv en masks ls lead by (simp add: reconf_wf_def reconf_inv_def flex_wf_def fields)
  have kd': "keeps_dirty c (c1\<lparr>m_sets := sets\<rparr>) l"
    using kd keeps_dirty_cong [of c1 c "c1\<lparr>m_sets := sets\<rparr>" "c1\<lparr>m_sets := sets\<rparr>" l] by (simp add: fields)
  have rm': "reconf_module n (W_min c) (ALPHA c) (BETA c) (L2Hits c ! x) (isSubWayOn c ! x) = Inr (prefix_mask n m, ch, mx, mn)"
    using rm w' k' by simp
  have "ways_on (c1\<lparr>m_sets := sets\<rparr>) x m" unfolding wx by (fact c1(2))
  then show thesis by (rule that [OF rm' run wf' kd'])
qed

lemma reconf_modules_step:
  assumes "reconf_wf c" and "set xs \<subseteq> {..<nat (p_num_modules c)}" and "distinct xs"
    and "unat (cb_blocksize (c_base c)) \<le> length buf"
  shows "\<exists>c' l. reconf_modules env buf xs (c, log) = Inr (c', log @ l) \<and> reconf_wf c' \<and> keeps_dirty c c' l \<and>
    c' = c\<lparr>m_sets := m_sets c', isSubWayOn := isSubWayOn c'\<rparr> \<and>
    (\<forall>x k. x \<in> set xs \<longrightarrow> ways_on c x k \<longrightarrow>
       ways_on c' x (next_ways (L2Hits c ! x) (ALPHA c) (BETA c) (unat (cb_associativity (c_base c))) k)) \<and>
    (\<forall>x. x \<notin> set xs \<longrightarrow> isSubWayOn c' ! x = isSubWayOn c ! x)"
  using assms
proof (induction xs arbitrary: c log)
  case Nil
  then show ?case by (intro exI [of _ c] exI [of _ "[]"]) simp
next
  case (Cons x xs)
  let ?n = "unat (cb_associativity (c_base c))"
  have x: "x < nat (p_num_modules c)" and nin: "x \<notin> set xs" using Cons.prems(2,3) by auto
  obtain k where k: "ways_on c x k" using Cons.prems(1) x unfolding reconf_wf_def by blast
  let ?m = "next_ways (L2Hits c ! x) (ALPHA c) (BETA c) ?n k"
  let ?c1 = "c\<lparr>isSubWayOn := (isSubWayOn c)[x := prefix_mask ?n ?m]\<rparr>"
  obtain ch mx mn sets l where rm: "reconf_module ?n (W_min c) (ALPHA c) (BETA c) (L2Hits c ! x) (isSubWayOn c ! x) = Inr (prefix_mask ?n ?m, ch, mx, mn)"
    and bt: "(if ch then block_transfer env buf x mx mn (?c1, log) else Inr (?c1, log)) = Inr (?c1\<lparr>m_sets := sets\<rparr>, log @ l)"
    and wf2: "reconf_wf (?c1\<lparr>m_sets := sets\<rparr>)" and kd: "keeps_dirty c (?c1\<lparr>m_sets := sets\<rparr>) l"
    and wx: "ways_on (?c1\<lparr>m_sets := sets\<rparr>) x ?m"
    by (rule reconf_one [OF Cons.prems(1) x k Cons.prems(4)])
  let ?c2 = "?c1\<lparr>m_sets := sets\<rparr>"
  have "flex_shape c" using Cons.prems(1) flex_wf_shape unfolding reconf_wf_def by blast
  then have "length (isSubWayOn c) = nat (p_num_modules c)" "length (L2Hits c) = nat (p_num_modules c)"
    unfolding flex_shape_def by blast+
  then have nx: "nth_res (isSubWayOn c) x = Inr (isSubWayOn c ! x)" "nth_res (L2Hits c) x = Inr (L2Hits c ! x)"
    using x by simp_all
  have "\<exists>c' l'. reconf_modules env buf xs (?c2, log @ l) = Inr (c', (log @ l) @ l') \<and> reconf_wf c' \<and> keeps_dirty ?c2 c' l' \<and>
    c' = ?c2\<lparr>m_sets := m_sets c', isSubWayOn := isSubWayOn c'\<rparr> \<and>
    (\<forall>x k. x \<in> set xs \<longrightarrow> ways_on ?c2 x k \<longrightarrow>
       ways_on c' x (next_ways (L2Hits ?c2 ! x) (ALPHA ?c2) (BETA ?c2) (unat (cb_associativity (c_base ?c2))) k)) \<and>
    (\<forall>x. x \<notin> set xs \<longrightarrow> isSubWayOn c' ! x = isSubWayOn ?c2 ! x)" (is "\<exists>c' l'. ?P c' l'")
    by (rule Cons.IH [OF wf2]) (use Cons.prems in simp_all)
  then obtain c' l' where P: "?P c' l'" by (elim exE) (rule that)
  have run: "reconf_modules env buf (x # xs) (c, log) = Inr (c', log @ l @ l')"
    using P by (simp add: nx rm Let_def bt)
  have cons: "c' = c\<lparr>m_sets := m_sets c', isSubWayOn := isSubWayOn c'\<rparr>" using P by simp
  have oth: "isSubWayOn ?c2 ! y = isSubWayOn c ! y" if "y \<noteq> x" for y using that by simp
  have base: "c_base c' = c_base c" using arg_cong [OF cons, of c_base] by simp
  have one: "ways_on c' y (next_ways (L2Hits c ! y) (ALPHA c) (BETA c) ?n j)" if y: "y \<in> set (x # xs)" and j: "ways_on c y j" for y j
  proof (cases "y = x")
    case True
    have jk: "j = k" using j k True prefix_mask_inj [of ?n j k] by (simp add: ways_on_def)
    have "isSubWayOn c' ! x = isSubWayOn ?c2 ! x" using P nin by blast
    then show ?thesis using wx unfolding True jk ways_on_def base by simp
  next
    case False
    then have "y \<in> set xs" using y by simp
    moreover have "ways_on ?c2 y j" using j oth [OF False] by (simp add: ways_on_def)
    ultimately have "ways_on c' y (next_ways (L2Hits ?c2 ! y) (ALPHA ?c2) (BETA ?c2) (unat (cb_associativity (c_base ?c2))) j)"
      using P by blast
    then show ?thesis by simp
  qed
  have rest: "isSubWayOn c' ! y = isSubWayOn c ! y" if "y \<notin> set (x # xs)" for y
  proof -
    have "isSubWayOn c' ! y = isSubWayOn ?c2 ! y" using P that by simp
    with oth [of y] that show ?thesis by simp
  qed
  have "keeps_dirty c c' (l @ l')" by (rule keeps_dirty_trans [OF kd]) (use P in blast)
  then show ?case using run P cons one rest by (intro exI [of _ c'] exI [of _ "l @ l'"]) simp
qed

subsection \<open>Main properties\<close>

lemma new_lines_clean: "mod_ok (CacheSetLRU_new a b n fi l)"
  by (simp add: mod_ok_def CacheSetLRU_new_def CacheSet_new_def)

lemma Cache_new_mod_ok:
  assumes c: "Cache_new indet attempts fault_injection name num_sets associativity blocksize policy_name
        cache_type hash fault_injector ahl = Inr c" and p: "policy_name = ''lru'' \<or> policy_name = ''lru_qbs''"
  shows "\<forall>i < length (m_sets c). mod_ok (m_sets c ! i)"
proof -
  obtain fs where cs: "create_sets (createCacheSet attempts fault_injection policy_name (unat associativity) (unat blocksize)) fs = Inr (m_sets c)"
    using c by (auto simp: Cache_new_def Let_def split: option.splits)
  obtain n where n: "\<forall>l. createCacheSet attempts fault_injection policy_name (unat associativity) (unat blocksize) l =
      Inr (CacheSetLRU_new (unat associativity) (unat blocksize) n fault_injection l)"
    using createCacheSet_lru [OF p] by blast
  show ?thesis
  proof (intro allI impI)
    fix i assume "i < length (m_sets c)"
    then have "i < length fs" using create_sets_Inr(1) [OF cs] by simp
    then have "Inr (CacheSetLRU_new (unat associativity) (unat blocksize) n fault_injection (fs ! i)) = (Inr (m_sets c ! i) :: lru_set res)"
      using create_sets_Inr(2) [OF cs] n by metis
    then show "mod_ok (m_sets c ! i)" using new_lines_clean by (metis sum.inject(2))
  qed
qed

lemma all_on_prefix: "list_all id row \<Longrightarrow> row = prefix_mask (length row) (length row)"
  by (simp add: prefix_mask_def list_eq_iff_nth_eq list_all_length)

lemma example_cache_reconf: "reconf_wf example_cache"
proof -
  have b: "CacheBase_new ''L2'' 4096 8 64 HASH_MASK None = Inr example_base"
    using example_base_wf by (simp add: CacheBase_wf_def example_base_def)
  obtain c where c: "Cache_new (\<lambda>_. 0) 0 False ''L2'' 4096 8 64 ''lru'' SHARED_CACHE HASH_MASK None None = Inr c"
    and w: "W_min c = 2" "list_all (list_all id) (isSubWayOn c)"
    using Cache_new_step [OF b example_base_wf, of "''lru''" None False "\<lambda>_. 0" 0 SHARED_CACHE] by auto
  have e: "example_cache = c" using c by (simp add: example_cache_def)
  have m: "\<forall>i < length (m_sets c). mod_ok (m_sets c ! i)" by (rule Cache_new_mod_ok [OF c]) simp
  have sh: "flex_shape c" using example_cache_facts(3) flex_wf_shape by (simp add: e)
  have a: "unat (cb_associativity (c_base c)) = 8" using example_cache_facts(1) by (simp add: e example_base_def)
  have "\<exists>k. ways_on c x k" if x: "x < nat (p_num_modules c)" for x
  proof -
    have l: "length (isSubWayOn c ! x) = 8" "x < length (isSubWayOn c)"
      using sh x a unfolding flex_shape_def by (metis, metis)
    then have "list_all id (isSubWayOn c ! x)" using w(2) by (simp add: list_all_length)
    then have "isSubWayOn c ! x = prefix_mask 8 8" using all_on_prefix [of "isSubWayOn c ! x"] unfolding l(1) by blast
    then show ?thesis by (intro exI [of _ 8]) (simp add: ways_on_def a)
  qed
  then show ?thesis using m w(1) example_cache_facts(2,3) by (simp add: reconf_wf_def e)
qed

text \<open>
  C7. The choice of the enabled ways of a module. Starting from a mask that enables the first
  \<open>k\<close> ways, the new mask enables the first \<open>m\<close>: ways are switched on up to the highest
  disabled way with more than \<open>BETA\<close> hits; if there is none, the longest run of enabled
  ways at the end with fewer than \<open>ALPHA\<close> hits each is switched off; the first two ways
  always stay on. \<open>didChangeHappen\<close> tells whether the mask changed, and after switching off
  \<open>max\<close> and \<open>min\<close> are the last and the first way switched off.
\<close>

theorem reconf_module_correct:
  assumes "2 \<le> k" and "k \<le> n" and "n \<le> length hits"
  shows "\<exists>m mx mn. reconf_module n 2 alpha beta hits (prefix_mask n k) = Inr (prefix_mask n m, m \<noteq> k, mx, mn) \<and>
    2 \<le> m \<and> m \<le> n \<and>
    (k < m \<longrightarrow> hits ! (m - 1) > beta \<and> (\<forall>v. m \<le> v \<and> v < n \<longrightarrow> hits ! v \<le> beta)) \<and>
    (m \<le> k \<longrightarrow> (\<forall>v. k \<le> v \<and> v < n \<longrightarrow> hits ! v \<le> beta) \<and> (\<forall>v. m \<le> v \<and> v < k \<longrightarrow> hits ! v < alpha) \<and>
       (2 < m \<longrightarrow> \<not> hits ! (m - 1) < alpha)) \<and>
    (m < k \<longrightarrow> mx = k - 1 \<and> mn = m)"
proof (cases "last_hot hits beta k n")
  case (Some v)
  have v: "v < n" "k \<le> v" "hits ! v > beta" "\<And>j. v < j \<Longrightarrow> j < n \<Longrightarrow> \<not> hits ! j > beta"
    using last_index_SomeD [OF Some [unfolded last_hot_def]] by auto
  show ?thesis
    by (intro exI [of _ "Suc v"] exI [of _ 0] exI [of _ "n - 1"])
      (use v assms Some in \<open>simp add: reconf_module_prefix Suc_le_eq not_less\<close>)
next
  case None
  let ?m = "cold_from hits alpha k"
  have hot: "\<And>v. k \<le> v \<Longrightarrow> v < n \<Longrightarrow> hits ! v \<le> beta"
    using None by (auto simp: last_hot_def last_index_None not_less)
  note m = cold_from_ge [OF assms(1), of hits alpha] cold_from_le [of hits alpha k]
  note s = cold_from_spec [of hits alpha k] cold_from_stop [of hits alpha k]
  have run: "reconf_module n 2 alpha beta hits (prefix_mask n k) =
      Inr (prefix_mask n ?m, ?m \<noteq> k, if ?m < k then k - 1 else 0, if ?m < k then ?m else n - 1)"
    using None m(2) by (simp add: reconf_module_prefix [OF assms] Let_def) linarith
  show ?thesis
    by (rule exI [of _ ?m], rule exI [of _ "if ?m < k then k - 1 else 0"], rule exI [of _ "if ?m < k then ?m else n - 1"])
      (use run m s hot assms(2) in auto)
qed

text \<open>
  C1. Reconfiguration. On a well-formed shared cache \<open>reconfigure\<close> always returns, in
  particular every insertion of a moved line succeeds and no loop index wraps. Every module
  has exactly the ways on that its hit counters call for; afterwards the cache is well
  formed again: no line of a follower set is in a switched-off way. Every line that was
  MODIFIED is still cached as MODIFIED or is among the evictions handed to the controller.
  Nothing but the sets and the masks changes.
\<close>

theorem reconfigure_correct:
  assumes "reconf_wf c" and "unat (cb_blocksize (c_base c)) \<le> length buf"
  shows "\<exists>c' l. reconfigure env buf c = Inr (c', l) \<and> reconf_wf c' \<and>
    c' = c\<lparr>m_sets := m_sets c', isSubWayOn := isSubWayOn c'\<rparr> \<and>
    (\<forall>x k. x < nat (p_num_modules c) \<longrightarrow> ways_on c x k \<longrightarrow>
       ways_on c' x (next_ways (L2Hits c ! x) (ALPHA c) (BETA c) (unat (cb_associativity (c_base c))) k)) \<and>
    (\<forall>t b. cache_map c t = Some b \<longrightarrow> m_cstate b = MODIFIED \<longrightarrow>
       (\<exists>b'. cache_map c' t = Some b' \<and> m_cstate b' = MODIFIED) \<or>
       (\<exists>ev \<in> set l. m_tag (evict_block_info ev) = t \<and> m_cstate (evict_block_info ev) = MODIFIED))"
proof -
  obtain c' l where r: "reconf_modules env buf [0..<nat (p_num_modules c)] (c, []) = Inr (c', [] @ l)" "reconf_wf c'"
    and k: "keeps_dirty c c' l" and c': "c' = c\<lparr>m_sets := m_sets c', isSubWayOn := isSubWayOn c'\<rparr>"
    and on: "\<forall>x k. x \<in> set [0..<nat (p_num_modules c)] \<longrightarrow> ways_on c x k \<longrightarrow>
       ways_on c' x (next_ways (L2Hits c ! x) (ALPHA c) (BETA c) (unat (cb_associativity (c_base c))) k)"
    using reconf_modules_step [OF assms(1) _ _ assms(2), of "[0..<nat (p_num_modules c)]" env "[]"] by (simp only: atLeast_upt order_refl distinct_upt simp_thms) blast
  have "reconfigure env buf c = Inr (c', l)" using r(1) by (simp add: reconfigure_def)
  moreover have "(\<exists>b'. cache_map c' t = Some b' \<and> m_cstate b' = MODIFIED) \<or>
       (\<exists>ev \<in> set l. m_tag (evict_block_info ev) = t \<and> m_cstate (evict_block_info ev) = MODIFIED)"
    if "cache_map c t = Some b" "m_cstate b = MODIFIED" for t b
    using k that unfolding keeps_dirty_def dirty_ev_def by blast
  ultimately show ?thesis using r(2) c' on by (intro exI [of _ c'] exI [of _ l]) simp
qed

primrec ticks :: "nat \<Rightarrow> ('s \<Rightarrow> 's res) \<Rightarrow> u64 \<Rightarrow> Dyn_reconf \<times> 's \<Rightarrow> (Dyn_reconf \<times> 's) res" where
  "ticks 0 reconf elapsed ds = Inr ds"
| "ticks (Suc n) reconf elapsed ds = rbind (ticks n reconf elapsed ds) (\<lambda>(d, s). incrementCount reconf elapsed d s)"

text \<open>
  C32. The interval counter: of \<open>n\<close> instructions counted from a new \<open>Dyn_reconf\<close> on, exactly
  every 20000th starts a reconfiguration, as long as the 64-bit counter does not wrap.
\<close>

theorem incrementCount_every_20000:
  assumes "n < 2 ^ 64"
  shows "\<exists>d. ticks n (\<lambda>s. Inr (f s)) elapsed (Dyn_reconf_new, s) = Inr (d, (f ^^ (n div 20000)) s) \<and>
    p_instruction_count d = of_nat n"
  using assms
proof (induction n)
  case 0
  show ?case by (simp add: Dyn_reconf_new_def)
next
  case (Suc n)
  then obtain d where d: "ticks n (\<lambda>s. Inr (f s)) elapsed (Dyn_reconf_new, s) = Inr (d, (f ^^ (n div 20000)) s)"
    "p_instruction_count d = of_nat n" by auto
  let ?x = "word_of_nat (Suc n) :: u64"
  have u: "unat ?x = Suc n" using Suc.prems by (simp add: unat_of_nat del: of_nat_Suc)
  have "unat (?x mod 20000) = Suc n mod 20000" unfolding unat_mod u by simp
  then have z: "?x mod 20000 = 0 \<longleftrightarrow> Suc n mod 20000 = 0" by (metis unat_eq_0)
  have step: "Suc n div 20000 = (if Suc n mod 20000 = 0 then Suc (n div 20000) else n div 20000)"
    by (rule div_Suc)
  have c: "p_instruction_count d + 1 = ?x" using d(2) by simp
  show ?case
    unfolding ticks.simps d(1) rbind_Inr prod.case incrementCount_def Let_def step
    using c z by (simp del: of_nat_Suc)
qed

theorem reconf_module_correct_witness:
  "\<exists>m mx mn. reconf_module 4 2 5 55 [9, 9, 60, 2] (prefix_mask 4 4) = Inr (prefix_mask 4 m, m \<noteq> 4, mx, mn) \<and> m < 4"
  using reconf_module_correct [of 4 4 "[9, 9, 60, 2]" 5 55] by (auto simp: le_less)

theorem reconfigure_correct_witness:
  "\<exists>c' l. reconfigure \<lparr>env_warmup = False, env_owner = None, env_evict_buf = [], env_now = 0\<rparr> (replicate 64 0) example_cache =
     Inr (c', l) \<and> reconf_wf c' \<and> L2Hits c' = L2Hits example_cache"
proof -
  have "unat (cb_blocksize (c_base example_cache)) \<le> length (replicate 64 (0 :: u8))"
    by (simp add: example_cache_facts example_base_def)
  from reconfigure_correct [OF example_cache_reconf this, of "\<lparr>env_warmup = False, env_owner = None, env_evict_buf = [], env_now = 0\<rparr>"]
  obtain c' l where r: "reconfigure \<lparr>env_warmup = False, env_owner = None, env_evict_buf = [], env_now = 0\<rparr> (replicate 64 0) example_cache =
     Inr (c', l)" "reconf_wf c'" and c': "c' = example_cache\<lparr>m_sets := m_sets c', isSubWayOn := isSubWayOn c'\<rparr>" by blast
  have "L2Hits c' = L2Hits example_cache" using arg_cong [OF c', of L2Hits] by simp
  with r show ?thesis by blast
qed

theorem incrementCount_every_20000_witness:
  "\<exists>d. ticks 40001 (\<lambda>s. Inr (Suc s)) 0 (Dyn_reconf_new, 0) = Inr (d, 2) \<and> p_instruction_count d = 40001"
proof -
  have "(Suc ^^ 2) 0 = 2" by (simp add: numeral_2_eq_2)
  then show ?thesis using incrementCount_every_20000 [of 40001 Suc 0 0] by simp
qed

end
