(* ===== verification/ReqQueue.thy ===== *)
theory ReqQueue
  imports Prelude
begin

section \<open>Request queues\<close>

text \<open>
  \<^verbatim>\<open>common/misc/circular_queue.h\<close> and
  \<^verbatim>\<open>memory_subsystem/cache/req_queue_list_template.h\<close>: the bounded ring buffer
  \<open>CircularQueue\<close>, and \<open>ReqQueueListTemplate\<close>, one first-in first-out queue of requests per
  address, in the two implementations the header selects between with
  \<open>ENABLE_CIRCULAR_QUEUE\<close>. A \<open>std::map\<close> from addresses is a map, a \<open>std::queue\<close> a list with
  its front first. The interface \<open>req_queue_list\<close> states what the controllers rely on; both
  implementations are interpretations of it.
\<close>

subsection \<open>Circular queues\<close>

record 'a circular_queue =
  cq_size :: u32
  m_first :: u32 \<comment> \<open>next element to be inserted here\<close>
  m_last :: u32 \<comment> \<open>last element is here\<close>
  m_queue :: "'a list"

definition umod :: "u32 \<Rightarrow> u32 \<Rightarrow> u32 res" where
  "umod x y = (if y = 0 then Inl Undefined else Inr (x mod y))"

definition CircularQueue_new :: "'a \<Rightarrow> u32 \<Rightarrow> 'a circular_queue" where
  \<comment> \<open>\<open>junk\<close> fills the uninitialised array\<close>
  "CircularQueue_new junk sz =
     \<lparr>cq_size = sz + 1, m_first = 0, m_last = 0, m_queue = replicate (unat (sz + 1)) junk\<rparr>"

definition full :: "'a circular_queue \<Rightarrow> bool res" where
  "full q = rbind (umod (m_first q + 1) (cq_size q)) (\<lambda>n. Inr (n = m_last q))"

definition empty_cq :: "'a circular_queue \<Rightarrow> bool" where
  "empty_cq q \<longleftrightarrow> m_first q = m_last q"

definition size_cq :: "'a circular_queue \<Rightarrow> u32 res" where
  "size_cq q = umod (m_first q + cq_size q - m_last q) (cq_size q)"

definition CircularQueue_copy :: "'a \<Rightarrow> 'a circular_queue \<Rightarrow> 'a circular_queue res" where
  \<comment> \<open>the copy constructor: only the size parameter is copied\<close>
  "CircularQueue_copy junk q =
     rbind (size_cq q) (\<lambda>n.
     rbind (ensure AssertFailed (n = 0)) (\<lambda>_.
     Inr \<lparr>cq_size = cq_size q, m_first = 0, m_last = 0, m_queue = replicate (unat (cq_size q)) junk\<rparr>))"

definition push :: "'a \<Rightarrow> 'a circular_queue \<Rightarrow> 'a circular_queue res" where
  "push t q =
     rbind (full q) (\<lambda>b.
     rbind (ensure AssertFailed (\<not> b)) (\<lambda>_.
     rbind (nth_res (m_queue q) (unat (m_first q))) (\<lambda>_.
     rbind (umod (m_first q + 1) (cq_size q)) (\<lambda>n.
     Inr (q\<lparr>m_queue := (m_queue q)[unat (m_first q) := t], m_first := n\<rparr>)))))"

definition pop :: "'a circular_queue \<Rightarrow> ('a \<times> 'a circular_queue) res" where
  "pop q =
     rbind (ensure AssertFailed (\<not> empty_cq q)) (\<lambda>_.
     rbind (umod (m_last q + 1) (cq_size q)) (\<lambda>n.
     rbind (nth_res (m_queue q) (unat (m_last q))) (\<lambda>x.
     Inr (x, q\<lparr>m_last := n\<rparr>))))"

definition pushCircular :: "'a \<Rightarrow> 'a circular_queue \<Rightarrow> 'a circular_queue res" where
  "pushCircular t q =
     rbind (full q) (\<lambda>b.
     rbind (if b then rbind (pop q) (\<lambda>(_, q). Inr q) else Inr q) (\<lambda>q.
     push t q))"

definition next_cq :: "'a circular_queue \<Rightarrow> (nat \<times> 'a circular_queue) res" where
  \<comment> \<open>returns the slot the caller may fill\<close>
  "next_cq q =
     rbind (full q) (\<lambda>b.
     rbind (ensure AssertFailed (\<not> b)) (\<lambda>_.
     rbind (umod (m_first q + 1) (cq_size q)) (\<lambda>n.
     Inr (unat (m_first q), q\<lparr>m_first := n\<rparr>))))"

definition front_cq :: "'a circular_queue \<Rightarrow> 'a res" where
  "front_cq q =
     rbind (ensure AssertFailed (\<not> empty_cq q)) (\<lambda>_. nth_res (m_queue q) (unat (m_last q)))"

definition back_cq :: "'a circular_queue \<Rightarrow> 'a res" where
  "back_cq q =
     rbind (ensure AssertFailed (\<not> empty_cq q)) (\<lambda>_.
     rbind (umod (m_first q + cq_size q - 1) (cq_size q)) (\<lambda>n. nth_res (m_queue q) (unat n)))"

definition at_cq :: "'a circular_queue \<Rightarrow> u32 \<Rightarrow> 'a res" where
  "at_cq q idx =
     rbind (size_cq q) (\<lambda>n.
     rbind (ensure AssertFailed (idx < n)) (\<lambda>_.
     rbind (umod (m_last q + idx) (cq_size q)) (\<lambda>k. nth_res (m_queue q) (unat k))))"

subsection \<open>One queue per address\<close>

type_synonym 'r req_queue_map = "IntPtr \<rightharpoonup> 'r list"

definition enqueue :: "IntPtr \<Rightarrow> 'r \<Rightarrow> 'r req_queue_map \<Rightarrow> 'r req_queue_map" where
  "enqueue address shmem_req q =
     (let q = (if q address = None then q(address \<mapsto> []) else q)
      in q(address \<mapsto> the (q address) @ [shmem_req]))"

definition dequeue :: "IntPtr \<Rightarrow> 'r req_queue_map \<Rightarrow> ('r \<times> 'r req_queue_map) res" where
  "dequeue address q =
     (case q address of
        None \<Rightarrow> Inl AssertFailed
      | Some [] \<Rightarrow> Inl Undefined
      | Some (x # xs) \<Rightarrow> Inr (x, if xs = [] then q(address := None) else q(address \<mapsto> xs)))"

definition front :: "IntPtr \<Rightarrow> 'r req_queue_map \<Rightarrow> 'r res" where
  "front address q =
     (case q address of None \<Rightarrow> Inl AssertFailed | Some [] \<Rightarrow> Inl Undefined | Some (x # _) \<Rightarrow> Inr x)"

definition back_rq :: "IntPtr \<Rightarrow> 'r req_queue_map \<Rightarrow> 'r res" where
  "back_rq address q =
     (case q address of
        None \<Rightarrow> Inl AssertFailed | Some [] \<Rightarrow> Inl Undefined | Some (x # xs) \<Rightarrow> Inr (last (x # xs)))"

definition size_rq :: "IntPtr \<Rightarrow> 'r req_queue_map \<Rightarrow> u32" where
  "size_rq address q = (case q address of None \<Rightarrow> 0 | Some xs \<Rightarrow> of_nat (length xs))"

definition empty_rq :: "IntPtr \<Rightarrow> 'r req_queue_map \<Rightarrow> bool" where
  "empty_rq address q \<longleftrightarrow> q address = None"

text \<open>The alternative on ring buffers of the default size 63.\<close>

type_synonym 'r creq_queue_map = "IntPtr \<rightharpoonup> 'r circular_queue"

definition get_cq :: "'r \<Rightarrow> IntPtr \<Rightarrow> 'r creq_queue_map \<Rightarrow> 'r circular_queue" where
  \<comment> \<open>\<open>m_req_queue_list[address]\<close>, creating the entry if there is none\<close>
  "get_cq junk address q = (case q address of None \<Rightarrow> CircularQueue_new junk 63 | Some c \<Rightarrow> c)"

definition enqueue_circ :: "'r \<Rightarrow> IntPtr \<Rightarrow> 'r \<Rightarrow> 'r creq_queue_map \<Rightarrow> 'r creq_queue_map res" where
  "enqueue_circ junk address shmem_req q =
     rbind (push shmem_req (get_cq junk address q)) (\<lambda>c. Inr (q(address \<mapsto> c)))"

definition dequeue_circ :: "IntPtr \<Rightarrow> 'r creq_queue_map \<Rightarrow> ('r \<times> 'r creq_queue_map) res" where
  "dequeue_circ address q =
     (case q address of
        None \<Rightarrow> Inl AssertFailed
      | Some c \<Rightarrow>
          rbind (ensure AssertFailed (\<not> empty_cq c)) (\<lambda>_.
          rbind (pop c) (\<lambda>(x, c).
          Inr (x, if empty_cq c then q(address := None) else q(address \<mapsto> c)))))"

definition front_circ :: "IntPtr \<Rightarrow> 'r creq_queue_map \<Rightarrow> 'r res" where
  "front_circ address q =
     (case q address of
        None \<Rightarrow> Inl AssertFailed
      | Some c \<Rightarrow> rbind (ensure AssertFailed (\<not> empty_cq c)) (\<lambda>_. front_cq c))"

definition size_circ :: "IntPtr \<Rightarrow> 'r creq_queue_map \<Rightarrow> u32 res" where
  "size_circ address q = (case q address of None \<Rightarrow> Inr 0 | Some c \<Rightarrow> size_cq c)"

definition empty_circ :: "IntPtr \<Rightarrow> 'r creq_queue_map \<Rightarrow> bool" where
  "empty_circ address q \<longleftrightarrow> (case q address of None \<Rightarrow> True | Some c \<Rightarrow> empty_cq c)"

subsection \<open>The ring buffer as a list\<close>

definition cq_inv :: "'a circular_queue \<Rightarrow> bool" where
  "cq_inv q \<longleftrightarrow> 0 < cq_size q \<and> unat (cq_size q) \<le> 2 ^ 31 \<and> m_first q < cq_size q \<and> m_last q < cq_size q \<and>
     length (m_queue q) = unat (cq_size q)"

definition cq_count :: "'a circular_queue \<Rightarrow> nat" where
  "cq_count q = (unat (m_first q) + unat (cq_size q) - unat (m_last q)) mod unat (cq_size q)"

definition cq_list :: "'a circular_queue \<Rightarrow> 'a list" where
  "cq_list q = map (\<lambda>i. m_queue q ! ((unat (m_last q) + i) mod unat (cq_size q))) [0..<cq_count q]"

lemma length_cq_list [simp]: "length (cq_list q) = cq_count q"
  by (simp add: cq_list_def)

lemma cq_invD:
  assumes "cq_inv q"
  shows "0 < unat (cq_size q)" and "unat (cq_size q) \<le> 2 ^ 31" and "unat (m_first q) < unat (cq_size q)"
    and "unat (m_last q) < unat (cq_size q)" and "length (m_queue q) = unat (cq_size q)" and "cq_size q \<noteq> 0"
  using assms by (auto simp: cq_inv_def word_less_nat_alt unat_gt_0)

lemma unat_add_small: "unat (x :: u32) + unat y < 2 ^ 32 \<Longrightarrow> unat (x + y) = unat x + unat y"
  by (simp add: unat_word_ariths)

lemma unat_step:
  assumes "unat (s :: u32) \<le> 2 ^ 31" and "unat x < unat s"
  shows "unat ((x + 1) mod s) = (unat x + 1) mod unat s"
  using assms by (simp add: unat_mod unat_add_small)

lemma cq_count_less: "cq_inv q \<Longrightarrow> cq_count q < unat (cq_size q)"
  using cq_invD(1) [of q] by (simp add: cq_count_def)

lemma ring_count:
  fixes f l s :: nat
  assumes "f < s" and "l < s"
  shows "(f + s - l) mod s = (if l \<le> f then f - l else f + s - l)"
proof (cases "l \<le> f")
  case True
  then have e: "f + s - l = (f - l) + s" by simp
  show ?thesis unfolding e mod_add_self2 using True assms by simp
next
  case False
  with assms show ?thesis by simp
qed

lemma cq_count_eq:
  "cq_inv q \<Longrightarrow> cq_count q =
    (if unat (m_last q) \<le> unat (m_first q) then unat (m_first q) - unat (m_last q)
     else unat (m_first q) + unat (cq_size q) - unat (m_last q))"
  unfolding cq_count_def by (rule ring_count) (simp_all add: cq_invD)

lemma empty_cq_count: "cq_inv q \<Longrightarrow> empty_cq q \<longleftrightarrow> cq_count q = 0"
  using cq_invD(3,4) [of q] by (auto simp: cq_count_eq empty_cq_def word_unat_eq_iff split: if_splits)

lemma succ_mod: "x < (s :: nat) \<Longrightarrow> Suc x mod s = (if Suc x = s then 0 else Suc x)"
  by auto

lemma full_count: "cq_inv q \<Longrightarrow> full q = Inr (cq_count q + 1 = unat (cq_size q))"
proof -
  assume i: "cq_inv q"
  note d = cq_invD [OF i]
  have "(m_first q + 1) mod cq_size q = m_last q \<longleftrightarrow> (unat (m_first q) + 1) mod unat (cq_size q) = unat (m_last q)"
    using unat_step [OF d(2,3)] by (metis word_unat_eq_iff)
  also have "\<dots> \<longleftrightarrow> cq_count q + 1 = unat (cq_size q)"
    using d(1,3,4) by (auto simp: cq_count_eq [OF i] succ_mod split: if_splits)
  finally show ?thesis using d(6) by (simp add: full_def umod_def)
qed

lemma size_cq_count: "cq_inv q \<Longrightarrow> size_cq q = Inr (of_nat (cq_count q))"
proof -
  assume i: "cq_inv q"
  note d = cq_invD [OF i]
  have s: "unat (m_first q + cq_size q) = unat (m_first q) + unat (cq_size q)"
    using d(2,3) by (intro unat_add_small) simp
  have "m_last q \<le> m_first q + cq_size q" using s d(4) by (simp add: word_le_nat_alt)
  then have "unat (m_first q + cq_size q - m_last q) = unat (m_first q) + unat (cq_size q) - unat (m_last q)"
    using s by (simp add: unat_sub)
  then have "unat ((m_first q + cq_size q - m_last q) mod cq_size q) = cq_count q"
    by (simp add: unat_mod cq_count_def)
  then have "(m_first q + cq_size q - m_last q) mod cq_size q = of_nat (cq_count q)"
    by (metis of_nat_unat ucast_id)
  then show ?thesis using d(6) by (simp add: size_cq_def umod_def)
qed

lemma ring_index:
  fixes l i s :: nat
  assumes "l < s" and "i < s"
  shows "(l + i) mod s = (if l + i < s then l + i else l + i - s)"
  using assms by (simp add: mod_if)

lemma cq_slot:
  assumes "cq_inv q" and "i \<le> cq_count q"
  shows "(unat (m_last q) + i) mod unat (cq_size q) = unat (m_first q) \<longleftrightarrow> i = cq_count q"
proof -
  note d = cq_invD [OF assms(1)]
  have "i < unat (cq_size q)" using assms(2) cq_count_less [OF assms(1)] by simp
  then show ?thesis
    using assms(2) d(3,4) by (auto simp: ring_index [OF d(4)] cq_count_eq [OF assms(1)] split: if_splits)
qed

lemma cq_list_nth: "i < cq_count q \<Longrightarrow> cq_list q ! i = m_queue q ! ((unat (m_last q) + i) mod unat (cq_size q))"
  by (simp add: cq_list_def)

lemma push_list:
  assumes i: "cq_inv q" and n: "cq_count q + 1 < unat (cq_size q)"
  shows "\<exists>q'. push t q = Inr q' \<and> cq_inv q' \<and> cq_size q' = cq_size q \<and> cq_list q' = cq_list q @ [t]"
proof -
  note d = cq_invD [OF i]
  let ?q = "q\<lparr>m_queue := (m_queue q)[unat (m_first q) := t], m_first := (m_first q + 1) mod cq_size q\<rparr>"
  have run: "push t q = Inr ?q"
    using full_count [OF i] n d(3,5,6) by (simp add: push_def umod_def)
  have f: "unat ((m_first q + 1) mod cq_size q) = (unat (m_first q) + 1) mod unat (cq_size q)"
    by (rule unat_step [OF d(2,3)])
  have i': "cq_inv ?q" using i d(1) f by (simp add: cq_inv_def word_less_nat_alt)
  have c: "cq_count ?q = Suc (cq_count q)"
    unfolding cq_count_eq [OF i'] cq_count_eq [OF i] using n d(3,4)
    by (auto simp: f succ_mod cq_count_eq [OF i] split: if_splits)
  have "cq_list ?q = cq_list q @ [t]"
  proof (rule nth_equalityI)
    fix j assume "j < length (cq_list ?q)"
    then have j: "j \<le> cq_count q" using c by simp
    have len: "(unat (m_last q) + j) mod unat (cq_size q) < length (m_queue q)" using d(1,5) by simp
    show "cq_list ?q ! j = (cq_list q @ [t]) ! j"
    proof (cases "j = cq_count q")
      case True
      then have "(unat (m_last q) + j) mod unat (cq_size q) = unat (m_first q)" using cq_slot [OF i j] by simp
      then show ?thesis using True c len by (simp add: cq_list_nth nth_append)
    next
      case False
      then have "(unat (m_last q) + j) mod unat (cq_size q) \<noteq> unat (m_first q)" using cq_slot [OF i j] by simp
      then show ?thesis using False j c by (simp add: cq_list_nth nth_append)
    qed
  qed (simp add: c)
  with run i' show ?thesis by auto
qed

lemma push_full: "cq_inv q \<Longrightarrow> cq_count q + 1 = unat (cq_size q) \<Longrightarrow> push t q = Inl AssertFailed"
  by (simp add: push_def full_count)

lemma pop_list:
  assumes i: "cq_inv q" and l: "cq_list q = x # xs"
  shows "\<exists>q'. pop q = Inr (x, q') \<and> cq_inv q' \<and> cq_size q' = cq_size q \<and> cq_list q' = xs"
proof -
  note d = cq_invD [OF i]
  have c: "cq_count q = Suc (length xs)" using arg_cong [OF l, of length] by simp
  then have e: "\<not> empty_cq q" using empty_cq_count [OF i] by simp
  let ?q = "q\<lparr>m_last := (m_last q + 1) mod cq_size q\<rparr>"
  have f: "unat ((m_last q + 1) mod cq_size q) = (unat (m_last q) + 1) mod unat (cq_size q)"
    by (rule unat_step [OF d(2,4)])
  have "x = cq_list q ! 0" using l by simp
  also have "\<dots> = m_queue q ! unat (m_last q)" using c d(4) by (simp add: cq_list_nth)
  finally have run: "pop q = Inr (x, ?q)" using e d(4,5,6) by (simp add: pop_def umod_def)
  have i': "cq_inv ?q" using i d(1) f by (simp add: cq_inv_def word_less_nat_alt)
  have c': "cq_count ?q = length xs"
    using c d(3,4) unfolding cq_count_eq [OF i'] cq_count_eq [OF i]
    by (auto simp: f succ_mod split: if_splits)
  have "cq_list ?q = xs"
  proof (rule nth_equalityI)
    fix j assume "j < length (cq_list ?q)"
    then have j: "j < length xs" using c' by simp
    have "xs ! j = cq_list q ! Suc j" using l by simp
    also have "\<dots> = m_queue q ! ((unat (m_last q) + Suc j) mod unat (cq_size q))" using j c by (simp add: cq_list_nth)
    finally show "cq_list ?q ! j = xs ! j"
      using j c' by (simp add: cq_list_nth f mod_simps)
  qed (simp add: c')
  with run i' show ?thesis by auto
qed

lemma cq_empty_list: "cq_inv q \<Longrightarrow> empty_cq q \<longleftrightarrow> cq_list q = []"
  using empty_cq_count length_0_conv [of "cq_list q"] by auto

lemma front_cq_list: "cq_inv q \<Longrightarrow> front_cq q = (case cq_list q of [] \<Rightarrow> Inl AssertFailed | x # _ \<Rightarrow> Inr x)"
proof -
  assume i: "cq_inv q"
  note d = cq_invD [OF i]
  show ?thesis
  proof (cases "cq_list q")
    case Nil
    then show ?thesis using cq_empty_list [OF i] by (simp add: front_cq_def)
  next
    case (Cons x xs)
    then have "0 < cq_count q" by (metis length_cq_list length_greater_0_conv list.discI)
    then have "x = m_queue q ! unat (m_last q)" using Cons d(4) cq_list_nth [of 0 q] by simp
    then show ?thesis using Cons cq_empty_list [OF i] d(4,5) by (simp add: front_cq_def)
  qed
qed

lemma back_cq_list: "cq_inv q \<Longrightarrow> cq_list q \<noteq> [] \<Longrightarrow> back_cq q = Inr (last (cq_list q))"
proof -
  assume i: "cq_inv q" and n: "cq_list q \<noteq> []"
  note d = cq_invD [OF i]
  have c: "0 < cq_count q" using n by (metis length_cq_list length_greater_0_conv)
  have s: "unat (m_first q + cq_size q) = unat (m_first q) + unat (cq_size q)"
    using d(2,3) by (intro unat_add_small) simp
  have "1 \<le> m_first q + cq_size q" using s d(1) by (simp add: word_le_nat_alt)
  then have "unat (m_first q + cq_size q - 1) = unat (m_first q) + unat (cq_size q) - 1"
    using s by (simp add: unat_sub)
  then have u: "unat ((m_first q + cq_size q - 1) mod cq_size q) = (unat (m_first q) + unat (cq_size q) - 1) mod unat (cq_size q)"
    by (simp add: unat_mod)
  have "cq_count q - 1 < unat (cq_size q)" using cq_count_less [OF i] by simp
  moreover have "1 < unat (cq_size q)" using c cq_count_less [OF i] by simp
  ultimately have "(unat (m_first q) + unat (cq_size q) - 1) mod unat (cq_size q) =
      (unat (m_last q) + (cq_count q - 1)) mod unat (cq_size q)"
    using c d(3,4) by (auto simp: ring_count ring_index [OF d(4)] cq_count_eq [OF i] split: if_splits)
  then have "last (cq_list q) = m_queue q ! unat ((m_first q + cq_size q - 1) mod cq_size q)"
    using c u by (simp add: last_conv_nth [OF n] cq_list_nth)
  moreover have "unat ((m_first q + cq_size q - 1) mod cq_size q) < length (m_queue q)" unfolding u using d(1,5) by simp
  ultimately show ?thesis using n cq_empty_list [OF i] d(6) by (simp add: back_cq_def umod_def)
qed

lemma at_cq_list:
  assumes i: "cq_inv q" and j: "unat idx < cq_count q"
  shows "at_cq q idx = Inr (cq_list q ! unat idx)"
proof -
  note d = cq_invD [OF i]
  have c: "cq_count q < 2 ^ 32" using cq_count_less [OF i] d(2) by simp
  then have "unat (of_nat (cq_count q) :: u32) = cq_count q" by (simp add: unat_of_nat)
  then have "idx < of_nat (cq_count q)" using j by (simp add: word_less_nat_alt)
  moreover have "unat (m_last q + idx) = unat (m_last q) + unat idx"
    using d(2,4) j cq_count_less [OF i] by (intro unat_add_small) simp
  ultimately show ?thesis
    using d j by (simp add: at_cq_def size_cq_count [OF i] umod_def unat_mod cq_list_nth)
qed

lemma pushCircular_list:
  assumes i: "cq_inv q" and n: "1 < unat (cq_size q)"
  shows "\<exists>q'. pushCircular t q = Inr q' \<and> cq_inv q' \<and> cq_size q' = cq_size q \<and>
    cq_list q' = (if cq_count q + 1 = unat (cq_size q) then tl (cq_list q) else cq_list q) @ [t]"
proof (cases "cq_count q + 1 = unat (cq_size q)")
  case True
  with n have "cq_list q \<noteq> []" by (metis add_0 length_cq_list list.size(3) nat_neq_iff)
  then obtain x xs where l: "cq_list q = x # xs" by (cases "cq_list q") auto
  then obtain q1 where p: "pop q = Inr (x, q1)" "cq_inv q1" "cq_size q1 = cq_size q" "cq_list q1 = xs"
    using pop_list [OF i] by blast
  have "cq_count q1 + 1 < unat (cq_size q1)"
    using p(3,4) True l by (metis Suc_eq_plus1 length_Cons length_cq_list lessI)
  from push_list [OF p(2) this, of t] p True l show ?thesis
    by (auto simp: pushCircular_def full_count [OF i])
next
  case False
  then have "cq_count q + 1 < unat (cq_size q)" using cq_count_less [OF i] by simp
  from push_list [OF i this, of t] False show ?thesis by (auto simp: pushCircular_def full_count [OF i])
qed

lemma CircularQueue_new_list:
  assumes "unat sz < 2 ^ 31"
  shows "cq_inv (CircularQueue_new junk sz)" and "cq_list (CircularQueue_new junk sz) = []"
    and "unat (cq_size (CircularQueue_new junk sz)) = unat sz + 1"
proof -
  have "unat (sz + 1) = unat sz + 1" using assms by (intro trans [OF unat_add_small]) simp_all
  then show "cq_inv (CircularQueue_new junk sz)" "unat (cq_size (CircularQueue_new junk sz)) = unat sz + 1"
    using assms by (simp_all add: cq_inv_def CircularQueue_new_def word_less_nat_alt)
  show "cq_list (CircularQueue_new junk sz) = []"
    by (simp add: cq_list_def cq_count_def CircularQueue_new_def)
qed

subsection \<open>The interface of the request lists\<close>

text \<open>A sequence of calls on a request list, with what each call returns.\<close>

datatype 'r rq_op = Enqueue IntPtr 'r | Dequeue IntPtr | Front IntPtr | Size IntPtr | Empty IntPtr

datatype 'r rq_ret = Done | Req 'r | Count u32 | Flag bool

fun rq_call ::
    "(IntPtr \<Rightarrow> 'r \<Rightarrow> 'q \<Rightarrow> 'q res) \<Rightarrow> (IntPtr \<Rightarrow> 'q \<Rightarrow> ('r \<times> 'q) res) \<Rightarrow> (IntPtr \<Rightarrow> 'q \<Rightarrow> 'r res) \<Rightarrow>
     (IntPtr \<Rightarrow> 'q \<Rightarrow> u32 res) \<Rightarrow> (IntPtr \<Rightarrow> 'q \<Rightarrow> bool) \<Rightarrow> 'r rq_op \<Rightarrow> 'q \<Rightarrow> ('r rq_ret \<times> 'q) res" where
  "rq_call enq deq frt siz emp (Enqueue a r) q = rbind (enq a r q) (\<lambda>q. Inr (Done, q))"
| "rq_call enq deq frt siz emp (Dequeue a) q = rbind (deq a q) (\<lambda>(r, q). Inr (Req r, q))"
| "rq_call enq deq frt siz emp (Front a) q = rbind (frt a q) (\<lambda>r. Inr (Req r, q))"
| "rq_call enq deq frt siz emp (Size a) q = rbind (siz a q) (\<lambda>n. Inr (Count n, q))"
| "rq_call enq deq frt siz emp (Empty a) q = Inr (Flag (emp a q), q)"

fun run_calls :: "('c \<Rightarrow> 'q \<Rightarrow> ('o \<times> 'q) res) \<Rightarrow> 'c list \<Rightarrow> 'q \<Rightarrow> ('o list \<times> 'q) res" where
  "run_calls call [] q = Inr ([], q)"
| "run_calls call (c # cs) q =
     rbind (call c q) (\<lambda>(r, q). rbind (run_calls call cs q) (\<lambda>(rs, q). Inr (r # rs, q)))"

fun spec_call :: "'r rq_op \<Rightarrow> (IntPtr \<Rightarrow> 'r list) \<Rightarrow> ('r rq_ret \<times> (IntPtr \<Rightarrow> 'r list)) res" where
  "spec_call (Enqueue a r) m = Inr (Done, m(a := m a @ [r]))"
| "spec_call (Dequeue a) m = (case m a of [] \<Rightarrow> Inl AssertFailed | x # xs \<Rightarrow> Inr (Req x, m(a := xs)))"
| "spec_call (Front a) m = (case m a of [] \<Rightarrow> Inl AssertFailed | x # xs \<Rightarrow> Inr (Req x, m))"
| "spec_call (Size a) m = Inr (Count (of_nat (length (m a))), m)"
| "spec_call (Empty a) m = Inr (Flag (m a = []), m)"

fun fits :: "(nat \<Rightarrow> bool) \<Rightarrow> 'r rq_op list \<Rightarrow> (IntPtr \<Rightarrow> 'r list) \<Rightarrow> bool" where
  \<comment> \<open>no call enqueues on a queue without room\<close>
  "fits room [] m = True"
| "fits room (c # cs) m =
     ((case c of Enqueue a r \<Rightarrow> room (length (m a)) | _ \<Rightarrow> True) \<and>
      (case spec_call c m of Inl _ \<Rightarrow> True | Inr (_, m') \<Rightarrow> fits room cs m'))"

lemma fits_mono: "fits room cs m \<Longrightarrow> fits (\<lambda>_. True) cs m"
  by (induction cs arbitrary: m) (auto split: rq_op.splits sum.splits)

locale req_queue_list =
  fixes enq :: "IntPtr \<Rightarrow> 'r \<Rightarrow> 'q \<Rightarrow> 'q res" and deq :: "IntPtr \<Rightarrow> 'q \<Rightarrow> ('r \<times> 'q) res"
    and frt :: "IntPtr \<Rightarrow> 'q \<Rightarrow> 'r res" and siz :: "IntPtr \<Rightarrow> 'q \<Rightarrow> u32 res" and emp :: "IntPtr \<Rightarrow> 'q \<Rightarrow> bool"
    and qof :: "'q \<Rightarrow> IntPtr \<Rightarrow> 'r list" and qinv :: "'q \<Rightarrow> bool" and room :: "nat \<Rightarrow> bool"
  assumes enq_law: "qinv q \<Longrightarrow> room (length (qof q a)) \<Longrightarrow>
      \<exists>q'. enq a r q = Inr q' \<and> qinv q' \<and> qof q' = (qof q)(a := qof q a @ [r])"
    and deq_nil: "qinv q \<Longrightarrow> qof q a = [] \<Longrightarrow> deq a q = Inl AssertFailed"
    and deq_cons: "qinv q \<Longrightarrow> qof q a = x # xs \<Longrightarrow>
      \<exists>q'. deq a q = Inr (x, q') \<and> qinv q' \<and> qof q' = (qof q)(a := xs)"
    and frt_law: "qinv q \<Longrightarrow> frt a q = (case qof q a of [] \<Rightarrow> Inl AssertFailed | x # _ \<Rightarrow> Inr x)"
    and siz_law: "qinv q \<Longrightarrow> siz a q = Inr (of_nat (length (qof q a)))"
    and emp_law: "qinv q \<Longrightarrow> emp a q \<longleftrightarrow> qof q a = []"
begin

lemma call_refines:
  assumes "qinv q" and "case c of Enqueue a r \<Rightarrow> room (length (qof q a)) | _ \<Rightarrow> True"
  shows "case spec_call c (qof q) of
      Inl e \<Rightarrow> rq_call enq deq frt siz emp c q = Inl e
    | Inr (r, m) \<Rightarrow> \<exists>q'. rq_call enq deq frt siz emp c q = Inr (r, q') \<and> qinv q' \<and> qof q' = m"
proof (cases c)
  case (Enqueue a r)
  then show ?thesis using enq_law [OF assms(1), of a r] assms(2) by auto
next
  case (Dequeue a)
  then show ?thesis using deq_nil [OF assms(1), of a] deq_cons [OF assms(1), of a] by (cases "qof q a") auto
next
  case (Front a)
  then show ?thesis using frt_law [OF assms(1), of a] assms(1) by (cases "qof q a") auto
qed (use assms(1) siz_law [OF assms(1)] emp_law [OF assms(1)] in auto)

lemma calls_refine:
  assumes "qinv q" and "fits room cs (qof q)"
  shows "case run_calls spec_call cs (qof q) of
      Inl e \<Rightarrow> run_calls (rq_call enq deq frt siz emp) cs q = Inl e
    | Inr (rs, m) \<Rightarrow> \<exists>q'. run_calls (rq_call enq deq frt siz emp) cs q = Inr (rs, q') \<and> qinv q' \<and> qof q' = m"
  using assms
proof (induction cs arbitrary: q)
  case (Cons c cs)
  have step: "case spec_call c (qof q) of
      Inl e \<Rightarrow> rq_call enq deq frt siz emp c q = Inl e
    | Inr (r, m) \<Rightarrow> \<exists>q'. rq_call enq deq frt siz emp c q = Inr (r, q') \<and> qinv q' \<and> qof q' = m"
    using Cons.prems by (intro call_refines) simp_all
  show ?case
  proof (cases "spec_call c (qof q)")
    case (Inl e)
    with step show ?thesis by simp
  next
    case (Inr rm)
    then obtain r m where rm: "spec_call c (qof q) = Inr (r, m)" by (cases rm) simp
    then obtain q' where q': "rq_call enq deq frt siz emp c q = Inr (r, q')" "qinv q'" "qof q' = m" using step by auto
    have "fits room cs (qof q')" using Cons.prems(2) rm q'(3) by simp
    from Cons.IH [OF q'(2) this] show ?thesis
      by (auto simp: rm q'(1) q'(3) split: sum.splits)
  qed
qed simp

end

text \<open>The default implementation.\<close>

definition rq_list :: "'r req_queue_map \<Rightarrow> IntPtr \<Rightarrow> 'r list" where
  "rq_list q a = (case q a of None \<Rightarrow> [] | Some xs \<Rightarrow> xs)"

definition rq_inv :: "'r req_queue_map \<Rightarrow> bool" where
  \<comment> \<open>\<open>dequeue\<close> erases a queue that becomes empty\<close>
  "rq_inv q \<longleftrightarrow> (\<forall>a. q a \<noteq> Some [])"

lemma rq_upd:
  "rq_list (q(a := None)) = (rq_list q)(a := [])" "rq_list (q(a \<mapsto> xs)) = (rq_list q)(a := xs)"
  "rq_inv q \<Longrightarrow> rq_inv (q(a := None))" "rq_inv q \<Longrightarrow> xs \<noteq> [] \<Longrightarrow> rq_inv (q(a \<mapsto> xs))"
  by (auto simp: rq_list_def rq_inv_def)

lemma enqueue_list: "rq_list (enqueue a r q) = (rq_list q)(a := rq_list q a @ [r])"
  by (auto simp: enqueue_def rq_list_def Let_def fun_eq_iff split: option.splits)

lemma enqueue_inv: "rq_inv q \<Longrightarrow> rq_inv (enqueue a r q)"
  by (auto simp: enqueue_def rq_inv_def Let_def)

lemma dequeue_list:
  assumes "rq_inv q"
  shows "dequeue a q = (case rq_list q a of [] \<Rightarrow> Inl AssertFailed | x # xs \<Rightarrow> Inr (x, if xs = [] then q(a := None) else q(a \<mapsto> xs)))"
  using assms by (auto simp: dequeue_def rq_list_def rq_inv_def split: option.splits list.splits)

lemma dequeue_cons:
  assumes "rq_inv q" and "rq_list q a = x # xs"
  shows "\<exists>q'. dequeue a q = Inr (x, q') \<and> rq_inv q' \<and> rq_list q' = (rq_list q)(a := xs)"
  using assms by (simp add: dequeue_list rq_upd)

lemma front_list: "rq_inv q \<Longrightarrow> front a q = (case rq_list q a of [] \<Rightarrow> Inl AssertFailed | x # _ \<Rightarrow> Inr x)"
  by (auto simp: front_def rq_list_def rq_inv_def split: option.splits list.splits)

lemma size_rq_list: "size_rq a q = of_nat (length (rq_list q a))"
  by (simp add: size_rq_def rq_list_def split: option.splits)

lemma empty_rq_list: "rq_inv q \<Longrightarrow> empty_rq a q \<longleftrightarrow> rq_list q a = []"
  by (auto simp: empty_rq_def rq_list_def rq_inv_def split: option.splits)

interpretation rq: req_queue_list "\<lambda>a r q. Inr (enqueue a r q)" dequeue front "\<lambda>a q. Inr (size_rq a q)" empty_rq rq_list rq_inv "\<lambda>_. True"
  by unfold_locales
    (simp_all add: enqueue_list enqueue_inv dequeue_list rq_upd front_list size_rq_list empty_rq_list)

text \<open>The implementation on ring buffers.\<close>

definition crq_list :: "'r creq_queue_map \<Rightarrow> IntPtr \<Rightarrow> 'r list" where
  "crq_list q a = (case q a of None \<Rightarrow> [] | Some c \<Rightarrow> cq_list c)"

definition crq_inv :: "'r creq_queue_map \<Rightarrow> bool" where
  "crq_inv q \<longleftrightarrow> (\<forall>a c. q a = Some c \<longrightarrow> cq_inv c \<and> unat (cq_size c) = 64)"

lemma crq_upd:
  "crq_list (q(a := None)) = (crq_list q)(a := [])" "crq_list (q(a \<mapsto> c)) = (crq_list q)(a := cq_list c)"
  "crq_inv q \<Longrightarrow> crq_inv (q(a := None))"
  "crq_inv q \<Longrightarrow> cq_inv c \<Longrightarrow> unat (cq_size c) = 64 \<Longrightarrow> crq_inv (q(a \<mapsto> c))"
  by (auto simp: crq_list_def crq_inv_def)

lemma get_cq_list:
  assumes "crq_inv q"
  shows "cq_inv (get_cq junk a q)" and "unat (cq_size (get_cq junk a q)) = 64" and "cq_list (get_cq junk a q) = crq_list q a"
  using assms CircularQueue_new_list [of 63 junk]
  by (auto simp: get_cq_def crq_inv_def crq_list_def split: option.splits)

lemma enqueue_circ_list:
  assumes "crq_inv q" and "length (crq_list q a) < 63"
  shows "\<exists>q'. enqueue_circ junk a r q = Inr q' \<and> crq_inv q' \<and> crq_list q' = (crq_list q)(a := crq_list q a @ [r])"
proof -
  note g = get_cq_list [OF assms(1), of junk a]
  have "cq_count (get_cq junk a q) + 1 < unat (cq_size (get_cq junk a q))"
    using assms(2) g(2) length_cq_list [of "get_cq junk a q"] unfolding g(3) by simp
  from push_list [OF g(1) this, of r] obtain c where
    c: "push r (get_cq junk a q) = Inr c" "cq_inv c" "cq_size c = cq_size (get_cq junk a q)" "cq_list c = crq_list q a @ [r]"
    using g(3) by auto
  then show ?thesis using assms(1) g(2) by (simp add: enqueue_circ_def crq_upd)
qed

lemma dequeue_circ_nil:
  assumes "crq_inv q" and "crq_list q a = []"
  shows "dequeue_circ a q = Inl AssertFailed"
proof (cases "q a")
  case (Some c)
  then have "empty_cq c" using assms cq_empty_list [of c] by (auto simp: crq_inv_def crq_list_def)
  with Some show ?thesis by (simp add: dequeue_circ_def)
qed (simp add: dequeue_circ_def)

lemma dequeue_circ_cons:
  assumes "crq_inv q" and "crq_list q a = x # xs"
  shows "\<exists>q'. dequeue_circ a q = Inr (x, q') \<and> crq_inv q' \<and> crq_list q' = (crq_list q)(a := xs)"
proof -
  obtain c where c: "q a = Some c" "cq_list c = x # xs" using assms(2) by (auto simp: crq_list_def split: option.splits)
  then have i: "cq_inv c" "unat (cq_size c) = 64" using assms(1) by (auto simp: crq_inv_def)
  obtain c' where p: "pop c = Inr (x, c')" "cq_inv c'" "cq_size c' = cq_size c" "cq_list c' = xs"
    using pop_list [OF i(1) c(2)] by blast
  have "\<not> empty_cq c" using cq_empty_list [OF i(1)] c(2) by simp
  then have "dequeue_circ a q = Inr (x, if empty_cq c' then q(a := None) else q(a \<mapsto> c'))"
    using c(1) p(1) by (simp add: dequeue_circ_def)
  moreover have "empty_cq c' \<longleftrightarrow> xs = []" using cq_empty_list [OF p(2)] p(4) by simp
  ultimately show ?thesis
    using assms(1) p i(2) by (simp add: crq_upd)
qed

lemma front_circ_list:
  "crq_inv q \<Longrightarrow> front_circ a q = (case crq_list q a of [] \<Rightarrow> Inl AssertFailed | x # _ \<Rightarrow> Inr x)"
  by (auto simp: front_circ_def crq_list_def crq_inv_def front_cq_list cq_empty_list split: option.splits list.splits)

lemma size_circ_list: "crq_inv q \<Longrightarrow> size_circ a q = Inr (of_nat (length (crq_list q a)))"
  by (auto simp: size_circ_def crq_list_def crq_inv_def size_cq_count split: option.splits)

lemma empty_circ_list: "crq_inv q \<Longrightarrow> empty_circ a q \<longleftrightarrow> crq_list q a = []"
  by (auto simp: empty_circ_def crq_list_def crq_inv_def cq_empty_list split: option.splits)

interpretation crq: req_queue_list "enqueue_circ junk" dequeue_circ front_circ size_circ empty_circ crq_list crq_inv "\<lambda>n. n < 63"
  by unfold_locales
    (simp_all add: enqueue_circ_list dequeue_circ_nil dequeue_circ_cons front_circ_list size_circ_list empty_circ_list)

subsection \<open>Main properties\<close>

text \<open>
  C33. A ring buffer is a bounded first-in first-out queue: \<open>push\<close> appends at the end and
  fails exactly when the buffer holds its \<open>m_size - 1\<close> elements, \<open>pop\<close> removes the first
  element, \<open>pushCircular\<close> drops the oldest element of a full buffer, \<open>at\<close> and \<open>size\<close> agree
  with the list of elements. Positions wrap around the end of the array.
\<close>

theorem circular_queue_correct:
  assumes "cq_inv q" and "1 < unat (cq_size q)"
  shows "(if cq_count q + 1 < unat (cq_size q)
          then \<exists>q'. push t q = Inr q' \<and> cq_inv q' \<and> cq_size q' = cq_size q \<and> cq_list q' = cq_list q @ [t]
          else push t q = Inl AssertFailed) \<and>
    (case cq_list q of
       [] \<Rightarrow> pop q = Inl AssertFailed
     | x # xs \<Rightarrow> \<exists>q'. pop q = Inr (x, q') \<and> cq_inv q' \<and> cq_size q' = cq_size q \<and> cq_list q' = xs) \<and>
    (\<exists>q'. pushCircular t q = Inr q' \<and> cq_inv q' \<and> cq_size q' = cq_size q \<and>
       cq_list q' = (if cq_count q + 1 = unat (cq_size q) then tl (cq_list q) else cq_list q) @ [t]) \<and>
    size_cq q = Inr (of_nat (length (cq_list q))) \<and>
    (\<forall>i. unat i < length (cq_list q) \<longrightarrow> at_cq q i = Inr (cq_list q ! unat i))"
proof (intro conjI)
  show "if cq_count q + 1 < unat (cq_size q)
      then \<exists>q'. push t q = Inr q' \<and> cq_inv q' \<and> cq_size q' = cq_size q \<and> cq_list q' = cq_list q @ [t]
      else push t q = Inl AssertFailed"
    using push_list [OF assms(1)] push_full [OF assms(1)] cq_count_less [OF assms(1)] by simp
  show "case cq_list q of
       [] \<Rightarrow> pop q = Inl AssertFailed
     | x # xs \<Rightarrow> \<exists>q'. pop q = Inr (x, q') \<and> cq_inv q' \<and> cq_size q' = cq_size q \<and> cq_list q' = xs"
    using pop_list [OF assms(1)] cq_empty_list [OF assms(1)] by (auto simp: pop_def split: list.split)
qed (use pushCircular_list [OF assms] size_cq_count [OF assms(1)] at_cq_list [OF assms(1)] in simp_all)

text \<open>
  C34. The two implementations of the request lists are equivalent: any sequence of calls in
  which no queue holds more than 63 requests returns the same results (and fails with the
  same assertion) with \<open>std::queue\<close> and with ring buffers, whatever the ring buffers
  contained when they were allocated.
\<close>

theorem request_lists_equivalent:
  assumes "fits (\<lambda>n. n < 63) calls (\<lambda>_. [])"
  shows "rbind (run_calls (rq_call (enqueue_circ junk) dequeue_circ front_circ size_circ empty_circ) calls Map.empty) (\<lambda>(rs, _). Inr rs) =
    rbind (run_calls (rq_call (\<lambda>a r q. Inr (enqueue a r q)) dequeue front (\<lambda>a q. Inr (size_rq a q)) empty_rq) calls Map.empty) (\<lambda>(rs, _). Inr rs)"
proof -
  note f = fits_mono [OF assms]
  have e: "crq_inv Map.empty" "crq_list Map.empty = (\<lambda>_. [])" "rq_inv Map.empty" "rq_list Map.empty = (\<lambda>_. [])"
    by (simp_all add: crq_inv_def crq_list_def rq_inv_def rq_list_def fun_eq_iff)
  show ?thesis
    using crq.calls_refine [of Map.empty calls junk] rq.calls_refine [of Map.empty calls] assms f
    by (auto simp: e split: sum.splits)
qed

theorem circular_queue_correct_witness:
  "cq_list (CircularQueue_new (0 :: nat) 2) = [] \<and>
   (\<exists>q'. pushCircular (7 :: nat) (CircularQueue_new 0 2) = Inr q' \<and> cq_list q' = [7])"
proof -
  note n = CircularQueue_new_list [of 2 "0 :: nat"]
  have c: "cq_count (CircularQueue_new (0 :: nat) 2) = 0" by (simp add: cq_count_def CircularQueue_new_def)
  have i: "cq_inv (CircularQueue_new (0 :: nat) 2)" and s: "1 < unat (cq_size (CircularQueue_new (0 :: nat) 2))"
    using n by simp_all
  show ?thesis using circular_queue_correct [OF i s, of 7] n c by auto
qed

theorem request_lists_equivalent_witness:
  "rbind (run_calls (rq_call (enqueue_circ 0) dequeue_circ front_circ size_circ empty_circ)
      [Enqueue 64 (5 :: nat), Enqueue 64 6, Dequeue 64, Size 64] Map.empty) (\<lambda>(rs, _). Inr rs) =
   Inr [Done, Done, Req 5, Count 1]"
proof -
  have "fits (\<lambda>n. n < 63) [Enqueue 64 (5 :: nat), Enqueue 64 6, Dequeue 64, Size 64] (\<lambda>_. [])" by simp
  from request_lists_equivalent [OF this, of 0] show ?thesis
    by (simp add: enqueue_def dequeue_def size_rq_def)
qed

end
