(* ===== verification/SubsecondTime.thy ===== *)
theory SubsecondTime
  imports Prelude
begin

section \<open>Simulated time\<close>

text \<open>
  \<^verbatim>\<open>common/misc/subsecond_time.h\<close>: times are 64-bit counts of femtoseconds, on which the
  operators of the class are those of \<open>uint64_t\<close> (they wrap). A \<open>ComponentPeriod\<close> is reached
  through a pointer, since frequency scaling changes it; pointers are numbers (\<open>None\<close> is
  \<open>NULL\<close>) and the functions that follow one take the store \<open>ps\<close> of the current periods.
  Output operators are left out. The constructor of \<open>ComponentBandwidth\<close> converts a \<open>float\<close>:
  the resulting integer is its argument here.
\<close>

type_synonym SubsecondTime = u64
type_synonym ComponentPeriod = SubsecondTime
type_synonym period_ptr = "nat option"
type_synonym periods = "nat \<rightharpoonup> ComponentPeriod"

subsection \<open>Definitions\<close>

definition udiv :: "u64 \<Rightarrow> u64 \<Rightarrow> u64 res" where
  "udiv x y = (if y = 0 then Inl Undefined else Inr (x div y))"

definition FS_1 :: u64 where "FS_1 = 1"
definition PS_1 :: u64 where "PS_1 = FS_1 * 1000"
definition NS_1 :: u64 where "NS_1 = PS_1 * 1000"
definition US_1 :: u64 where "US_1 = NS_1 * 1000"
definition MS_1 :: u64 where "MS_1 = US_1 * 1000"
definition SEC_1 :: u64 where "SEC_1 = MS_1 * 1000"

definition FS :: "u64 \<Rightarrow> SubsecondTime" where "FS fs = fs * FS_1"
definition PS :: "u64 \<Rightarrow> SubsecondTime" where "PS ps = ps * PS_1"
definition NS :: "u64 \<Rightarrow> SubsecondTime" where "NS ns = ns * NS_1"
definition US :: "u64 \<Rightarrow> SubsecondTime" where "US us = us * US_1"
definition MS :: "u64 \<Rightarrow> SubsecondTime" where "MS ms = ms * MS_1"
definition SEC :: "u64 \<Rightarrow> SubsecondTime" where "SEC sec = sec * SEC_1"

definition MaxTime :: SubsecondTime where "MaxTime = 0xffffffffffffffff"

definition getFS :: "SubsecondTime \<Rightarrow> u64" where "getFS t = t div FS_1"
definition getPS :: "SubsecondTime \<Rightarrow> u64" where "getPS t = t div PS_1"
definition getNS :: "SubsecondTime \<Rightarrow> u64" where "getNS t = t div NS_1"
definition getUS :: "SubsecondTime \<Rightarrow> u64" where "getUS t = t div US_1"
definition getMS :: "SubsecondTime \<Rightarrow> u64" where "getMS t = t div MS_1"
definition getSEC :: "SubsecondTime \<Rightarrow> u64" where "getSEC t = t div SEC_1"

definition divideRounded :: "SubsecondTime \<Rightarrow> SubsecondTime \<Rightarrow> u64 res" where
  "divideRounded lhs rhs = udiv (lhs + ((rhs div 2) + 1)) rhs"

definition deref :: "periods \<Rightarrow> period_ptr \<Rightarrow> ComponentPeriod res" where
  "deref ps p = (case p of None \<Rightarrow> Inl Undefined | Some i \<Rightarrow> (case ps i of None \<Rightarrow> Inl Undefined | Some x \<Rightarrow> Inr x))"

definition fromFreqHz :: "u64 \<Rightarrow> ComponentPeriod res" where
  "fromFreqHz freq_in_hz = udiv (SEC 1) freq_in_hz"

definition setPeriodFromFreqHz :: "nat \<Rightarrow> u64 \<Rightarrow> periods \<Rightarrow> periods res" where
  "setPeriodFromFreqHz i freq_in_hz ps = rbind (udiv (SEC 1) freq_in_hz) (\<lambda>p. Inr (ps(i \<mapsto> p)))"

definition getPeriodInFreqMHz :: "ComponentPeriod \<Rightarrow> u64 res" where
  "getPeriodInFreqMHz p = udiv US_1 p"

definition cyclesToSubsecondTime :: "periods \<Rightarrow> period_ptr \<Rightarrow> u64 \<Rightarrow> SubsecondTime res" where
  "cyclesToSubsecondTime ps m_period cycles = rbind (deref ps m_period) (\<lambda>p. Inr (p * cycles))"

definition subsecondTimeToCycles :: "periods \<Rightarrow> period_ptr \<Rightarrow> SubsecondTime \<Rightarrow> u64 res" where
  "subsecondTimeToCycles ps m_period time = rbind (deref ps m_period) (\<lambda>p. udiv time p)"

type_synonym ComponentBandwidth = u64 \<comment> \<open>\<open>m_bw_in_bits_per_us\<close>\<close>

definition bw_getLatency :: "ComponentBandwidth \<Rightarrow> u64 \<Rightarrow> SubsecondTime res" where
  "bw_getLatency bw bits_transmitted = udiv (bits_transmitted * US 1) bw"

definition bw_getRoundedLatency :: "ComponentBandwidth \<Rightarrow> u64 \<Rightarrow> SubsecondTime res" where
  "bw_getRoundedLatency bw bits_transmitted =
     (let us = US 1 in udiv ((bits_transmitted * us) + (us div 2)) bw)"

record ComponentBandwidthPerCycle =
  bpc_period :: period_ptr
  m_bw_in_bits_per_cycle :: u64

definition isInfinite :: "ComponentBandwidthPerCycle \<Rightarrow> bool" where
  "isInfinite b \<longleftrightarrow> m_bw_in_bits_per_cycle b = 0"

definition bpc_getLatency :: "periods \<Rightarrow> ComponentBandwidthPerCycle \<Rightarrow> u64 \<Rightarrow> SubsecondTime res" where
  "bpc_getLatency ps b bits_transmitted =
     rbind (deref ps (bpc_period b)) (\<lambda>p. udiv (bits_transmitted * p) (m_bw_in_bits_per_cycle b))"

definition bpc_getRoundedLatency :: "periods \<Rightarrow> ComponentBandwidthPerCycle \<Rightarrow> u64 \<Rightarrow> SubsecondTime res" where
  "bpc_getRoundedLatency ps b bits_transmitted =
     rbind (deref ps (bpc_period b)) (\<lambda>p. udiv ((bits_transmitted * p) + (p div 2)) (m_bw_in_bits_per_cycle b))"

record ComponentLatency =
  cl_period :: period_ptr
  m_fixed_cycle_latency :: u64

definition cl_getLatency :: "periods \<Rightarrow> ComponentLatency \<Rightarrow> SubsecondTime res" where
  "cl_getLatency ps l = rbind (deref ps (cl_period l)) (\<lambda>p. Inr (p * m_fixed_cycle_latency l))"

definition cl_add :: "ComponentLatency \<Rightarrow> u64 \<Rightarrow> ComponentLatency" where
  "cl_add l rhs = l\<lparr>m_fixed_cycle_latency := m_fixed_cycle_latency l + rhs\<rparr>"

record ComponentTime =
  ct_period :: period_ptr
  m_time :: SubsecondTime

definition ComponentTime_new :: "period_ptr \<Rightarrow> ComponentTime" where
  "ComponentTime_new base_period = \<lparr>ct_period = base_period, m_time = 0\<rparr>"

definition addCycleLatency :: "periods \<Rightarrow> ComponentTime \<Rightarrow> u64 \<Rightarrow> ComponentTime res" where
  "addCycleLatency ps t num_cycles =
     rbind (deref ps (ct_period t)) (\<lambda>p. Inr (t\<lparr>m_time := m_time t + p * num_cycles\<rparr>))"

definition addLatency :: "ComponentTime \<Rightarrow> SubsecondTime \<Rightarrow> ComponentTime" where
  "addLatency t time_to_add = t\<lparr>m_time := m_time t + time_to_add\<rparr>"

definition addLatency_ct :: "ComponentTime \<Rightarrow> ComponentTime \<Rightarrow> ComponentTime res" where
  "addLatency_ct t time_to_add =
     rbind (ensure AssertFailed (ct_period time_to_add = ct_period t)) (\<lambda>_.
     Inr (t\<lparr>m_time := m_time t + m_time time_to_add\<rparr>))"

definition ct_reset :: "ComponentTime \<Rightarrow> ComponentTime" where
  "ct_reset t = t\<lparr>m_time := 0\<rparr>"

definition getLatencyGenerator :: "ComponentTime \<Rightarrow> ComponentTime" where
  "getLatencyGenerator t = ComponentTime_new (ct_period t)"

definition getElapsedTime :: "ComponentTime \<Rightarrow> SubsecondTime" where
  "getElapsedTime t = m_time t"

definition getCycleCount :: "periods \<Rightarrow> ComponentTime \<Rightarrow> u64 res" where
  "getCycleCount ps t = rbind (deref ps (ct_period t)) (\<lambda>p. divideRounded (m_time t) p)"

definition ct_setElapsedTime :: "ComponentTime \<Rightarrow> SubsecondTime \<Rightarrow> ComponentTime" where
  "ct_setElapsedTime t new_time = t\<lparr>m_time := new_time\<rparr>"

subsection \<open>Lemmas\<close>

lemmas time_units = FS_1_def PS_1_def NS_1_def US_1_def MS_1_def SEC_1_def

lemma unat_mult_small: "unat (x :: u64) * unat y < 2 ^ 64 \<Longrightarrow> unat (x * y) = unat x * unat y"
  by (simp add: unat_word_ariths)

lemma unat_add_small64: "unat (x :: u64) + unat y < 2 ^ 64 \<Longrightarrow> unat (x + y) = unat x + unat y"
  by (simp add: unat_word_ariths)

lemma unat_eqI: "unat (x :: u64) = unat y \<Longrightarrow> x = y"
  by (simp add: word_unat_eq_iff)

lemma udiv_mult:
  assumes "p \<noteq> 0" and "unat p * unat n < 2 ^ 64"
  shows "udiv (p * n) p = Inr n"
proof -
  have "unat (p * n div p) = unat n"
    using assms by (simp add: unat_div unat_mult_small unat_gt_0)
  then show ?thesis using assms(1) by (simp add: udiv_def unat_eqI)
qed

lemma unit_round_trip:
  "unat x * unat u < 2 ^ 64 \<Longrightarrow> u \<noteq> 0 \<Longrightarrow> (x * u) div u = (x :: u64)"
  using udiv_mult [of u x] by (simp add: udiv_def mult.commute)

lemma divideRounded_exact:
  assumes "3 \<le> unat p" and "unat p * unat n + unat p < 2 ^ 64"
  shows "divideRounded (p * n) p = Inr n"
proof -
  let ?h = "unat p div 2 + 1"
  have h: "?h < unat p" using assms(1) by simp
  have u: "unat (p div 2 + 1) = ?h"
    using assms(2) h by (subst unat_add_small64) (simp_all add: unat_div)
  have "unat (p * n + (p div 2 + 1)) = unat p * unat n + ?h"
    using assms(2) h u by (subst unat_add_small64) (simp_all add: unat_mult_small)
  then have "unat ((p * n + (p div 2 + 1)) div p) = (unat p * unat n + ?h) div unat p"
    by (simp add: unat_div)
  also have "\<dots> = unat n" using h by (intro div_nat_eqI) (simp_all add: algebra_simps)
  finally have "(p * n + (p div 2 + 1)) div p = n" by (rule unat_eqI)
  moreover have "p \<noteq> 0" using assms(1) by auto
  ultimately show ?thesis by (simp add: divideRounded_def udiv_def)
qed

subsection \<open>Main properties\<close>

text \<open>
  C35. Cycles and time: as long as nothing overflows, converting a number of cycles to time
  and back is the identity, and a \<open>ComponentTime\<close> that has been advanced by \<open>n\<close> cycles of its
  period reports a cycle count of \<open>n\<close>, provided the period is at least 3 fs (the rounding
  term of \<open>divideRounded\<close> is too large for shorter ones).
\<close>

theorem cycles_round_trip:
  assumes "ps i = Some p" and "p \<noteq> 0" and "unat p * unat n + unat p < 2 ^ 64"
  shows "rbind (cyclesToSubsecondTime ps (Some i) n) (subsecondTimeToCycles ps (Some i)) = Inr n \<and>
    (3 \<le> unat p \<longrightarrow>
      rbind (addCycleLatency ps (ComponentTime_new (Some i)) n) (getCycleCount ps) = Inr n)"
proof
  have "unat p * unat n < 2 ^ 64" using assms(3) by simp
  then show "rbind (cyclesToSubsecondTime ps (Some i) n) (subsecondTimeToCycles ps (Some i)) = Inr n"
    using assms(1,2) by (simp add: cyclesToSubsecondTime_def subsecondTimeToCycles_def deref_def udiv_mult)
  show "3 \<le> unat p \<longrightarrow> rbind (addCycleLatency ps (ComponentTime_new (Some i)) n) (getCycleCount ps) = Inr n"
    using assms(1,3) divideRounded_exact [of p n]
    by (simp add: addCycleLatency_def getCycleCount_def deref_def ComponentTime_new_def)
qed

text \<open>
  For a period of one or two femtoseconds \<open>divideRounded\<close> is off by one: a
  \<open>ComponentTime\<close> that has not advanced at all already reports one cycle.
\<close>

lemma getCycleCount_short_period:
  "p \<in> {1, 2} \<Longrightarrow> getCycleCount [i \<mapsto> p] (ComponentTime_new (Some i)) = Inr 1"
  by (auto simp: getCycleCount_def ComponentTime_new_def deref_def divideRounded_def udiv_def)

theorem cycles_round_trip_witness:
  "rbind (cyclesToSubsecondTime [0 \<mapsto> 376000] (Some 0) 1000) (subsecondTimeToCycles [0 \<mapsto> 376000] (Some 0)) = Inr 1000 \<and>
   rbind (addCycleLatency [0 \<mapsto> 376000] (ComponentTime_new (Some 0)) 1000) (getCycleCount [0 \<mapsto> 376000]) = Inr 1000"
  using cycles_round_trip [of "[0 \<mapsto> 376000]" 0 376000 1000] by simp

end
