(* ===== verification/Monad.thy ===== *)
theory Monad
  imports Prelude
begin

section \<open>Stateful fallible code and object stores\<close>

text \<open>
  Controllers change their own state, the simulated time and objects they hold pointers to, and may
  stop at an assertion in the middle. Such code is a function from a state to an error or a result
  with the new state; \<open>sbind\<close> sequences two such functions. \<open>wp m Q s\<close> says that \<open>m\<close> started in \<open>s\<close> either
  ends in a state and with a result that satisfy \<open>Q\<close> or stops at an assertion or an error
  message, and in particular does nothing undefined and does not run out of fuel; the equations for
  \<open>wp\<close> compute it along the code.

  A store holds the objects of one C++ class that the model refers to by pointers: \<open>new\<close> takes the
  next unused number, \<open>delete\<close> removes the object, and using a removed one is undefined.
\<close>

type_synonym ('s, 'a) sm = "'s \<Rightarrow> ('a \<times> 's) res"

definition sret :: "'a \<Rightarrow> ('s, 'a) sm" where
  "sret x s = Inr (x, s)"

definition sbind :: "('s, 'a) sm \<Rightarrow> ('a \<Rightarrow> ('s, 'b) sm) \<Rightarrow> ('s, 'b) sm" where
  "sbind m f s = (case m s of Inl e \<Rightarrow> Inl e | Inr (x, s') \<Rightarrow> f x s')"

definition sseq :: "('s, unit) sm \<Rightarrow> ('s, 'b) sm \<Rightarrow> ('s, 'b) sm" where
  "sseq m k = sbind m (\<lambda>_. k)"

definition sthrow :: "sim_error \<Rightarrow> ('s, 'a) sm" where
  "sthrow e s = Inl e"

definition slift :: "'a res \<Rightarrow> ('s, 'a) sm" where
  "slift r s = (case r of Inl e \<Rightarrow> Inl e | Inr x \<Rightarrow> Inr (x, s))"

definition sassert :: "bool \<Rightarrow> ('s, unit) sm" where
  "sassert b s = (if b then Inr ((), s) else Inl AssertFailed)"

definition sget :: "('s \<Rightarrow> 'a) \<Rightarrow> ('s, 'a) sm" where
  "sget f s = Inr (f s, s)"

definition smod :: "('s \<Rightarrow> 's) \<Rightarrow> ('s, unit) sm" where
  "smod f s = Inr ((), f s)"

fun sfor :: "('x \<Rightarrow> ('s, unit) sm) \<Rightarrow> 'x list \<Rightarrow> ('s, unit) sm" where
  "sfor f [] = sret ()"
| "sfor f (x # xs) = sseq (f x) (sfor f xs)"

named_theorems sm_defs \<open>unfolding of stateful steps\<close>

lemmas [sm_defs] = sret_def sbind_def sseq_def sthrow_def slift_def sassert_def sget_def smod_def

lemma sbind_known [simp]:
  "sbind (slift (Inr x)) f = f x" "sbind (sret x) f = f x" "sbind (slift (Inl e)) f = sthrow e" "sbind (sthrow e) f = sthrow e"
  "sseq (sret ()) k = k"
  by (simp_all add: fun_eq_iff sm_defs)

lemma sbind_assoc: "sbind (sbind m f) g = sbind m (\<lambda>x. sbind (f x) g)"
  by (simp add: fun_eq_iff sbind_def split: sum.split)

subsection \<open>Weakest preconditions\<close>

definition stops :: "sim_error \<Rightarrow> bool" where
  "stops e \<longleftrightarrow> e = AssertFailed \<or> e = LogError"

definition wp :: "('s, 'a) sm \<Rightarrow> ('a \<Rightarrow> 's \<Rightarrow> bool) \<Rightarrow> 's \<Rightarrow> bool" where
  "wp m Q s \<longleftrightarrow> (case m s of Inl e \<Rightarrow> stops e | Inr (x, s') \<Rightarrow> Q x s')"

named_theorems wp \<open>weakest preconditions of the steps\<close>

lemma wp_sret [wp]: "wp (sret x) Q = Q x"
  by (simp add: fun_eq_iff wp_def sret_def)

lemma wp_sbind [wp]: "wp (sbind m f) Q = wp m (\<lambda>x. wp (f x) Q)"
  by (simp add: fun_eq_iff wp_def sbind_def split: sum.split prod.split)

lemma wp_sseq [wp]: "wp (sseq m k) Q = wp m (\<lambda>_. wp k Q)"
  by (simp add: sseq_def wp_sbind)

lemma wp_sthrow [wp]: "wp (sthrow e) Q = (\<lambda>s. stops e)"
  by (simp add: fun_eq_iff wp_def sthrow_def)

lemma wp_slift [wp]: "wp (slift r) Q = (\<lambda>s. case r of Inl e \<Rightarrow> stops e | Inr x \<Rightarrow> Q x s)"
  by (simp add: fun_eq_iff wp_def slift_def split: sum.split)

lemma wp_sassert [wp]: "wp (sassert b) Q = (\<lambda>s. b \<longrightarrow> Q () s)"
  by (simp add: fun_eq_iff wp_def sassert_def stops_def)

lemma wp_sget [wp]: "wp (sget f) Q = (\<lambda>s. Q (f s) s)"
  by (simp add: fun_eq_iff wp_def sget_def)

lemma wp_smod [wp]: "wp (smod f) Q = (\<lambda>s. Q () (f s))"
  by (simp add: fun_eq_iff wp_def smod_def)

lemma wp_if [wp]: "wp (if b then m else k) Q = (if b then wp m Q else wp k Q)"
  by simp

lemma stops_simps [simp]: "stops AssertFailed" "stops LogError" "\<not> stops Undefined" "\<not> stops OutOfFuel"
  by (simp_all add: stops_def)

lemma wp_mono: "wp m Q s \<Longrightarrow> (\<And>x s'. Q x s' \<Longrightarrow> R x s') \<Longrightarrow> wp m R s"
  by (auto simp: wp_def split: sum.splits)

lemma wp_conj: "wp m Q s \<Longrightarrow> wp m R s \<Longrightarrow> wp m (\<lambda>x s'. Q x s' \<and> R x s') s"
  by (auto simp: wp_def split: sum.splits)

lemma wp_sfor:
  assumes "I s" and "\<And>x s. x \<in> set xs \<Longrightarrow> I s \<Longrightarrow> wp (f x) (\<lambda>_. I) s"
  shows "wp (sfor f xs) (\<lambda>_. I) s"
  using assms
proof (induction xs arbitrary: s)
  case (Cons x xs)
  have "wp (f x) (\<lambda>_. I) s"
    using Cons.prems by simp
  then have "wp (f x) (\<lambda>_. wp (sfor f xs) (\<lambda>_. I)) s"
    by (rule wp_mono) (use Cons in simp)
  then show ?case
    by (simp add: wp)
qed (simp add: wp)

lemma wp_resultD: "wp m Q s \<Longrightarrow> m s = Inr (x, s') \<Longrightarrow> Q x s'"
  by (simp add: wp_def)

lemma wp_noUndefined: "wp m Q s \<Longrightarrow> m s \<noteq> Inl Undefined \<and> m s \<noteq> Inl OutOfFuel"
  by (auto simp: wp_def split: sum.splits)

subsection \<open>Stores\<close>

record 'a store =
  st_map :: "nat \<rightharpoonup> 'a"
  st_next :: nat

definition st_empty :: "'a store" where
  "st_empty = \<lparr>st_map = Map.empty, st_next = 0\<rparr>"

definition st_new :: "'a \<Rightarrow> 'a store \<Rightarrow> nat \<times> 'a store" where
  "st_new x st = (st_next st, \<lparr>st_map = (st_map st)(st_next st \<mapsto> x), st_next = Suc (st_next st)\<rparr>)"

definition st_get :: "'a store \<Rightarrow> nat \<Rightarrow> 'a res" where
  "st_get st p = (case st_map st p of None \<Rightarrow> Inl Undefined | Some x \<Rightarrow> Inr x)"

definition st_put :: "nat \<Rightarrow> 'a \<Rightarrow> 'a store \<Rightarrow> 'a store" where
  "st_put p x st = st\<lparr>st_map := (st_map st)(p \<mapsto> x)\<rparr>"

definition st_delete :: "nat \<Rightarrow> 'a store \<Rightarrow> 'a store" where
  "st_delete p st = st\<lparr>st_map := (st_map st)(p := None)\<rparr>"

definition store_wf :: "'a store \<Rightarrow> bool" where
  "store_wf st \<longleftrightarrow> (\<forall>p \<in> dom (st_map st). p < st_next st)"

lemma store_fields [simp]:
  "st_map (st_put p x st) = (st_map st)(p \<mapsto> x)" "st_map (st_delete p st) = (st_map st)(p := None)"
  "st_next (st_put p x st) = st_next st" "st_next (st_delete p st) = st_next st"
  "st_map st_empty = Map.empty"
  by (simp_all add: st_put_def st_delete_def st_empty_def)

lemma store_wf_simps [simp]:
  "store_wf st_empty"
  "store_wf st \<Longrightarrow> store_wf (snd (st_new x st))"
  "store_wf st \<Longrightarrow> store_wf (st_delete p st)"
  "store_wf st \<Longrightarrow> st_map st p \<noteq> None \<Longrightarrow> store_wf (st_put p x st)"
  by (auto simp: store_wf_def st_new_def less_Suc_eq split: if_splits)

lemma st_get_Some [simp]: "st_map st p = Some x \<Longrightarrow> st_get st p = Inr x"
  by (simp add: st_get_def)

lemma store_wf_next: "store_wf st \<Longrightarrow> st_map st (st_next st) = None"
  by (metis domIff less_irrefl store_wf_def)

end
