(* ===== verification/Shmem.thy ===== *)
theory Shmem
  imports CacheBlock SubsecondTime Monad
begin

section \<open>Shared-memory messages and their accounting\<close>

text \<open>
  The data the memory system exchanges: components (\<^verbatim>\<open>mem_component.{h,cc}\<close>), where an
  access hit (\<^verbatim>\<open>performance_model/hit_where.{h,cc}\<close>), messages and requests
  (\<^verbatim>\<open>pr_l1_pr_l2_dram_directory_msi/shmem_msg.{h,cc}\<close>, \<^verbatim>\<open>shmem_req.{h,cc}\<close>) and the record
  of where a request spent its time (\<^verbatim>\<open>shmem_perf.{h,cc}\<close>). Enumerations the code computes
  with are numbers. A \<open>Byte*\<close> to a data buffer and a \<open>ShmemPerf*\<close> are numbers of objects in a
  store, \<open>None\<close> for \<open>NULL\<close>. The bytes of a message on the wire are its header, an object image,
  followed by its payload: the pair of the two.
\<close>

subsection \<open>Components and places\<close>

type_synonym core_id_t = int

definition INVALID_CORE_ID :: core_id_t where "INVALID_CORE_ID = - 1"
definition INVALID_ADDRESS :: IntPtr where "INVALID_ADDRESS = - 1"

definition CORE :: component_t where "CORE = 1"
definition L2_CACHE :: component_t where "L2_CACHE = 4"
definition L3_CACHE :: component_t where "L3_CACHE = 5"
definition L4_CACHE :: component_t where "L4_CACHE = 6"
definition LAST_LEVEL_CACHE :: component_t where "LAST_LEVEL_CACHE = 20"
definition TAG_DIR :: component_t where "TAG_DIR = 21"
definition NUCA_CACHE :: component_t where "NUCA_CACHE = 22"
definition DRAM_CACHE :: component_t where "DRAM_CACHE = 23"
definition DRAM :: component_t where "DRAM = 24"

definition MemComponentString :: "component_t \<Rightarrow> string" where
  "MemComponentString c =
     (if c = CORE then ''core'' else if c = L1_ICACHE then ''l1i'' else if c = L1_DCACHE then ''l1d''
      else if c = L2_CACHE then ''l2'' else if c = L3_CACHE then ''l3'' else if c = L4_CACHE then ''l4''
      else if c = TAG_DIR then ''directory'' else if c = NUCA_CACHE then ''nuca-cache''
      else if c = DRAM_CACHE then ''dram-cache'' else if c = DRAM then ''dram'' else ''????'')"

type_synonym where_t = nat

definition HW_L1I :: where_t where "HW_L1I = L1_ICACHE"
definition HW_L1_OWN :: where_t where "HW_L1_OWN = L1_DCACHE"
definition HW_L2_OWN :: where_t where "HW_L2_OWN = L2_CACHE"
definition HW_L3_OWN :: where_t where "HW_L3_OWN = L3_CACHE"
definition HW_L4_OWN :: where_t where "HW_L4_OWN = L4_CACHE"
definition HW_MISS :: where_t where "HW_MISS = 7"
definition HW_NUCA_CACHE :: where_t where "HW_NUCA_CACHE = 8"
definition HW_DRAM_CACHE :: where_t where "HW_DRAM_CACHE = 9"
definition HW_DRAM :: where_t where "HW_DRAM = 10"
definition HW_DRAM_LOCAL :: where_t where "HW_DRAM_LOCAL = 11"
definition HW_DRAM_REMOTE :: where_t where "HW_DRAM_REMOTE = 12"
definition HW_CACHE_REMOTE :: where_t where "HW_CACHE_REMOTE = 13"
definition HW_SIBLING :: where_t where "HW_SIBLING = 14"
definition HW_L1_SIBLING :: where_t where "HW_L1_SIBLING = L1_DCACHE + HW_SIBLING"
definition HW_L2_SIBLING :: where_t where "HW_L2_SIBLING = L2_CACHE + HW_SIBLING"
definition HW_L3_SIBLING :: where_t where "HW_L3_SIBLING = L3_CACHE + HW_SIBLING"
definition HW_L4_SIBLING :: where_t where "HW_L4_SIBLING = L4_CACHE + HW_SIBLING"
definition HW_UNKNOWN :: where_t where "HW_UNKNOWN = HW_L4_SIBLING + 1"
definition HW_PREDICATE_FALSE :: where_t where "HW_PREDICATE_FALSE = HW_UNKNOWN + 1"
definition HW_PREFETCH_NO_MAPPING :: where_t where "HW_PREFETCH_NO_MAPPING = HW_PREDICATE_FALSE + 1"
definition NUM_HITWHERES :: nat where "NUM_HITWHERES = HW_PREFETCH_NO_MAPPING + 1"

definition HitWhereString :: "where_t \<Rightarrow> string" where
  "HitWhereString w =
     (if w = HW_L1I then ''L1I'' else if w = HW_L1_OWN then ''L1'' else if w = HW_L2_OWN then ''L2''
      else if w = HW_L3_OWN then ''L3'' else if w = HW_L4_OWN then ''L4''
      else if w = HW_L1_SIBLING then ''L1_S'' else if w = HW_L2_SIBLING then ''L2_S''
      else if w = HW_L3_SIBLING then ''L3_S'' else if w = HW_L4_SIBLING then ''L4_S''
      else if w = HW_MISS then ''miss'' else if w = HW_NUCA_CACHE then ''nuca-cache''
      else if w = HW_DRAM_CACHE then ''dram-cache'' else if w = HW_DRAM then ''dram''
      else if w = HW_DRAM_LOCAL then ''dram-local'' else if w = HW_DRAM_REMOTE then ''dram-remote''
      else if w = HW_CACHE_REMOTE then ''cache-remote'' else if w = HW_UNKNOWN then ''unknown''
      else if w = HW_PREDICATE_FALSE then ''predicate-false''
      else if w = HW_PREFETCH_NO_MAPPING then ''prefetch-no-mapping'' else ''????'')"

definition HitWhereIsValid :: "where_t \<Rightarrow> bool" where
  "HitWhereIsValid w \<longleftrightarrow> (let name = HitWhereString w in if name ! 0 = CHR ''?'' then False else True)"

subsection \<open>Messages\<close>

datatype msg_t =
    INVALID_MSG_TYPE
  | EX_REQ | SH_REQ | UPGRADE_REQ | INV_REQ | FLUSH_REQ | WB_REQ
  | EX_REP | SH_REP | UPGRADE_REP | INV_REP | FLUSH_REP | WB_REP | NULLIFY_REQ
  | DRAM_READ_REQ | DRAM_WRITE_REQ
  | DRAM_READ_REP

record ShmemMsg =
  m_msg_type :: msg_t
  m_sender_mem_component :: component_t
  m_receiver_mem_component :: component_t
  m_requester :: core_id_t
  m_where :: where_t
  m_msg_address :: IntPtr
  m_data_buf :: "nat option"
  m_data_length :: u32
  m_perf :: "nat option"

definition ShmemMsg_default :: ShmemMsg where
  "ShmemMsg_default =
     \<lparr>m_msg_type = INVALID_MSG_TYPE, m_sender_mem_component = INVALID_MEM_COMPONENT,
      m_receiver_mem_component = INVALID_MEM_COMPONENT, m_requester = INVALID_CORE_ID, m_where = HW_UNKNOWN,
      m_msg_address = INVALID_ADDRESS, m_data_buf = None, m_data_length = 0, m_perf = None\<rparr>"

definition ShmemMsg_new ::
    "msg_t \<Rightarrow> component_t \<Rightarrow> component_t \<Rightarrow> core_id_t \<Rightarrow> IntPtr \<Rightarrow> nat option \<Rightarrow> u32 \<Rightarrow> nat option \<Rightarrow> ShmemMsg" where
  "ShmemMsg_new msg_type sender_comp receiver_comp requester address data_buf data_length perf =
     \<lparr>m_msg_type = msg_type, m_sender_mem_component = sender_comp, m_receiver_mem_component = receiver_comp,
      m_requester = requester, m_where = HW_UNKNOWN, m_msg_address = address, m_data_buf = data_buf,
      m_data_length = data_length, m_perf = perf\<rparr>"

definition ShmemMsg_copy :: "where_t \<Rightarrow> ShmemMsg \<Rightarrow> ShmemMsg" where
  \<comment> \<open>the constructor from a pointer leaves \<open>m_where\<close> uninitialised: \<open>junk\<close>\<close>
  "ShmemMsg_copy junk msg = msg\<lparr>m_where := junk\<rparr>"

definition getMsgLen :: "nat \<Rightarrow> ShmemMsg \<Rightarrow> u32" where
  \<comment> \<open>\<open>sizeof_msg\<close> is \<open>sizeof(*this)\<close>\<close>
  "getMsgLen sizeof_msg msg = of_nat sizeof_msg + m_data_length msg"

definition makeMsgBuf :: "u8 list store \<Rightarrow> ShmemMsg \<Rightarrow> (ShmemMsg \<times> u8 list) res" where
  "makeMsgBuf bufs msg =
     (if m_data_length msg > 0
      then (case m_data_buf msg of
              None \<Rightarrow> Inl AssertFailed
            | Some p \<Rightarrow>
                rbind (st_get bufs p) (\<lambda>buf.
                if unat (m_data_length msg) \<le> length buf
                then Inr (msg, take (unat (m_data_length msg)) buf) else Inl Undefined))
      else Inr (msg, []))"

definition getShmemMsg :: "ShmemMsg \<times> u8 list \<Rightarrow> u8 list store \<Rightarrow> (ShmemMsg \<times> u8 list store) res" where
  "getShmemMsg msg_buf bufs =
     (case msg_buf of (msg, payload) \<Rightarrow>
        if m_data_length msg > 0
        then if unat (m_data_length msg) \<le> length payload
             then (case st_new (take (unat (m_data_length msg)) payload) bufs of (p, bufs) \<Rightarrow>
                     Inr (msg\<lparr>m_data_buf := Some p\<rparr>, bufs))
             else Inl Undefined
        else Inr (msg, bufs))"

definition getModeledLength :: "ShmemMsg \<Rightarrow> u32 res" where
  "getModeledLength msg =
     (if m_msg_type msg \<in> {EX_REQ, SH_REQ, INV_REQ, FLUSH_REQ, WB_REQ, UPGRADE_REP, UPGRADE_REQ, INV_REP, DRAM_READ_REQ}
      then Inr (1 + 8)
      else if m_msg_type msg \<in> {EX_REP, SH_REP, FLUSH_REP, WB_REP, DRAM_WRITE_REQ, DRAM_READ_REP}
      then Inr (1 + 8 + m_data_length msg)
      else Inl LogError)"

record ShmemReq =
  m_shmem_msg :: ShmemMsg
  m_req_time :: SubsecondTime
  m_wait_for_data :: bool
  m_forwarding_from :: core_id_t

definition ShmemReq_new :: "where_t \<Rightarrow> ShmemMsg \<Rightarrow> SubsecondTime \<Rightarrow> ShmemReq res" where
  "ShmemReq_new junk msg time =
     rbind (ensure AssertFailed (m_data_buf msg = None)) (\<lambda>_.
     Inr \<lparr>m_shmem_msg = ShmemMsg_copy junk msg, m_req_time = time, m_wait_for_data = False,
          m_forwarding_from = INVALID_CORE_ID\<rparr>)"

definition isForwarding :: "ShmemReq \<Rightarrow> bool" where
  "isForwarding r \<longleftrightarrow> m_forwarding_from r \<noteq> INVALID_CORE_ID"

definition req_updateTime :: "ShmemReq \<Rightarrow> SubsecondTime \<Rightarrow> ShmemReq" where
  "req_updateTime r time = (if time > m_req_time r then r\<lparr>m_req_time := time\<rparr> else r)"

subsection \<open>Time accounting\<close>

datatype shmem_times_type_t =
    NOC_BASE | NOC_QUEUE | TD_ACCESS | INV_IMBALANCE | REMOTE_CACHE_INV | REMOTE_CACHE_FWD | REMOTE_CACHE_WB
  | PENDING_HIT | T_NUCA_TAGS | T_NUCA_QUEUE | T_NUCA_BUS | T_NUCA_DATA
  | T_DRAM_CACHE | T_DRAM_CACHE_TAGS | T_DRAM_CACHE_QUEUE | T_DRAM_CACHE_BUS | T_DRAM_CACHE_DATA
  | T_DRAM | T_DRAM_QUEUE | T_DRAM_BUS | T_DRAM_DEVICE | T_UNKNOWN

fun reason_index :: "shmem_times_type_t \<Rightarrow> nat" where
  "reason_index NOC_BASE = 0" | "reason_index NOC_QUEUE = 1" | "reason_index TD_ACCESS = 2"
| "reason_index INV_IMBALANCE = 3" | "reason_index REMOTE_CACHE_INV = 4" | "reason_index REMOTE_CACHE_FWD = 5"
| "reason_index REMOTE_CACHE_WB = 6" | "reason_index PENDING_HIT = 7" | "reason_index T_NUCA_TAGS = 8"
| "reason_index T_NUCA_QUEUE = 9" | "reason_index T_NUCA_BUS = 10" | "reason_index T_NUCA_DATA = 11"
| "reason_index T_DRAM_CACHE = 12" | "reason_index T_DRAM_CACHE_TAGS = 13" | "reason_index T_DRAM_CACHE_QUEUE = 14"
| "reason_index T_DRAM_CACHE_BUS = 15" | "reason_index T_DRAM_CACHE_DATA = 16" | "reason_index T_DRAM = 17"
| "reason_index T_DRAM_QUEUE = 18" | "reason_index T_DRAM_BUS = 19" | "reason_index T_DRAM_DEVICE = 20"
| "reason_index T_UNKNOWN = 21"

definition NUM_SHMEM_TIMES :: nat where "NUM_SHMEM_TIMES = 22"

definition shmem_reason_names :: "string list" where
  "shmem_reason_names =
     [''noc-base'', ''noc-queue'', ''td-access'', ''inv-imbalance'', ''remote-cache-inv'', ''remote-cache-fwd'',
      ''remote-cache-wb'', ''pending-hit'', ''nuca-tags'', ''nuca-bus'', ''nuca-queue'', ''nuca-data'',
      ''dram-cache'', ''dram-cache-tags'', ''dram-cache-queue'', ''dram-cache-bus'', ''dram-cache-data'',
      ''dram'', ''dram-queue'', ''dram-bus'', ''dram-device'', ''unknown'']"

definition ShmemReasonString :: "shmem_times_type_t \<Rightarrow> string res" where
  "ShmemReasonString reason = nth_res shmem_reason_names (reason_index reason)"

record ShmemPerf =
  sp_core_id :: core_id_t
  m_time_begin :: SubsecondTime
  m_time_last :: SubsecondTime
  m_times :: "SubsecondTime list"

definition ShmemPerf_new :: ShmemPerf where
  "ShmemPerf_new =
     \<lparr>sp_core_id = INVALID_CORE_ID, m_time_begin = 0, m_time_last = 0, m_times = replicate NUM_SHMEM_TIMES 0\<rparr>"

definition sp_disable :: "ShmemPerf \<Rightarrow> ShmemPerf" where
  "sp_disable p = p\<lparr>m_time_last := MaxTime\<rparr>"

definition sp_reset :: "ShmemPerf \<Rightarrow> SubsecondTime \<Rightarrow> core_id_t \<Rightarrow> ShmemPerf" where
  "sp_reset p time core_id =
     p\<lparr>sp_core_id := core_id, m_time_begin := time, m_time_last := time,
       m_times := map (\<lambda>_. 0) (m_times p)\<rparr>"

definition updateTime :: "ShmemPerf \<Rightarrow> SubsecondTime \<Rightarrow> shmem_times_type_t \<Rightarrow> ShmemPerf" where
  \<comment> \<open>on an object: on \<open>NULL\<close> the call does nothing\<close>
  "updateTime p time reason =
     (if time > m_time_last p
      then let i = reason_index reason
           in p\<lparr>m_times := (m_times p)[i := m_times p ! i + (time - m_time_last p)], m_time_last := time\<rparr>
      else p)"

definition updatePacket :: "ShmemPerf \<Rightarrow> SubsecondTime \<Rightarrow> SubsecondTime \<Rightarrow> ShmemPerf" where
  \<comment> \<open>\<open>packet.time\<close> and \<open>packet.queue_delay\<close>\<close>
  "updatePacket p time queue_delay =
     (if time > m_time_last p
      then let i = reason_index NOC_QUEUE;
               p = p\<lparr>m_times := (m_times p)[i := m_times p ! i + queue_delay]\<rparr>;
               p = p\<lparr>m_time_last := m_time_last p + queue_delay\<rparr>
           in updateTime p time NOC_BASE
      else p)"

definition sp_add :: "ShmemPerf \<Rightarrow> ShmemPerf \<Rightarrow> ShmemPerf" where
  "sp_add p q = p\<lparr>m_times := map2 (+) (m_times p) (m_times q)\<rparr>"

subsection \<open>Lemmas\<close>

lemmas component_numbers =
  INVALID_MEM_COMPONENT_def CORE_def L1_ICACHE_def L1_DCACHE_def L2_CACHE_def L3_CACHE_def L4_CACHE_def
  LAST_LEVEL_CACHE_def TAG_DIR_def NUCA_CACHE_def DRAM_CACHE_def DRAM_def

lemmas where_numbers =
  HW_L1I_def HW_L1_OWN_def HW_L2_OWN_def HW_L3_OWN_def HW_L4_OWN_def HW_MISS_def HW_NUCA_CACHE_def
  HW_DRAM_CACHE_def HW_DRAM_def HW_DRAM_LOCAL_def HW_DRAM_REMOTE_def HW_CACHE_REMOTE_def HW_SIBLING_def
  HW_L1_SIBLING_def HW_L2_SIBLING_def HW_L3_SIBLING_def HW_L4_SIBLING_def HW_UNKNOWN_def
  HW_PREDICATE_FALSE_def HW_PREFETCH_NO_MAPPING_def NUM_HITWHERES_def component_numbers

lemma reason_index_less: "reason_index r < NUM_SHMEM_TIMES"
  by (cases r) (simp_all add: NUM_SHMEM_TIMES_def)

lemma reason_index_inj: "reason_index r = reason_index r' \<Longrightarrow> r = r'"
  by (cases r; cases r'; simp)

lemma HitWhereIsValid_codes:
  "HitWhereIsValid w \<longleftrightarrow> w < NUM_HITWHERES \<and> w \<notin> {0, 1, HW_SIBLING, HW_SIBLING + 1, HW_SIBLING + 2}"
proof -
  have "w < 24 \<Longrightarrow> w \<in> set [0..<24]" by simp
  then show ?thesis
    by (cases "w < 24") (auto simp: HitWhereIsValid_def HitWhereString_def where_numbers upt_rec)
qed

definition perf_total :: "ShmemPerf \<Rightarrow> SubsecondTime" where
  "perf_total p = sum_list (m_times p)"

definition perf_ok :: "ShmemPerf \<Rightarrow> bool" where
  \<comment> \<open>the components account for exactly the time since the beginning\<close>
  "perf_ok p \<longleftrightarrow> length (m_times p) = NUM_SHMEM_TIMES \<and> perf_total p = m_time_last p - m_time_begin p"

lemma sum_list_update_word:
  "i < length xs \<Longrightarrow> sum_list (xs[i := xs ! i + d]) = sum_list xs + (d :: u64)"
  by (induction xs arbitrary: i) (auto simp: nth_Cons algebra_simps split: nat.splits)

lemma sum_list_zeros: "sum_list (map (\<lambda>_. 0) xs) = (0 :: u64)"
  by (induction xs) auto

lemma updateTime_ok: "perf_ok p \<Longrightarrow> perf_ok (updateTime p time reason)"
  using reason_index_less [of reason]
  by (auto simp: perf_ok_def perf_total_def updateTime_def Let_def sum_list_update_word)

lemma updatePacket_ok: "perf_ok p \<Longrightarrow> perf_ok (updatePacket p time qd)"
proof -
  assume p: "perf_ok p"
  let ?q = "p\<lparr>m_times := (m_times p)[reason_index NOC_QUEUE := m_times p ! reason_index NOC_QUEUE + qd],
      m_time_last := m_time_last p + qd\<rparr>"
  have "reason_index NOC_QUEUE < length (m_times p)" using p by (simp add: perf_ok_def NUM_SHMEM_TIMES_def)
  from sum_list_update_word [OF this, of qd] have "perf_ok ?q"
    using p by (simp add: perf_ok_def perf_total_def del: reason_index.simps)
  then show ?thesis using p updateTime_ok by (simp add: updatePacket_def Let_def)
qed

subsection \<open>Main properties\<close>

datatype perf_event = Update SubsecondTime shmem_times_type_t | Packet SubsecondTime SubsecondTime

fun perf_step :: "ShmemPerf \<Rightarrow> perf_event \<Rightarrow> ShmemPerf" where
  "perf_step p (Update time reason) = updateTime p time reason"
| "perf_step p (Packet time queue_delay) = updatePacket p time queue_delay"

text \<open>
  C36. Time accounting of a request: after a \<open>reset\<close> and any sequence of \<open>updateTime\<close> and
  \<open>updatePacket\<close> calls, stale or repeated ones included, the components add up to exactly the
  time between the beginning and the last update (in 64-bit arithmetic): no time is lost or
  counted twice.
\<close>

theorem ShmemPerf_accounts_all_time:
  assumes "length (m_times p0) = NUM_SHMEM_TIMES"
  shows "let p = fold (\<lambda>e p. perf_step p e) events (sp_reset p0 time core)
    in sum_list (m_times p) = m_time_last p - time \<and> m_time_begin p = time"
proof -
  have beg: "m_time_begin (perf_step p e) = m_time_begin p" for p e
    by (cases e) (simp_all add: updateTime_def updatePacket_def Let_def)
  have "perf_ok (fold (\<lambda>e p. perf_step p e) es p) \<and>
      m_time_begin (fold (\<lambda>e p. perf_step p e) es p) = m_time_begin p" if "perf_ok p" for es p
    using that
  proof (induction es arbitrary: p)
    case (Cons e es)
    then have "perf_ok (perf_step p e)" by (cases e) (simp_all add: updateTime_ok updatePacket_ok)
    then show ?case using Cons.IH [of "perf_step p e"] beg by simp
  qed simp
  moreover have "perf_ok (sp_reset p0 time core)"
    using assms by (simp add: perf_ok_def perf_total_def sp_reset_def sum_list_zeros)
  moreover have "m_time_begin (sp_reset p0 time core) = time" by (simp add: sp_reset_def)
  ultimately have "perf_ok (fold (\<lambda>e p. perf_step p e) events (sp_reset p0 time core)) \<and>
      m_time_begin (fold (\<lambda>e p. perf_step p e) events (sp_reset p0 time core)) = time"
    by metis
  then show ?thesis by (simp add: perf_ok_def perf_total_def Let_def)
qed


theorem ShmemPerf_accounts_all_time_witness:
  "let p = fold (\<lambda>e p. perf_step p e) [Update 150 TD_ACCESS, Packet 200 20, Update 180 T_DRAM] (sp_reset ShmemPerf_new 100 3)
   in sum_list (m_times p) = 100 \<and> m_time_last p = 200"
proof -
  have "m_time_last (fold (\<lambda>e p. perf_step p e) [Update 150 TD_ACCESS, Packet 200 20, Update 180 T_DRAM] (sp_reset ShmemPerf_new 100 3)) = 200"
    by (simp add: updateTime_def updatePacket_def sp_reset_def ShmemPerf_new_def Let_def)
  with ShmemPerf_accounts_all_time [of ShmemPerf_new "[Update 150 TD_ACCESS, Packet 200 20, Update 180 T_DRAM]" 100 3]
  show ?thesis by (simp add: ShmemPerf_new_def Let_def)
qed


end
