(* ===== verification/MemMgr.thy ===== *)
theory MemMgr
  imports CacheGeom Shmem
begin

section \<open>What the controllers of a node share\<close>

text \<open>
  \<^verbatim>\<open>performance_model/shmem_perf_model.{h,cc}\<close> (the simulated time of the two threads of a
  core), \<open>sendMsg\<close> and \<open>broadcastMsg\<close> of
  \<^verbatim>\<open>parametric_dram_directory_msi/memory_manager.cc\<close>, and the packets they hand to the network.
  The state a controller shares with the rest of its node is the record \<open>mem_env\<close>, which the
  controllers' own states extend: the time, the \<open>ShmemPerf\<close> objects, the data buffers and the
  packets sent so far, oldest first. Delivery is the network's: a packet sent is only recorded.
\<close>

datatype Thread_t = USER_THREAD | SIM_THREAD

record ShmemPerfModel =
  m_elapsed_time :: "Thread_t \<Rightarrow> SubsecondTime"
  spm_enabled :: bool
  m_num_memory_accesses :: u64
  m_total_memory_access_latency :: SubsecondTime

definition ShmemPerfModel_new :: ShmemPerfModel where
  "ShmemPerfModel_new =
     \<lparr>m_elapsed_time = (\<lambda>_. 0), spm_enabled = False, m_num_memory_accesses = 0, m_total_memory_access_latency = 0\<rparr>"

definition spm_setElapsedTime :: "Thread_t \<Rightarrow> SubsecondTime \<Rightarrow> ShmemPerfModel \<Rightarrow> ShmemPerfModel" where
  "spm_setElapsedTime thread_num time m = m\<lparr>m_elapsed_time := (m_elapsed_time m)(thread_num := time)\<rparr>"

definition spm_updateElapsedTime :: "SubsecondTime \<Rightarrow> Thread_t \<Rightarrow> ShmemPerfModel \<Rightarrow> ShmemPerfModel" where
  "spm_updateElapsedTime time thread_num m =
     (if m_elapsed_time m thread_num < time
      then m\<lparr>m_elapsed_time := (m_elapsed_time m)(thread_num := time)\<rparr> else m)"

definition spm_incrElapsedTime :: "SubsecondTime \<Rightarrow> Thread_t \<Rightarrow> ShmemPerfModel \<Rightarrow> ShmemPerfModel res" where
  "spm_incrElapsedTime time thread_num m =
     (let i_elapsed_time = m_elapsed_time m thread_num;
          t_elapsed_time = i_elapsed_time + time
      in rbind (ensure AssertFailed (t_elapsed_time \<ge> i_elapsed_time)) (\<lambda>_.
         Inr (m\<lparr>m_elapsed_time := (m_elapsed_time m)(thread_num := t_elapsed_time)\<rparr>)))"

definition incrTotalMemoryAccessLatency :: "SubsecondTime \<Rightarrow> ShmemPerfModel \<Rightarrow> ShmemPerfModel" where
  "incrTotalMemoryAccessLatency shmem_time m =
     (if spm_enabled m
      then m\<lparr>m_num_memory_accesses := m_num_memory_accesses m + 1,
             m_total_memory_access_latency := m_total_memory_access_latency m + shmem_time\<rparr>
      else m)"

definition BROADCAST :: int where "BROADCAST = sint (0xDEADBABE :: u32)"

record NetPacket =
  pkt_start_time :: SubsecondTime
  pkt_time :: SubsecondTime
  pkt_queue_delay :: SubsecondTime
  pkt_sender :: int
  pkt_receiver :: int
  pkt_length :: u32
  pkt_data :: "ShmemMsg \<times> u8 list"

record mem_env =
  env_core_id :: core_id_t \<comment> \<open>\<open>m_core_id_master\<close>\<close>
  env_spm :: ShmemPerfModel
  env_perfs :: "ShmemPerf store"
  env_bufs :: "u8 list store"
  env_sizeof_msg :: nat \<comment> \<open>\<open>sizeof(ShmemMsg)\<close>\<close>
  env_net :: "NetPacket list"

definition now :: "Thread_t \<Rightarrow> ('a mem_env_scheme, SubsecondTime) sm" where
  \<comment> \<open>\<open>getShmemPerfModel()->getElapsedTime(thread_num)\<close>\<close>
  "now thread_num = sget (\<lambda>s. m_elapsed_time (env_spm s) thread_num)"

definition setElapsedTime :: "Thread_t \<Rightarrow> SubsecondTime \<Rightarrow> ('a mem_env_scheme, unit) sm" where
  "setElapsedTime thread_num time = smod (\<lambda>s. s\<lparr>env_spm := spm_setElapsedTime thread_num time (env_spm s)\<rparr>)"

definition updateElapsedTime :: "SubsecondTime \<Rightarrow> Thread_t \<Rightarrow> ('a mem_env_scheme, unit) sm" where
  "updateElapsedTime time thread_num = smod (\<lambda>s. s\<lparr>env_spm := spm_updateElapsedTime time thread_num (env_spm s)\<rparr>)"

definition incrElapsedTime :: "SubsecondTime \<Rightarrow> Thread_t \<Rightarrow> ('a mem_env_scheme, unit) sm" where
  "incrElapsedTime time thread_num =
     sbind (sget env_spm) (\<lambda>m.
     sbind (slift (spm_incrElapsedTime time thread_num m)) (\<lambda>m.
     smod (\<lambda>s. s\<lparr>env_spm := m\<rparr>)))"

definition perf_updateTime :: "nat option \<Rightarrow> SubsecondTime \<Rightarrow> shmem_times_type_t \<Rightarrow> ('a mem_env_scheme, unit) sm" where
  \<comment> \<open>\<open>perf->updateTime(time, reason)\<close>: nothing happens on \<open>NULL\<close>\<close>
  "perf_updateTime perf time reason =
     (case perf of
        None \<Rightarrow> sret ()
      | Some p \<Rightarrow>
          sbind (sget env_perfs) (\<lambda>st.
          sbind (slift (st_get st p)) (\<lambda>x.
          smod (\<lambda>s. s\<lparr>env_perfs := st_put p (updateTime x time reason) (env_perfs s)\<rparr>))))"

definition perf_updatePacket :: "nat option \<Rightarrow> SubsecondTime \<Rightarrow> SubsecondTime \<Rightarrow> ('a mem_env_scheme, unit) sm" where
  "perf_updatePacket perf time queue_delay =
     (case perf of
        None \<Rightarrow> sret ()
      | Some p \<Rightarrow>
          sbind (sget env_perfs) (\<lambda>st.
          sbind (slift (st_get st p)) (\<lambda>x.
          smod (\<lambda>s. s\<lparr>env_perfs := st_put p (updatePacket x time queue_delay) (env_perfs s)\<rparr>))))"

definition netSend :: "NetPacket \<Rightarrow> ('a mem_env_scheme, unit) sm" where
  "netSend packet = smod (\<lambda>s. s\<lparr>env_net := env_net s @ [packet]\<rparr>)"

definition send_to :: "int \<Rightarrow> ShmemMsg \<Rightarrow> Thread_t \<Rightarrow> ('a mem_env_scheme, unit) sm" where
  \<comment> \<open>from \<open>makeMsgBuf\<close> to \<open>netSend\<close>, the same in \<open>sendMsg\<close> and \<open>broadcastMsg\<close>\<close>
  "send_to receiver shmem_msg thread_num =
     sbind (sget env_bufs) (\<lambda>bufs.
     sbind (slift (makeMsgBuf bufs shmem_msg)) (\<lambda>msg_buf.
     sbind (now thread_num) (\<lambda>msg_time.
     sseq (perf_updateTime (m_perf shmem_msg) msg_time T_UNKNOWN) (
     sbind (sget env_core_id) (\<lambda>core.
     sbind (sget env_sizeof_msg) (\<lambda>n.
     netSend \<lparr>pkt_start_time = 0, pkt_time = msg_time, pkt_queue_delay = 0, pkt_sender = core, pkt_receiver = receiver,
              pkt_length = getMsgLen n shmem_msg, pkt_data = msg_buf\<rparr>))))))"

definition sendMsg ::
    "msg_t \<Rightarrow> component_t \<Rightarrow> component_t \<Rightarrow> core_id_t \<Rightarrow> core_id_t \<Rightarrow> IntPtr \<Rightarrow> nat option \<Rightarrow> u32 \<Rightarrow>
     where_t \<Rightarrow> nat option \<Rightarrow> Thread_t \<Rightarrow> ('a mem_env_scheme, unit) sm" where
  "sendMsg msg_type sender_mem_component receiver_mem_component requester receiver address data_buf data_length
     hit_where perf thread_num =
     sseq (sassert ((data_buf = None) = (data_length = 0))) (
     let shmem_msg = (ShmemMsg_new msg_type sender_mem_component receiver_mem_component requester address
           data_buf data_length perf)\<lparr>m_where := hit_where\<rparr>
     in send_to receiver shmem_msg thread_num)"

definition broadcastMsg ::
    "msg_t \<Rightarrow> component_t \<Rightarrow> component_t \<Rightarrow> core_id_t \<Rightarrow> IntPtr \<Rightarrow> nat option \<Rightarrow> u32 \<Rightarrow>
     nat option \<Rightarrow> Thread_t \<Rightarrow> ('a mem_env_scheme, unit) sm" where
  "broadcastMsg msg_type sender_mem_component receiver_mem_component requester address data_buf data_length perf thread_num =
     sseq (sassert ((data_buf = None) = (data_length = 0))) (
     let shmem_msg = ShmemMsg_new msg_type sender_mem_component receiver_mem_component requester address
           data_buf data_length perf
     in send_to BROADCAST shmem_msg thread_num)"

definition new_buf :: "u8 list \<Rightarrow> ('a mem_env_scheme, nat) sm" where
  \<comment> \<open>a local array coming into scope\<close>
  "new_buf data =
     sbind (sget (\<lambda>s. st_new data (env_bufs s))) (\<lambda>(p, bufs).
     sseq (smod (\<lambda>s. s\<lparr>env_bufs := bufs\<rparr>)) (sret p))"

definition free_buf :: "nat \<Rightarrow> ('a mem_env_scheme, unit) sm" where
  "free_buf p = smod (\<lambda>s. s\<lparr>env_bufs := st_delete p (env_bufs s)\<rparr>)"

definition read_buf :: "nat option \<Rightarrow> ('a mem_env_scheme, u8 list option) sm" where
  \<comment> \<open>the bytes behind a pointer, \<open>None\<close> for \<open>NULL\<close>\<close>
  "read_buf p =
     (case p of
        None \<Rightarrow> sret None
      | Some p \<Rightarrow> sbind (sget env_bufs) (\<lambda>st. sbind (slift (st_get st p)) (\<lambda>x. sret (Some x))))"

definition handleMsgFromNetwork ::
    "(core_id_t \<Rightarrow> ShmemMsg \<Rightarrow> ('a mem_env_scheme, unit) sm) \<Rightarrow> (core_id_t \<Rightarrow> ShmemMsg \<Rightarrow> ('a mem_env_scheme, unit) sm) \<Rightarrow>
     (core_id_t \<Rightarrow> ShmemMsg \<Rightarrow> ('a mem_env_scheme, unit) sm) \<Rightarrow> (core_id_t \<Rightarrow> ShmemMsg \<Rightarrow> ('a mem_env_scheme, unit) sm) \<Rightarrow>
     NetPacket \<Rightarrow> ('a mem_env_scheme, unit) sm" where
  \<comment> \<open>the four handlers are those of the last-level cache, of the tag directory for messages from the
     caches and from DRAM, and of the DRAM controller; the two assertions that a component is present
     precede the first \<open>case\<close> label and are never executed\<close>
  "handleMsgFromNetwork handleMsgFromDramDirectory handleMsgFromL2 handleMsgFromDRAM handleMsgFromTagDirectory packet =
     sbind (sget env_bufs) (\<lambda>bufs.
     sbind (slift (getShmemMsg (pkt_data packet) bufs)) (\<lambda>(shmem_msg, bufs).
     sseq (smod (\<lambda>s. s\<lparr>env_bufs := bufs\<rparr>)) (
     sseq (setElapsedTime SIM_THREAD (pkt_time packet)) (
     sseq (perf_updatePacket (m_perf shmem_msg) (pkt_time packet) (pkt_queue_delay packet)) (
     let sender = pkt_sender packet; receiver_mem_component = m_receiver_mem_component shmem_msg;
         sender_mem_component = m_sender_mem_component shmem_msg in
     sseq (if receiver_mem_component = L2_CACHE \<or> receiver_mem_component = LAST_LEVEL_CACHE
           then if sender_mem_component = TAG_DIR then handleMsgFromDramDirectory sender shmem_msg else sthrow LogError
           else if receiver_mem_component = TAG_DIR
           then if sender_mem_component = LAST_LEVEL_CACHE then handleMsgFromL2 sender shmem_msg
                else if sender_mem_component = DRAM then handleMsgFromDRAM sender shmem_msg
                else sthrow LogError
           else if receiver_mem_component = DRAM
           then if sender_mem_component = TAG_DIR then handleMsgFromTagDirectory sender shmem_msg else sthrow LogError
           else sthrow LogError) (
     if m_data_length shmem_msg > 0
     then (case m_data_buf shmem_msg of
             None \<Rightarrow> sthrow AssertFailed
           | Some p \<Rightarrow> sbind (read_buf (Some p)) (\<lambda>_. free_buf p))
     else sret ()))))))"

subsection \<open>Effects of the shared operations\<close>

definition env_wf :: "'a mem_env_scheme \<Rightarrow> bool" where
  "env_wf s \<longleftrightarrow> store_wf (env_perfs s) \<and> store_wf (env_bufs s)"

definition perf_valid :: "'a mem_env_scheme \<Rightarrow> nat option \<Rightarrow> bool" where
  "perf_valid s perf \<longleftrightarrow> (case perf of None \<Rightarrow> True | Some p \<Rightarrow> st_map (env_perfs s) p \<noteq> None)"

definition buf_valid :: "'a mem_env_scheme \<Rightarrow> nat option \<Rightarrow> u32 \<Rightarrow> bool" where
  "buf_valid s buf n \<longleftrightarrow>
     (case buf of None \<Rightarrow> True | Some p \<Rightarrow> (\<exists>x. st_map (env_bufs s) p = Some x \<and> unat n \<le> length x))"

definition same_env :: "'a mem_env_scheme \<Rightarrow> 'a mem_env_scheme \<Rightarrow> bool" where
  \<comment> \<open>the second state is the first after time has passed and packets were sent\<close>
  "same_env s s' \<longleftrightarrow> (\<exists>spm perfs net. s' = s\<lparr>env_spm := spm, env_perfs := perfs, env_net := env_net s @ net\<rparr> \<and>
     dom (st_map perfs) = dom (st_map (env_perfs s)) \<and> st_next perfs = st_next (env_perfs s))"

lemma same_env_refl [simp]: "same_env s s"
  by (auto simp: same_env_def intro!: exI [of _ "env_spm s"] exI [of _ "env_perfs s"] exI [of _ "[]"])

lemma same_env_trans [trans]:
  assumes "same_env s t" and "same_env t u"
  shows "same_env s u"
proof -
  obtain spm perfs net where t: "t = s\<lparr>env_spm := spm, env_perfs := perfs, env_net := env_net s @ net\<rparr>"
      "dom (st_map perfs) = dom (st_map (env_perfs s))" "st_next perfs = st_next (env_perfs s)"
    using assms(1) by (auto simp: same_env_def)
  obtain spm' perfs' net' where u: "u = t\<lparr>env_spm := spm', env_perfs := perfs', env_net := env_net t @ net'\<rparr>"
      "dom (st_map perfs') = dom (st_map (env_perfs t))" "st_next perfs' = st_next (env_perfs t)"
    using assms(2) by (auto simp: same_env_def)
  show ?thesis
    unfolding same_env_def
    by (rule exI [of _ spm'], rule exI [of _ perfs'], rule exI [of _ "net @ net'"]) (use t u in simp)
qed

lemma same_env_perf [simp]: "same_env s s' \<Longrightarrow> perf_valid s' p = perf_valid s p"
  by (auto simp: same_env_def perf_valid_def domIff set_eq_iff split: option.splits)

lemma same_env_buf [simp]: "same_env s s' \<Longrightarrow> buf_valid s' b n = buf_valid s b n"
  by (auto simp: same_env_def buf_valid_def split: option.splits)

lemma same_env_wf: "same_env s s' \<Longrightarrow> env_wf s \<Longrightarrow> env_wf s'"
  by (clarsimp simp: same_env_def env_wf_def store_wf_def simp del: dom_def)

lemma wp_now [wp]: "wp (now t) Q = (\<lambda>s. Q (m_elapsed_time (env_spm s) t) s)"
  by (simp add: now_def wp)

lemma same_env_spm: "same_env s (s\<lparr>env_spm := m\<rparr>)"
  by (auto simp: same_env_def intro!: exI [of _ m] exI [of _ "env_perfs s"] exI [of _ "[]"])

lemma wp_setElapsedTime: "(\<And>s'. same_env s s' \<Longrightarrow> Q () s') \<Longrightarrow> wp (setElapsedTime t time) Q s"
  by (simp add: setElapsedTime_def wp same_env_spm)

lemma wp_updateElapsedTime: "(\<And>s'. same_env s s' \<Longrightarrow> Q () s') \<Longrightarrow> wp (updateElapsedTime time t) Q s"
  by (simp add: updateElapsedTime_def wp same_env_spm)

lemma wp_incrElapsedTime: "(\<And>s'. same_env s s' \<Longrightarrow> Q () s') \<Longrightarrow> wp (incrElapsedTime time t) Q s"
  by (auto simp: incrElapsedTime_def spm_incrElapsedTime_def ensure_def Let_def wp same_env_spm)

lemma same_env_perfs: "st_map (env_perfs s) p = Some y \<Longrightarrow> same_env s (s\<lparr>env_perfs := st_put p x (env_perfs s)\<rparr>)"
  by (auto simp: same_env_def intro!: exI [of _ "env_spm s"] exI [of _ "st_put p x (env_perfs s)"] exI [of _ "[]"]
      split: if_splits)

lemma wp_perf_updateTime:
  "perf_valid s perf \<Longrightarrow> (\<And>s'. same_env s s' \<Longrightarrow> Q () s') \<Longrightarrow> wp (perf_updateTime perf time reason) Q s"
  by (auto simp: perf_updateTime_def perf_valid_def wp same_env_perfs split: option.splits)

lemma same_env_net: "same_env s (s\<lparr>env_net := env_net s @ [p]\<rparr>)"
  by (auto simp: same_env_def intro!: exI [of _ "env_spm s"] exI [of _ "env_perfs s"] exI [of _ "[p]"])

lemma wp_netSend: "(\<And>s'. same_env s s' \<Longrightarrow> Q () s') \<Longrightarrow> wp (netSend p) Q s"
  by (simp add: netSend_def wp same_env_net)

lemma wp_send_to:
  assumes "perf_valid s (m_perf msg)" and "buf_valid s (m_data_buf msg) (m_data_length msg)"
    and "\<And>s'. same_env s s' \<Longrightarrow> Q () s'"
  shows "wp (send_to receiver msg thread_num) Q s"
proof -
  have "case makeMsgBuf (env_bufs s) msg of Inl e \<Rightarrow> stops e | Inr _ \<Rightarrow> True"
    using assms(2) by (auto simp: makeMsgBuf_def buf_valid_def split: option.splits)
  moreover have "wp (sseq (perf_updateTime (m_perf msg) t T_UNKNOWN)
      (sbind (sget env_core_id) (\<lambda>core. sbind (sget env_sizeof_msg) (\<lambda>n. netSend (pkt core n))))) Q s" for t pkt
    unfolding wp_sseq
    by (rule wp_perf_updateTime [OF assms(1)], simp add: wp, rule wp_netSend, rule assms(3), rule same_env_trans)
  ultimately show ?thesis
    by (auto simp: send_to_def wp_sbind wp_sget wp_slift wp_now split: sum.splits)
qed

lemma wp_sendMsg:
  assumes "perf_valid s perf" and "buf_valid s buf n" and "\<And>s'. same_env s s' \<Longrightarrow> Q () s'"
  shows "wp (sendMsg ty sc rc requester receiver address buf n hw perf t) Q s"
  using assms by (auto simp: sendMsg_def wp Let_def ShmemMsg_new_def intro!: wp_send_to)

lemma wp_broadcastMsg:
  assumes "perf_valid s perf" and "buf_valid s buf n" and "\<And>s'. same_env s s' \<Longrightarrow> Q () s'"
  shows "wp (broadcastMsg ty sc rc requester address buf n perf t) Q s"
  using assms by (auto simp: broadcastMsg_def wp Let_def ShmemMsg_new_def intro!: wp_send_to)

subsection \<open>Steps that only take time and send\<close>

text \<open>
  \<open>quiet stop m P s\<close>: from \<open>s\<close>, \<open>m\<close> changes nothing but the time, the statistics of requests and the
  packets sent, and its result satisfies \<open>P\<close>; it stops at an assertion only if \<open>stop\<close>.
\<close>

definition quiet :: "bool \<Rightarrow> ('a mem_env_scheme, 'x) sm \<Rightarrow> ('x \<Rightarrow> bool) \<Rightarrow> 'a mem_env_scheme \<Rightarrow> bool" where
  "quiet stop m P s \<longleftrightarrow> (case m s of Inl e \<Rightarrow> stop \<and> stops e | Inr (x, s') \<Rightarrow> same_env s s' \<and> P x)"

lemma quiet_wp: "quiet stop m P s \<Longrightarrow> (\<And>x s'. same_env s s' \<Longrightarrow> P x \<Longrightarrow> Q x s') \<Longrightarrow> wp m Q s"
  by (auto simp: quiet_def wp_def split: sum.splits)

lemma quietI: "wp m (\<lambda>x s'. same_env s s' \<and> P x) s \<Longrightarrow> (\<And>e. m s = Inl e \<Longrightarrow> stop) \<Longrightarrow> quiet stop m P s"
  by (auto simp: quiet_def wp_def split: sum.splits)

lemma quiet_mono: "quiet stop m P s \<Longrightarrow> (\<And>x. P x \<Longrightarrow> R x) \<Longrightarrow> quiet stop m R s"
  by (auto simp: quiet_def split: sum.splits)

lemma quiet_sret: "P x \<Longrightarrow> quiet stop (sret x) P s"
  by (simp add: quiet_def sret_def)

lemma quiet_slift: "(\<And>x. r = Inr x \<Longrightarrow> P x) \<Longrightarrow> (\<And>e. r = Inl e \<Longrightarrow> stop \<and> stops e) \<Longrightarrow> quiet stop (slift r) P s"
  by (simp add: quiet_def slift_def split: sum.split)

lemma quiet_sbind:
  assumes "quiet stop m P s" and "\<And>x s'. same_env s s' \<Longrightarrow> P x \<Longrightarrow> quiet stop (f x) R s'"
  shows "quiet stop (sbind m f) R s"
proof (cases "m s")
  case (Inr r)
  then obtain x s' where r: "m s = Inr (x, s')"
    by (cases r) simp
  with assms(1) have s': "same_env s s'" and "P x"
    by (simp_all add: quiet_def)
  then have "quiet stop (f x) R s'"
    by (rule assms(2))
  with r s' show ?thesis
    by (auto simp: quiet_def sbind_def split: sum.splits intro: same_env_trans)
qed (use assms(1) in \<open>simp add: quiet_def sbind_def\<close>)

lemma quiet_sseq:
  assumes "quiet stop m (\<lambda>_. True) s" and "\<And>s'. same_env s s' \<Longrightarrow> quiet stop k R s'"
  shows "quiet stop (sseq m k) R s"
  unfolding sseq_def by (rule quiet_sbind [OF assms(1)]) (rule assms(2))

lemma quiet_sget: "P (f s) \<Longrightarrow> quiet stop (sget f) P s"
  by (simp add: quiet_def sget_def)

lemma quiet_sassert: "stop \<or> b \<Longrightarrow> quiet stop (sassert b) (\<lambda>_. b) s"
  by (auto simp: quiet_def sassert_def)

lemma quiet_env:
  "quiet stop (setElapsedTime t time) (\<lambda>_. True) s" "quiet stop (updateElapsedTime time t) (\<lambda>_. True) s"
  "quiet True (incrElapsedTime time t) (\<lambda>_. True) s" "quiet stop (now t) (\<lambda>_. True) s"
  "perf_valid s perf \<Longrightarrow> quiet stop (perf_updateTime perf time reason) (\<lambda>_. True) s"
  "perf_valid s perf \<Longrightarrow> buf_valid s buf n \<Longrightarrow>
     quiet True (sendMsg ty sc rc requester receiver address buf n hw perf t) (\<lambda>_. True) s"
  "perf_valid s perf \<Longrightarrow> buf_valid s buf n \<Longrightarrow>
     quiet True (broadcastMsg ty sc rc requester address buf n perf t) (\<lambda>_. True) s"
proof -
  show "quiet stop (setElapsedTime t time) (\<lambda>_. True) s" "quiet stop (updateElapsedTime time t) (\<lambda>_. True) s"
    "quiet stop (now t) (\<lambda>_. True) s"
    by (simp_all add: quiet_def setElapsedTime_def updateElapsedTime_def now_def smod_def sget_def same_env_spm)
  show "perf_valid s perf \<Longrightarrow> quiet stop (perf_updateTime perf time reason) (\<lambda>_. True) s"
    by (auto simp: quiet_def perf_updateTime_def perf_valid_def sm_defs same_env_perfs split: option.split)
qed (auto intro!: quietI wp_incrElapsedTime wp_sendMsg wp_broadcastMsg)

end
