(* ===== verification/Directory.thy ===== *)
theory Directory
  imports Utils Shmem
begin

section \<open>The tag directory\<close>

text \<open>
  \<^verbatim>\<open>memory_subsystem/directory_schemes/\<close> and
  \<^verbatim>\<open>pr_l1_pr_l2_dram_directory_msi/dram_directory_cache.{h,cc}\<close>: directory entries with their
  sharers, owner and forwarder in the three schemes (full map, limited without broadcast,
  limitless), the table of entries, and the set-associative cache of entries that finds the
  entry of an address, allocates a free one, or sets one aside to be replaced.

  Entries are objects that the controller keeps pointers to while others are replaced, so they
  live in a heap: a pointer is a number, the table and the list of replaced entries hold
  pointers. The sharers (a \<open>std::bitset\<close> or a \<open>std::vector<bool>\<close>) are a list of flags. The
  members the constructors do not initialise (\<open>m_forwarder_id\<close>, \<open>m_replacement_ptrs\<close>) are
  arguments.
\<close>

subsection \<open>Directory entries\<close>

datatype dstate_t = D_UNCACHED | D_SHARED | D_OWNED | D_MODIFIED | D_EXCLUSIVE

datatype coherency_protocol = MSI | MESI | MESIF

datatype entry_scheme =
    LimitedNoBroadcast u32 \<comment> \<open>\<open>m_rand_num\<close>\<close>
  | Limitless bool SubsecondTime \<comment> \<open>\<open>m_software_trap_enabled\<close>, \<open>m_software_trap_penalty\<close>\<close>

record DirectoryEntry =
  de_address :: IntPtr
  m_dstate :: dstate_t
  m_owner_id :: core_id_t
  m_forwarder_id :: core_id_t
  m_sharers :: "bool list"
  de_scheme :: entry_scheme

definition nth_core :: "bool list \<Rightarrow> core_id_t \<Rightarrow> bool res" where
  "nth_core sharers i = (if i < 0 then Inl Undefined else nth_res sharers (nat i))"

definition getNumSharers :: "DirectoryEntry \<Rightarrow> u32" where
  "getNumSharers e = of_nat (length (filter id (m_sharers e)))"

definition getSharersList :: "DirectoryEntry \<Rightarrow> bool \<times> core_id_t list" where
  "getSharersList e = (False, map int (filter (\<lambda>j. m_sharers e ! j) [0..<length (m_sharers e)]))"

definition hasSharer :: "DirectoryEntry \<Rightarrow> core_id_t \<Rightarrow> bool res" where
  "hasSharer e sharer_id = nth_core (m_sharers e) sharer_id"

definition limited_addSharer :: "DirectoryEntry \<Rightarrow> core_id_t \<Rightarrow> u32 \<Rightarrow> (bool \<times> DirectoryEntry) res" where
  "limited_addSharer e sharer_id max_hw_sharers =
     rbind (nth_core (m_sharers e) sharer_id) (\<lambda>b.
     rbind (ensure AssertFailed (\<not> b)) (\<lambda>_.
     if getNumSharers e \<ge> max_hw_sharers then Inr (False, e)
     else Inr (True, e\<lparr>m_sharers := (m_sharers e)[nat sharer_id := True]\<rparr>)))"

definition limitless_addSharer :: "DirectoryEntry \<Rightarrow> core_id_t \<Rightarrow> u32 \<Rightarrow> SubsecondTime \<Rightarrow> (bool \<times> DirectoryEntry) res" where
  "limitless_addSharer e sharer_id max_hw_sharers penalty =
     rbind (nth_core (m_sharers e) sharer_id) (\<lambda>b.
     rbind (ensure AssertFailed (\<not> b)) (\<lambda>_.
     let e = (if length (m_sharers e) = unat max_hw_sharers
              then e\<lparr>de_scheme := Limitless True penalty\<rparr> else e)
     in Inr (True, e\<lparr>m_sharers := (m_sharers e)[nat sharer_id := True]\<rparr>)))"

definition addSharer :: "DirectoryEntry \<Rightarrow> core_id_t \<Rightarrow> u32 \<Rightarrow> (bool \<times> DirectoryEntry) res" where
  "addSharer e sharer_id max_hw_sharers =
     (case de_scheme e of
        LimitedNoBroadcast _ \<Rightarrow> limited_addSharer e sharer_id max_hw_sharers
      | Limitless _ penalty \<Rightarrow> limitless_addSharer e sharer_id max_hw_sharers penalty)"

definition removeSharer :: "DirectoryEntry \<Rightarrow> core_id_t \<Rightarrow> bool \<Rightarrow> DirectoryEntry res" where
  "removeSharer e sharer_id reply_expected =
     rbind (ensure AssertFailed (\<not> reply_expected)) (\<lambda>_.
     rbind (nth_core (m_sharers e) sharer_id) (\<lambda>b.
     rbind (ensure AssertFailed b) (\<lambda>_.
     Inr (e\<lparr>m_sharers := (m_sharers e)[nat sharer_id := False]\<rparr>))))"

definition setOwner :: "DirectoryEntry \<Rightarrow> core_id_t \<Rightarrow> DirectoryEntry res" where
  "setOwner e owner_id =
     rbind (if owner_id \<noteq> INVALID_CORE_ID
            then rbind (nth_core (m_sharers e) owner_id) (ensure AssertFailed) else Inr ()) (\<lambda>_.
     Inr (e\<lparr>m_owner_id := owner_id\<rparr>))"

definition limited_getOneSharer :: "DirectoryEntry \<Rightarrow> u32 \<Rightarrow> (core_id_t \<times> DirectoryEntry) res" where
  "limited_getOneSharer e seed =
     (case getSharersList e of (all, sharers) \<Rightarrow>
        rbind (ensure AssertFailed (\<not> all)) (\<lambda>_.
        rbind (ensure AssertFailed (sharers \<noteq> [])) (\<lambda>_.
        case Random_next seed (of_nat (length sharers)) of (index, seed) \<Rightarrow>
        rbind index (\<lambda>index.
        rbind (nth_res sharers (unat index)) (\<lambda>s.
        Inr (s, e\<lparr>de_scheme := LimitedNoBroadcast seed\<rparr>))))))"

definition limitless_getOneSharer :: "DirectoryEntry \<Rightarrow> (core_id_t \<times> DirectoryEntry) res" where
  "limitless_getOneSharer e =
     (case first_index (\<lambda>j. m_sharers e ! j) (length (m_sharers e)) of
        None \<Rightarrow> Inl AssertFailed
      | Some j \<Rightarrow> Inr (int j, e))"

definition getOneSharer :: "DirectoryEntry \<Rightarrow> (core_id_t \<times> DirectoryEntry) res" where
  "getOneSharer e =
     (case de_scheme e of
        LimitedNoBroadcast seed \<Rightarrow> limited_getOneSharer e seed
      | Limitless _ _ \<Rightarrow> limitless_getOneSharer e)"

definition getLatency :: "DirectoryEntry \<Rightarrow> SubsecondTime" where
  "getLatency e =
     (case de_scheme e of
        LimitedNoBroadcast _ \<Rightarrow> 0
      | Limitless trap penalty \<Rightarrow> if trap then penalty else 0)"

subsection \<open>The table of entries\<close>

datatype DirectoryType = FULL_MAP | LIMITED_NO_BROADCAST | LIMITLESS

type_synonym entry_ptr = nat

record Directory =
  m_directory_type :: DirectoryType
  m_num_entries :: u32
  m_num_entries_allocated :: u64
  m_max_hw_sharers :: u32
  m_use_max_hw_sharers :: u32
  m_max_num_sharers :: u32
  m_limitless_software_trap_penalty :: SubsecondTime
  m_directory_entry_list :: "entry_ptr option list"
  d_heap :: "entry_ptr \<rightharpoonup> DirectoryEntry"
  d_next :: entry_ptr
  d_junk :: core_id_t \<comment> \<open>what an uninitialised \<open>m_forwarder_id\<close> contains\<close>

definition parseDirectoryType :: "string \<Rightarrow> DirectoryType res" where
  "parseDirectoryType s =
     (if s = ''full_map'' then Inr FULL_MAP
      else if s = ''limited_no_broadcast'' then Inr LIMITED_NO_BROADCAST
      else if s = ''limitless'' then Inr LIMITLESS
      else Inl LogError)"

definition Directory_new ::
    "core_id_t \<Rightarrow> string \<Rightarrow> u32 \<Rightarrow> u32 \<Rightarrow> u32 \<Rightarrow> u64 option \<Rightarrow> Directory res" where
  \<comment> \<open>the last argument is the configured software trap penalty in ns, if it can be read\<close>
  "Directory_new junk directory_type_str num_entries max_hw_sharers max_num_sharers trap_ns =
     rbind (parseDirectoryType directory_type_str) (\<lambda>ty.
     rbind (if ty = LIMITLESS
            then (case trap_ns of None \<Rightarrow> Inl LogError | Some n \<Rightarrow> Inr (NS 1 * n)) else Inr 0) (\<lambda>penalty.
     Inr \<lparr>m_directory_type = ty, m_num_entries = num_entries, m_num_entries_allocated = 0,
          m_max_hw_sharers = max_hw_sharers, m_use_max_hw_sharers = max_hw_sharers,
          m_max_num_sharers = max_num_sharers, m_limitless_software_trap_penalty = penalty,
          m_directory_entry_list = replicate (unat num_entries) None,
          d_heap = Map.empty, d_next = 0, d_junk = junk\<rparr>))"

definition sharers_size :: "u32 \<Rightarrow> nat" where
  \<comment> \<open>the size of the storage class \<open>createDirectoryEntry\<close> selects\<close>
  "sharers_size max_num_sharers =
     (if max_num_sharers \<le> 64 then 64
      else if max_num_sharers \<le> 128 then 128
      else if max_num_sharers \<le> 256 then 256
      else if max_num_sharers \<le> 1024 then 1024
      else unat max_num_sharers)"

definition createDirectoryEntrySized :: "Directory \<Rightarrow> DirectoryEntry \<times> Directory" where
  "createDirectoryEntrySized d =
     (let new = (\<lambda>scheme. \<lparr>de_address = INVALID_ADDRESS, m_dstate = D_UNCACHED,
                            m_owner_id = INVALID_CORE_ID, m_forwarder_id = d_junk d,
                            m_sharers = replicate (sharers_size (m_max_num_sharers d)) False,
                            de_scheme = scheme\<rparr>) in
      case m_directory_type d of
        FULL_MAP \<Rightarrow> (new (LimitedNoBroadcast 1), d\<lparr>m_use_max_hw_sharers := m_max_num_sharers d\<rparr>)
      | LIMITED_NO_BROADCAST \<Rightarrow> (new (LimitedNoBroadcast 1), d)
      | LIMITLESS \<Rightarrow> (new (Limitless False (m_limitless_software_trap_penalty d)), d))"

definition createDirectoryEntry :: "Directory \<Rightarrow> entry_ptr \<times> Directory" where
  "createDirectoryEntry d =
     (case createDirectoryEntrySized d of (e, d) \<Rightarrow>
        (d_next d, d\<lparr>d_heap := (d_heap d)(d_next d \<mapsto> e), d_next := Suc (d_next d)\<rparr>))"

definition dir_getDirectoryEntry :: "Directory \<Rightarrow> u32 \<Rightarrow> (entry_ptr \<times> Directory) res" where
  "dir_getDirectoryEntry d entry_num =
     rbind (ensure AssertFailed (entry_num < m_num_entries d)) (\<lambda>_.
     rbind (nth_res (m_directory_entry_list d) (unat entry_num)) (\<lambda>p.
     case p of
       Some p \<Rightarrow> Inr (p, d)
     | None \<Rightarrow>
         (case createDirectoryEntry d of (p, d) \<Rightarrow>
            Inr (p, d\<lparr>m_directory_entry_list := (m_directory_entry_list d)[unat entry_num := Some p],
                     m_num_entries_allocated := m_num_entries_allocated d + 1\<rparr>))))"

definition setDirectoryEntry :: "Directory \<Rightarrow> u32 \<Rightarrow> entry_ptr \<Rightarrow> Directory res" where
  "setDirectoryEntry d entry_num p =
     rbind (nth_res (m_directory_entry_list d) (unat entry_num)) (\<lambda>_.
     Inr (d\<lparr>m_directory_entry_list := (m_directory_entry_list d)[unat entry_num := Some p]\<rparr>))"

definition deref_entry :: "Directory \<Rightarrow> entry_ptr \<Rightarrow> DirectoryEntry res" where
  "deref_entry d p = (case d_heap d p of None \<Rightarrow> Inl Undefined | Some e \<Rightarrow> Inr e)"

definition upd_entry :: "Directory \<Rightarrow> entry_ptr \<Rightarrow> DirectoryEntry \<Rightarrow> Directory" where
  \<comment> \<open>a change of the object \<open>p\<close> points to\<close>
  "upd_entry d p e = d\<lparr>d_heap := (d_heap d)(p \<mapsto> e)\<rparr>"

subsection \<open>The directory cache\<close>

record DramDirectoryCache =
  m_directory :: Directory
  m_replacement_ptrs :: "u32 list"
  m_replaced_directory_entry_list :: "entry_ptr list"
  m_total_entries :: u32
  ddc_associativity :: u32
  ddc_num_sets :: u32
  ddc_block_size :: u32
  m_log_num_sets :: u32
  m_log_cache_block_size :: u32

definition DramDirectoryCache_new ::
    "core_id_t \<Rightarrow> (nat \<Rightarrow> u32) \<Rightarrow> string \<Rightarrow> u32 \<Rightarrow> u32 \<Rightarrow> u32 \<Rightarrow> u32 \<Rightarrow> u32 \<Rightarrow> u64 option \<Rightarrow> DramDirectoryCache res" where
  "DramDirectoryCache_new junk junk_ptrs directory_type_str total_entries associativity cache_block_size
     max_hw_sharers max_num_sharers trap_ns =
     rbind (ensure Undefined (associativity \<noteq> 0)) (\<lambda>_.
     let num_sets = total_entries div associativity in
     rbind (Directory_new junk directory_type_str total_entries max_hw_sharers max_num_sharers trap_ns) (\<lambda>d.
     Inr \<lparr>m_directory = d, m_replacement_ptrs = map junk_ptrs [0..<unat num_sets],
          m_replaced_directory_entry_list = [], m_total_entries = total_entries,
          ddc_associativity = associativity, ddc_num_sets = num_sets, ddc_block_size = cache_block_size,
          m_log_num_sets = of_int (floorLog2 num_sets),
          m_log_cache_block_size = of_int (floorLog2 cache_block_size)\<rparr>))"

definition dir_splitAddress :: "DramDirectoryCache \<Rightarrow> IntPtr \<Rightarrow> u32 res" where
  \<comment> \<open>the set index; the tag is computed but not used by any caller\<close>
  "dir_splitAddress c address =
     rbind (ensure Undefined (unat (m_log_cache_block_size c) < 64)) (\<lambda>_.
     let cache_block_address = drop_bit (unat (m_log_cache_block_size c)) address
     in Inr (ucast cache_block_address AND (ddc_num_sets c - 1)))"

definition entry_at :: "DramDirectoryCache \<Rightarrow> u32 \<Rightarrow> (entry_ptr \<times> DramDirectoryCache) res" where
  \<comment> \<open>\<open>m_directory->getDirectoryEntry(entry_num)\<close>\<close>
  "entry_at c entry_num =
     rbind (dir_getDirectoryEntry (m_directory c) entry_num) (\<lambda>(p, d). Inr (p, c\<lparr>m_directory := d\<rparr>))"

fun find_in_set ::
    "(DirectoryEntry \<Rightarrow> bool) \<Rightarrow> u32 \<Rightarrow> nat \<Rightarrow> nat \<Rightarrow> DramDirectoryCache \<Rightarrow> (entry_ptr option \<times> nat \<times> DramDirectoryCache) res" where
  \<comment> \<open>the loops over the ways of a set: the first entry that satisfies \<open>P\<close> and its way, from way \<open>i\<close> on, \<open>n\<close> to go\<close>
  "find_in_set P set_index i 0 c = Inr (None, i, c)"
| "find_in_set P set_index i (Suc n) c =
     rbind (entry_at c (set_index * ddc_associativity c + of_nat i)) (\<lambda>(p, c).
     rbind (deref_entry (m_directory c) p) (\<lambda>e.
     if P e then Inr (Some p, i, c) else find_in_set P set_index (Suc i) n c))"

fun find_replaced :: "Directory \<Rightarrow> IntPtr \<Rightarrow> entry_ptr list \<Rightarrow> entry_ptr option res" where
  "find_replaced d address [] = Inr None"
| "find_replaced d address (p # ps) =
     rbind (deref_entry d p) (\<lambda>e.
     if de_address e = address then Inr (Some p) else find_replaced d address ps)"

definition getDirectoryEntry ::
    "SubsecondTime \<Rightarrow> DramDirectoryCache \<Rightarrow> IntPtr \<Rightarrow> bool \<Rightarrow> (entry_ptr option \<times> SubsecondTime list \<times> DramDirectoryCache) res" where
  \<comment> \<open>also returns the times added to the simulation thread, in order (the controller always passes
     a performance model); \<open>access\<close> is the access latency\<close>
  "getDirectoryEntry access c address modeled =
     (let t0 = (if modeled then [access] else []) in
      rbind (dir_splitAddress c address) (\<lambda>set_index.
      rbind (find_in_set (\<lambda>e. de_address e = address) set_index 0 (unat (ddc_associativity c)) c) (\<lambda>(p, _, c).
      case p of
        Some p \<Rightarrow>
          rbind (deref_entry (m_directory c) p) (\<lambda>e.
          Inr (Some p, if modeled then t0 @ [getLatency e] else t0, c))
      | None \<Rightarrow>
          rbind (find_in_set (\<lambda>e. de_address e = INVALID_ADDRESS) set_index 0 (unat (ddc_associativity c)) c) (\<lambda>(p, _, c).
          case p of
            Some p \<Rightarrow>
              rbind (deref_entry (m_directory c) p) (\<lambda>e.
              Inr (Some p, t0, c\<lparr>m_directory := upd_entry (m_directory c) p (e\<lparr>de_address := address\<rparr>)\<rparr>))
          | None \<Rightarrow>
              rbind (find_replaced (m_directory c) address (m_replaced_directory_entry_list c)) (\<lambda>p.
              Inr (p, t0, c))))))"

fun collect_candidates ::
    "u32 \<Rightarrow> u32 \<Rightarrow> nat \<Rightarrow> nat \<Rightarrow> DramDirectoryCache \<Rightarrow> (entry_ptr list \<times> DramDirectoryCache) res" where
  "collect_candidates set_index ptr i 0 c = Inr ([], c)"
| "collect_candidates set_index ptr i (Suc n) c =
     rbind (entry_at c (set_index * ddc_associativity c + ((of_nat i + ptr) mod ddc_associativity c))) (\<lambda>(p, c).
     rbind (collect_candidates set_index ptr (Suc i) n c) (\<lambda>(ps, c).
     Inr (p # ps, c)))"

definition getReplacementCandidates ::
    "DramDirectoryCache \<Rightarrow> IntPtr \<Rightarrow> (entry_ptr list \<times> DramDirectoryCache) res" where
  "getReplacementCandidates c address =
     rbind (getDirectoryEntry 0 c address False) (\<lambda>(p, _, c).
     rbind (ensure AssertFailed (p = None)) (\<lambda>_.
     rbind (dir_splitAddress c address) (\<lambda>set_index.
     rbind (nth_res (m_replacement_ptrs c) (unat set_index)) (\<lambda>ptr.
     rbind (collect_candidates set_index ptr 0 (unat (ddc_associativity c)) c) (\<lambda>(ps, c).
     Inr (ps, c\<lparr>m_replacement_ptrs := (m_replacement_ptrs c)[unat set_index := ptr + 1]\<rparr>))))))"

definition replaceDirectoryEntry ::
    "SubsecondTime \<Rightarrow> DramDirectoryCache \<Rightarrow> IntPtr \<Rightarrow> IntPtr \<Rightarrow> bool \<Rightarrow> (entry_ptr \<times> SubsecondTime \<times> DramDirectoryCache) res" where
  "replaceDirectoryEntry access c replaced_address address modeled =
     rbind (dir_splitAddress c replaced_address) (\<lambda>set_index.
     rbind (find_in_set (\<lambda>e. de_address e = replaced_address) set_index 0 (unat (ddc_associativity c)) c) (\<lambda>(p, i, c).
     case p of
       None \<Rightarrow> Inl LogError
     | Some p \<Rightarrow>
         let c = c\<lparr>m_replaced_directory_entry_list := m_replaced_directory_entry_list c @ [p]\<rparr> in
         (case createDirectoryEntry (m_directory c) of (q, d) \<Rightarrow>
            rbind (deref_entry d q) (\<lambda>e.
            let d = upd_entry d q (e\<lparr>de_address := address\<rparr>) in
            rbind (setDirectoryEntry d (set_index * ddc_associativity c + of_nat i) q) (\<lambda>d.
            Inr (q, if modeled then access else 0, c\<lparr>m_directory := d\<rparr>))))))"

fun erase_replaced :: "Directory \<Rightarrow> IntPtr \<Rightarrow> entry_ptr list \<Rightarrow> (entry_ptr \<times> entry_ptr list) res" where
  "erase_replaced d address [] = Inl LogError"
| "erase_replaced d address (p # ps) =
     rbind (deref_entry d p) (\<lambda>e.
     if de_address e = address then Inr (p, ps)
     else rbind (erase_replaced d address ps) (\<lambda>(q, qs). Inr (q, p # qs)))"

definition invalidateDirectoryEntry :: "DramDirectoryCache \<Rightarrow> IntPtr \<Rightarrow> DramDirectoryCache res" where
  "invalidateDirectoryEntry c address =
     rbind (erase_replaced (m_directory c) address (m_replaced_directory_entry_list c)) (\<lambda>(p, ps).
     Inr (c\<lparr>m_directory := (m_directory c)\<lparr>d_heap := (d_heap (m_directory c))(p := None)\<rparr>,
            m_replaced_directory_entry_list := ps\<rparr>))"

subsection \<open>The sharers of an entry as a set\<close>

definition sharer_set :: "DirectoryEntry \<Rightarrow> core_id_t set" where
  "sharer_set e = set (snd (getSharersList e))"

definition core_in :: "DirectoryEntry \<Rightarrow> core_id_t \<Rightarrow> bool" where
  \<comment> \<open>the core has a flag in the entry\<close>
  "core_in e i \<longleftrightarrow> 0 \<le> i \<and> nat i < length (m_sharers e)"

lemma sharer_set_iff: "i \<in> sharer_set e \<longleftrightarrow> core_in e i \<and> m_sharers e ! nat i"
  by (auto simp: sharer_set_def getSharersList_def core_in_def image_iff intro!: exI [of _ "nat i"])

lemma distinct_getSharersList: "distinct (snd (getSharersList e))"
  by (simp add: getSharersList_def distinct_map inj_on_def)

lemma finite_sharer_set [simp]: "finite (sharer_set e)"
  by (simp add: sharer_set_def)

lemma length_getSharersList: "length (snd (getSharersList e)) = card (sharer_set e)"
  using distinct_card [OF distinct_getSharersList] by (simp add: sharer_set_def)

lemma length_filter_upt_nth: "length (filter (\<lambda>j. xs ! j) [0..<length xs]) = length (filter id xs)"
proof -
  have "filter id (map (\<lambda>j. xs ! j) [0..<length xs]) = map (\<lambda>j. xs ! j) (filter (\<lambda>j. xs ! j) [0..<length xs])"
    by (simp add: filter_map comp_def)
  then show ?thesis
    by (metis length_map map_nth)
qed

lemma length_filter_sharers: "length (filter id (m_sharers e)) = card (sharer_set e)"
  by (simp add: length_getSharersList [symmetric] getSharersList_def length_filter_upt_nth)

lemma card_sharer_set_le: "card (sharer_set e) \<le> length (m_sharers e)"
  by (metis length_filter_le length_filter_sharers)

lemma unat_getNumSharers:
  "length (m_sharers e) < 2 ^ 32 \<Longrightarrow> unat (getNumSharers e) = card (sharer_set e)"
  using card_sharer_set_le [of e]
  by (simp add: getNumSharers_def length_filter_sharers unat_of_nat)

lemma getNumSharers_0:
  "length (m_sharers e) < 2 ^ 32 \<Longrightarrow> getNumSharers e = 0 \<longleftrightarrow> sharer_set e = {}"
  by (metis card_eq_0_iff finite_sharer_set unat_eq_0 unat_getNumSharers)

lemma getNumSharers_1:
  "length (m_sharers e) < 2 ^ 32 \<Longrightarrow> getNumSharers e = 1 \<longleftrightarrow> (\<exists>i. sharer_set e = {i})"
  by (metis card_1_singleton_iff unat_1 unat_getNumSharers word_unat_eq_iff One_nat_def)

lemma nth_core_in [simp]: "core_in e i \<Longrightarrow> nth_core (m_sharers e) i = Inr (i \<in> sharer_set e)"
  by (auto simp: nth_core_def sharer_set_iff core_in_def)

lemma sharer_set_core_in: "i \<in> sharer_set e \<Longrightarrow> core_in e i"
  by (simp add: sharer_set_iff)

lemma hasSharer_in [simp]: "core_in e i \<Longrightarrow> hasSharer e i = Inr (i \<in> sharer_set e)"
  by (simp add: hasSharer_def)

lemma core_in_update [simp]:
  "core_in (e\<lparr>m_sharers := xs\<rparr>) i \<longleftrightarrow> 0 \<le> i \<and> nat i < length xs"
  "core_in (e\<lparr>de_scheme := s\<rparr>) i = core_in e i"
  "core_in (e\<lparr>m_dstate := x\<rparr>) i = core_in e i"
  "core_in (e\<lparr>m_owner_id := x'\<rparr>) i = core_in e i"
  "core_in (e\<lparr>m_forwarder_id := x'\<rparr>) i = core_in e i"
  "core_in (e\<lparr>de_address := a\<rparr>) i = core_in e i"
  by (auto simp: core_in_def)

lemma sharer_set_update [simp]:
  "sharer_set (e\<lparr>de_scheme := s\<rparr>) = sharer_set e"
  "sharer_set (e\<lparr>m_dstate := x\<rparr>) = sharer_set e"
  "sharer_set (e\<lparr>m_owner_id := x'\<rparr>) = sharer_set e"
  "sharer_set (e\<lparr>m_forwarder_id := x'\<rparr>) = sharer_set e"
  "sharer_set (e\<lparr>de_address := a\<rparr>) = sharer_set e"
  by (simp_all add: sharer_set_def getSharersList_def)

lemma sharer_set_insert:
  "core_in e i \<Longrightarrow> sharer_set (e\<lparr>m_sharers := (m_sharers e)[nat i := True]\<rparr>) = insert i (sharer_set e)"
  by (auto simp: sharer_set_iff core_in_def nth_list_update nat_eq_iff split: if_splits)

lemma sharer_set_remove:
  "core_in e i \<Longrightarrow> sharer_set (e\<lparr>m_sharers := (m_sharers e)[nat i := False]\<rparr>) = sharer_set e - {i}"
  by (auto simp: sharer_set_iff core_in_def nth_list_update nat_eq_iff split: if_splits)

definition same_entry :: "DirectoryEntry \<Rightarrow> DirectoryEntry \<Rightarrow> bool" where
  \<comment> \<open>the same entry up to its sharers and its scheme's own state\<close>
  "same_entry e e' \<longleftrightarrow> de_address e' = de_address e \<and> m_dstate e' = m_dstate e \<and> m_owner_id e' = m_owner_id e \<and>
     m_forwarder_id e' = m_forwarder_id e \<and> length (m_sharers e') = length (m_sharers e)"

lemma addSharer_spec:
  assumes "core_in e i" and "length (m_sharers e) < 2 ^ 32"
  shows "addSharer e i mx =
      (if i \<in> sharer_set e then Inl AssertFailed
       else case de_scheme e of
         LimitedNoBroadcast _ \<Rightarrow>
           if unat mx \<le> card (sharer_set e) then Inr (False, e)
           else Inr (True, e\<lparr>m_sharers := (m_sharers e)[nat i := True]\<rparr>)
       | Limitless t p \<Rightarrow>
           Inr (True, e\<lparr>m_sharers := (m_sharers e)[nat i := True],
                        de_scheme := Limitless (t \<or> length (m_sharers e) = unat mx) p\<rparr>))"
  using assms
  by (auto simp: addSharer_def limited_addSharer_def limitless_addSharer_def word_le_nat_alt unat_getNumSharers split: entry_scheme.split)

lemma addSharer_correct:
  assumes "addSharer e i mx = Inr (b, e')" and "core_in e i" and "length (m_sharers e) < 2 ^ 32"
  shows "i \<notin> sharer_set e" and "same_entry e e'" and "sharer_set e' = (if b then insert i (sharer_set e) else sharer_set e)"
    and "\<not> b \<Longrightarrow> e' = e \<and> unat mx \<le> card (sharer_set e)"
  using assms by (auto simp: addSharer_spec same_entry_def sharer_set_insert core_in_def
      split: if_splits entry_scheme.splits)

lemma removeSharer_spec:
  "core_in e i \<Longrightarrow> removeSharer e i False =
     (if i \<in> sharer_set e then Inr (e\<lparr>m_sharers := (m_sharers e)[nat i := False]\<rparr>) else Inl AssertFailed)"
  by (simp add: removeSharer_def)

lemma setOwner_spec:
  "core_in e i \<Longrightarrow> setOwner e i =
     (if i = INVALID_CORE_ID \<or> i \<in> sharer_set e then Inr (e\<lparr>m_owner_id := i\<rparr>) else Inl AssertFailed)"
  "setOwner e INVALID_CORE_ID = Inr (e\<lparr>m_owner_id := INVALID_CORE_ID\<rparr>)"
  by (simp_all add: setOwner_def)

lemma getOneSharer_correct:
  assumes "sharer_set e \<noteq> {}" and "length (m_sharers e) < 2 ^ 32"
  shows "\<exists>i e'. getOneSharer e = Inr (i, e') \<and> i \<in> sharer_set e \<and> (\<exists>s. e' = e\<lparr>de_scheme := s\<rparr>)"
proof (cases "de_scheme e")
  case (LimitedNoBroadcast seed)
  define l where "l = snd (getSharersList e)"
  define n where "n = (of_nat (length l) :: u32)"
  have l: "getSharersList e = (False, l)"
    by (simp add: getSharersList_def l_def)
  have len: "length l < 2 ^ 32" "l \<noteq> []"
    using card_sharer_set_le [of e] assms by (auto simp: length_getSharersList sharer_set_def l_def)
  then have n: "unat n = length l" "n \<noteq> 0"
    by (auto simp: n_def unat_of_nat word_unat_eq_iff)
  have lt: "unat (x mod n) < length l" for x
    using n by (metis unat_mod_distrib length_greater_0_conv len(2) mod_less_divisor)
  from LimitedNoBroadcast len(2) n(2) lt show ?thesis
    by (auto simp: getOneSharer_def limited_getOneSharer_def Random_next_def n_def [symmetric] Let_def sharer_set_def l)
next
  case (Limitless t p)
  obtain i where i: "i \<in> sharer_set e"
    using assms(1) by auto
  then have "first_index (\<lambda>j. m_sharers e ! j) (length (m_sharers e)) \<noteq> None"
    by (auto simp: first_index_None sharer_set_iff core_in_def)
  then obtain j where j: "first_index (\<lambda>j. m_sharers e ! j) (length (m_sharers e)) = Some j"
    by auto
  with first_index_SomeD(1,2) [OF j] Limitless show ?thesis
    by (auto simp: getOneSharer_def limitless_getOneSharer_def sharer_set_iff core_in_def intro: exI [of _ "de_scheme e"])
qed

end
