(* ===== verification/DirectoryMap.thy ===== *)
theory DirectoryMap
  imports Directory
begin

section \<open>The directory cache implements a map from addresses to entries\<close>

text \<open>
  Lemmas on \<^verbatim>\<open>dram_directory_cache.cc\<close> as modelled in theory \<open>Directory\<close>: an invariant
  of the table, its heap and the list of replaced entries, the abstract map \<open>dir_map\<close> from addresses to
  entries, and for each operation that it keeps the invariant and what it does to the map.
\<close>

subsection \<open>The directory cache as a map\<close>

text \<open>
  \<open>dir_find\<close> is the abstract view: the entry an address has, in the table or set aside. The
  invariant says that the pointers of the table and of the replaced list are distinct and valid,
  that an entry lies in the set of its address, that no two entries have the same address, that an
  entry without an address is as constructed, and that the set of a replaced address is full.
\<close>

definition entry_addr :: "Directory \<Rightarrow> entry_ptr \<Rightarrow> IntPtr" where
  "entry_addr d p = (case d_heap d p of None \<Rightarrow> INVALID_ADDRESS | Some e \<Rightarrow> de_address e)"

definition new_entry :: "Directory \<Rightarrow> DirectoryEntry" where
  "new_entry d = fst (createDirectoryEntrySized d)"

abbreviation table :: "DramDirectoryCache \<Rightarrow> entry_ptr option list" where
  "table c \<equiv> m_directory_entry_list (m_directory c)"

abbreviation "replaced \<equiv> m_replaced_directory_entry_list"

definition live_list :: "DramDirectoryCache \<Rightarrow> entry_ptr list" where
  "live_list c = map the (filter (\<lambda>x. x \<noteq> None) (table c)) @ replaced c"

definition dir_find :: "DramDirectoryCache \<Rightarrow> IntPtr \<Rightarrow> entry_ptr option" where
  "dir_find c a = find (\<lambda>p. entry_addr (m_directory c) p = a) (live_list c)"

definition set_of :: "DramDirectoryCache \<Rightarrow> IntPtr \<Rightarrow> nat" where
  "set_of c a = unat (ucast (drop_bit (unat (m_log_cache_block_size c)) a) AND (ddc_num_sets c - 1))"

definition ddc_geom :: "DramDirectoryCache \<Rightarrow> bool" where
  "ddc_geom c \<longleftrightarrow> 0 < ddc_associativity c \<and> (\<exists>k<32. unat (ddc_num_sets c) = 2 ^ k) \<and>
     unat (ddc_num_sets c) * unat (ddc_associativity c) \<le> length (table c) \<and>
     length (table c) = unat (m_num_entries (m_directory c)) \<and>
     length (m_replacement_ptrs c) = unat (ddc_num_sets c) \<and> unat (m_log_cache_block_size c) < 64"

definition table_ok :: "DramDirectoryCache \<Rightarrow> bool" where
  "table_ok c \<longleftrightarrow>
     (\<forall>i < length (table c). \<forall>p. table c ! i = Some p \<longrightarrow>
        p \<in> dom (d_heap (m_directory c)) \<and> p \<notin> set (replaced c) \<and>
        (\<forall>j < length (table c). table c ! j = Some p \<longrightarrow> j = i) \<and>
        (if entry_addr (m_directory c) p = INVALID_ADDRESS
         then d_heap (m_directory c) p = Some (new_entry (m_directory c))
         else set_of c (entry_addr (m_directory c) p) = i div unat (ddc_associativity c)))"

definition set_full :: "DramDirectoryCache \<Rightarrow> nat \<Rightarrow> bool" where
  "set_full c s \<longleftrightarrow> (\<forall>w < unat (ddc_associativity c).
     case table c ! (s * unat (ddc_associativity c) + w) of
       None \<Rightarrow> False | Some q \<Rightarrow> entry_addr (m_directory c) q \<noteq> INVALID_ADDRESS)"

definition replaced_ok :: "DramDirectoryCache \<Rightarrow> bool" where
  "replaced_ok c \<longleftrightarrow> distinct (replaced c) \<and>
     (\<forall>p \<in> set (replaced c). p \<in> dom (d_heap (m_directory c)) \<and>
        entry_addr (m_directory c) p \<noteq> INVALID_ADDRESS \<and> set_full c (set_of c (entry_addr (m_directory c) p)))"

definition ddc_wf :: "DramDirectoryCache \<Rightarrow> bool" where
  "ddc_wf c \<longleftrightarrow> ddc_geom c \<and> table_ok c \<and> replaced_ok c \<and>
     (\<forall>p \<in> dom (d_heap (m_directory c)). p < d_next (m_directory c)) \<and>
     (\<forall>p \<in> set (live_list c). \<forall>q \<in> set (live_list c).
        entry_addr (m_directory c) p = entry_addr (m_directory c) q \<longrightarrow>
        entry_addr (m_directory c) p \<noteq> INVALID_ADDRESS \<longrightarrow> p = q)"

lemma set_full_iff:
  "set_full c s \<longleftrightarrow> (\<forall>w < unat (ddc_associativity c). \<exists>q. table c ! (s * unat (ddc_associativity c) + w) = Some q \<and>
     entry_addr (m_directory c) q \<noteq> INVALID_ADDRESS)"
  unfolding set_full_def by (auto split: option.splits)

lemma live_iff:
  "p \<in> set (live_list c) \<longleftrightarrow> (\<exists>i < length (table c). table c ! i = Some p) \<or> p \<in> set (replaced c)"
  by (auto simp: live_list_def in_set_conv_nth image_iff)

lemma ddc_uniq:
  "ddc_wf c \<Longrightarrow> p \<in> set (live_list c) \<Longrightarrow> q \<in> set (live_list c) \<Longrightarrow>
   entry_addr (m_directory c) p = entry_addr (m_directory c) q \<Longrightarrow>
   entry_addr (m_directory c) p \<noteq> INVALID_ADDRESS \<Longrightarrow> p = q"
  unfolding ddc_wf_def by blast

lemma find_SomeD: "find P xs = Some x \<Longrightarrow> x \<in> set xs \<and> P x"
  by (induction xs) (auto split: if_splits)

lemma dir_find_Some:
  assumes "ddc_wf c" and "a \<noteq> INVALID_ADDRESS"
  shows "dir_find c a = Some p \<longleftrightarrow> p \<in> set (live_list c) \<and> entry_addr (m_directory c) p = a"
proof
  assume "dir_find c a = Some p"
  then show "p \<in> set (live_list c) \<and> entry_addr (m_directory c) p = a"
    unfolding dir_find_def by (rule find_SomeD)
next
  assume p: "p \<in> set (live_list c) \<and> entry_addr (m_directory c) p = a"
  then have "dir_find c a \<noteq> None"
    unfolding dir_find_def find_None_iff by blast
  then obtain q where q: "dir_find c a = Some q"
    by blast
  then have "q \<in> set (live_list c) \<and> entry_addr (m_directory c) q = a"
    unfolding dir_find_def by (rule find_SomeD)
  then have "p = q"
    using p assms(2) by (intro ddc_uniq [OF assms(1)]) simp_all
  with q show "dir_find c a = Some p"
    by simp
qed

lemma dir_find_None:
  "dir_find c a = None \<longleftrightarrow> (\<forall>p \<in> set (live_list c). entry_addr (m_directory c) p \<noteq> a)"
  by (auto simp: dir_find_def find_None_iff)

lemma ddc_wf_slot:
  assumes "ddc_wf c" and "i < length (table c)" and "table c ! i = Some p"
  shows "p \<in> dom (d_heap (m_directory c))" and "p \<notin> set (replaced c)" and "p \<in> set (live_list c)"
    and "\<And>j. j < length (table c) \<Longrightarrow> table c ! j = Some p \<Longrightarrow> j = i"
    and "entry_addr (m_directory c) p = INVALID_ADDRESS \<Longrightarrow> d_heap (m_directory c) p = Some (new_entry (m_directory c))"
    and "entry_addr (m_directory c) p \<noteq> INVALID_ADDRESS \<Longrightarrow>
           set_of c (entry_addr (m_directory c) p) = i div unat (ddc_associativity c)"
proof -
  have t: "table_ok c"
    using assms(1) by (simp add: ddc_wf_def)
  note t = t [unfolded table_ok_def, rule_format, OF assms(2,3)]
  show "p \<in> dom (d_heap (m_directory c))"
    by (rule t [THEN conjunct1])
  show "p \<notin> set (replaced c)"
    by (rule t [THEN conjunct2, THEN conjunct1])
  show "p \<in> set (live_list c)"
    using assms(2,3) live_iff by blast
  show "j = i" if "j < length (table c)" "table c ! j = Some p" for j
    by (rule t [THEN conjunct2, THEN conjunct2, THEN conjunct1, rule_format, OF that])
  note t = t [THEN conjunct2, THEN conjunct2, THEN conjunct2]
  show "d_heap (m_directory c) p = Some (new_entry (m_directory c))"
    if "entry_addr (m_directory c) p = INVALID_ADDRESS"
    using t unfolding if_P [OF that] .
  show "set_of c (entry_addr (m_directory c) p) = i div unat (ddc_associativity c)"
    if "entry_addr (m_directory c) p \<noteq> INVALID_ADDRESS"
    using t unfolding if_not_P [OF that] .
qed

lemma ddc_wf_replaced:
  assumes "ddc_wf c" and "p \<in> set (replaced c)"
  shows "p \<in> dom (d_heap (m_directory c))" and "entry_addr (m_directory c) p \<noteq> INVALID_ADDRESS"
    and "set_full c (set_of c (entry_addr (m_directory c) p))" and "p \<in> set (live_list c)"
  using assms by (auto simp: ddc_wf_def replaced_ok_def live_iff)

lemma live_in_heap: "ddc_wf c \<Longrightarrow> p \<in> set (live_list c) \<Longrightarrow> \<exists>e. d_heap (m_directory c) p = Some e"
  using ddc_wf_slot(1) ddc_wf_replaced(1) unfolding live_iff by blast

lemma ddc_geomD:
  assumes "ddc_geom c"
  shows "0 < unat (ddc_associativity c)" and "set_of c a < unat (ddc_num_sets c)"
    and "dir_splitAddress c a = Inr (of_nat (set_of c a))"
proof -
  show "0 < unat (ddc_associativity c)"
    using assms by (simp add: ddc_geom_def word_less_nat_alt)
  obtain k where k: "k < 32" "unat (ddc_num_sets c) = 2 ^ k"
    using assms by (auto simp: ddc_geom_def)
  then have "ddc_num_sets c - 1 = mask k"
    by (metis mask_eq_exp_minus_1 of_nat_numeral of_nat_power of_nat_unat ucast_id)
  then have "set_of c a \<le> 2 ^ k - 1"
    using unat_mask [of k, where 'a=32] k(1) word_and_le1 [of _ "mask k :: u32"]
    unfolding set_of_def word_le_nat_alt by simp
  moreover have "0 < (2 :: nat) ^ k"
    by simp
  ultimately show "set_of c a < unat (ddc_num_sets c)"
    unfolding k(2) by linarith
  show "dir_splitAddress c a = Inr (of_nat (set_of c a))"
    using assms by (simp add: dir_splitAddress_def ddc_geom_def set_of_def Let_def)
qed

text \<open>Filling slots with new entries, which every scan of a set may do, leaves the map alone.\<close>

definition same_consts :: "DramDirectoryCache \<Rightarrow> DramDirectoryCache \<Rightarrow> bool" where
  "same_consts c c' \<longleftrightarrow> ddc_associativity c' = ddc_associativity c \<and> ddc_num_sets c' = ddc_num_sets c \<and>
     m_log_cache_block_size c' = m_log_cache_block_size c \<and> length (table c') = length (table c) \<and>
     m_num_entries (m_directory c') = m_num_entries (m_directory c) \<and>
     length (m_replacement_ptrs c') = length (m_replacement_ptrs c) \<and>
     new_entry (m_directory c') = new_entry (m_directory c)"

definition filled :: "DramDirectoryCache \<Rightarrow> DramDirectoryCache \<Rightarrow> bool" where
  "filled c c' \<longleftrightarrow> same_consts c c' \<and> replaced c' = replaced c \<and>
     m_replacement_ptrs c' = m_replacement_ptrs c \<and>
     (\<forall>i < length (table c). \<forall>p. table c ! i = Some p \<longrightarrow> table c' ! i = Some p) \<and>
     (\<forall>i < length (table c). \<forall>p. table c' ! i = Some p \<longrightarrow> table c ! i = Some p \<or>
        d_heap (m_directory c') p = Some (new_entry (m_directory c))) \<and>
     (\<forall>p \<in> dom (d_heap (m_directory c)). d_heap (m_directory c') p = d_heap (m_directory c) p) \<and>
     (\<forall>p e. d_heap (m_directory c') p = Some e \<longrightarrow>
        d_heap (m_directory c) p = Some e \<or> e = new_entry (m_directory c))"

lemma same_consts_refl: "same_consts c c"
  by (simp add: same_consts_def)

lemma same_consts_trans: "same_consts a b \<Longrightarrow> same_consts b c \<Longrightarrow> same_consts a c"
  by (simp add: same_consts_def)

lemma same_consts_set_of: "same_consts c c' \<Longrightarrow> set_of c' = set_of c"
  by (simp add: same_consts_def set_of_def fun_eq_iff)

lemma same_consts_geom: "same_consts c c' \<Longrightarrow> ddc_geom c' = ddc_geom c"
  by (simp add: same_consts_def ddc_geom_def)

lemma filled_refl: "filled c c"
  by (simp add: filled_def same_consts_refl)

lemma entry_addr_same: "d_heap d' p = d_heap d p \<Longrightarrow> entry_addr d' p = entry_addr d p"
  by (simp add: entry_addr_def)

lemma filled_trans:
  assumes "filled a b" and "filled b c"
  shows "filled a c"
proof -
  note ab = assms(1) [unfolded filled_def] and bc = assms(2) [unfolded filled_def]
  have len: "length (table b) = length (table a)" and new: "new_entry (m_directory b) = new_entry (m_directory a)"
    using ab by (simp_all add: same_consts_def)
  show ?thesis
    unfolding filled_def
  proof (intro conjI allI ballI impI)
    show "same_consts a c"
      using ab bc same_consts_trans by blast
    show "table c ! i = Some p" if "i < length (table a)" "table a ! i = Some p" for i p
      using ab bc that len by simp
    show "d_heap (m_directory c) p = d_heap (m_directory a) p" if p: "p \<in> dom (d_heap (m_directory a))" for p
    proof -
      have "d_heap (m_directory b) p = d_heap (m_directory a) p"
        using ab p by blast
      then show ?thesis
        using bc p by (metis domIff)
    qed
    show "table a ! i = Some p \<or> d_heap (m_directory c) p = Some (new_entry (m_directory a))"
      if i: "i < length (table a)" "table c ! i = Some p" for i p
    proof -
      have "table b ! i = Some p \<or> d_heap (m_directory c) p = Some (new_entry (m_directory a))"
        using bc i len new by metis
      moreover have "table a ! i = Some p \<or> d_heap (m_directory b) p = Some (new_entry (m_directory a))"
        if "table b ! i = Some p"
        using ab i that by blast
      moreover have "d_heap (m_directory c) p = d_heap (m_directory b) p" if "d_heap (m_directory b) p = Some e" for e
        using bc that by blast
      ultimately show ?thesis
        by metis
    qed
    show "d_heap (m_directory a) p = Some e \<or> e = new_entry (m_directory a)"
      if "d_heap (m_directory c) p = Some e" for p e
      using ab bc that new by metis
    show "replaced c = replaced a" "m_replacement_ptrs c = m_replacement_ptrs a"
      using ab bc by simp_all
  qed
qed

lemma new_entry_fields [simp]:
  "de_address (new_entry d) = INVALID_ADDRESS" "m_dstate (new_entry d) = D_UNCACHED"
  "m_owner_id (new_entry d) = INVALID_CORE_ID"
  "m_sharers (new_entry d) = replicate (sharers_size (m_max_num_sharers d)) False"
  by (simp_all add: new_entry_def createDirectoryEntrySized_def Let_def split: DirectoryType.split)

lemma createDirectoryEntry_eq:
  "createDirectoryEntry d =
     (d_next d, d\<lparr>m_use_max_hw_sharers := (if m_directory_type d = FULL_MAP then m_max_num_sharers d else m_use_max_hw_sharers d),
                   d_heap := (d_heap d)(d_next d \<mapsto> new_entry d), d_next := Suc (d_next d)\<rparr>)"
  by (simp add: createDirectoryEntry_def createDirectoryEntrySized_def new_entry_def Let_def split: DirectoryType.split)

lemma new_entry_update [simp]:
  "new_entry (d\<lparr>m_use_max_hw_sharers := x\<rparr>) = new_entry d" "new_entry (d\<lparr>d_heap := h\<rparr>) = new_entry d"
  "new_entry (d\<lparr>d_next := n\<rparr>) = new_entry d" "new_entry (d\<lparr>m_directory_entry_list := t\<rparr>) = new_entry d"
  "new_entry (d\<lparr>m_num_entries_allocated := y\<rparr>) = new_entry d"
  by (simp_all add: new_entry_def createDirectoryEntrySized_def Let_def split: DirectoryType.split)

lemma ddc_wf_geom: "ddc_wf c \<Longrightarrow> ddc_geom c"
  by (simp add: ddc_wf_def)

lemma ddc_wf_next: "ddc_wf c \<Longrightarrow> p \<in> dom (d_heap (m_directory c)) \<Longrightarrow> p < d_next (m_directory c)"
  unfolding ddc_wf_def by blast

lemma if_fun_I: "(b \<Longrightarrow> P) \<Longrightarrow> (\<not> b \<Longrightarrow> Q) \<Longrightarrow> if b then P else Q"
  by simp

lemma ddc_wfI:
  assumes "ddc_geom c"
    and "\<And>i p. i < length (table c) \<Longrightarrow> table c ! i = Some p \<Longrightarrow>
        p \<in> dom (d_heap (m_directory c)) \<and> p \<notin> set (replaced c) \<and>
        (\<forall>j < length (table c). table c ! j = Some p \<longrightarrow> j = i)"
    and "\<And>i p. i < length (table c) \<Longrightarrow> table c ! i = Some p \<Longrightarrow> entry_addr (m_directory c) p = INVALID_ADDRESS \<Longrightarrow>
        d_heap (m_directory c) p = Some (new_entry (m_directory c))"
    and "\<And>i p. i < length (table c) \<Longrightarrow> table c ! i = Some p \<Longrightarrow> entry_addr (m_directory c) p \<noteq> INVALID_ADDRESS \<Longrightarrow>
        set_of c (entry_addr (m_directory c) p) = i div unat (ddc_associativity c)"
    and "distinct (replaced c)"
    and "\<And>p. p \<in> set (replaced c) \<Longrightarrow> p \<in> dom (d_heap (m_directory c)) \<and> entry_addr (m_directory c) p \<noteq> INVALID_ADDRESS"
    and "\<And>p. p \<in> set (replaced c) \<Longrightarrow> set_full c (set_of c (entry_addr (m_directory c) p))"
    and "\<And>p. p \<in> dom (d_heap (m_directory c)) \<Longrightarrow> p < d_next (m_directory c)"
    and "\<And>p q. p \<in> set (live_list c) \<Longrightarrow> q \<in> set (live_list c) \<Longrightarrow>
        entry_addr (m_directory c) p = entry_addr (m_directory c) q \<Longrightarrow>
        entry_addr (m_directory c) p \<noteq> INVALID_ADDRESS \<Longrightarrow> p = q"
  shows "ddc_wf c"
proof -
  have "table_ok c"
    unfolding table_ok_def
  proof (intro allI impI)
    fix i p assume i: "i < length (table c)" "table c ! i = Some p"
    have "if entry_addr (m_directory c) p = INVALID_ADDRESS
         then d_heap (m_directory c) p = Some (new_entry (m_directory c))
         else set_of c (entry_addr (m_directory c) p) = i div unat (ddc_associativity c)"
      using assms(3,4) [OF i] by (rule if_fun_I)
    with assms(2) [OF i]
    show "p \<in> dom (d_heap (m_directory c)) \<and> p \<notin> set (replaced c) \<and>
        (\<forall>j < length (table c). table c ! j = Some p \<longrightarrow> j = i) \<and>
        (if entry_addr (m_directory c) p = INVALID_ADDRESS
         then d_heap (m_directory c) p = Some (new_entry (m_directory c))
         else set_of c (entry_addr (m_directory c) p) = i div unat (ddc_associativity c))"
      by (elim conjE) (intro conjI)
  qed
  moreover have "replaced_ok c"
    unfolding replaced_ok_def using assms(5-7) by (intro conjI ballI) simp_all
  ultimately show ?thesis
    unfolding ddc_wf_def using assms(1,8,9) by (intro conjI ballI impI)
qed

lemma slot_less:
  assumes "ddc_geom c" and "s < unat (ddc_num_sets c)" and "w < unat (ddc_associativity c)"
  shows "s * unat (ddc_associativity c) + w < length (table c)"
proof -
  have "Suc s * unat (ddc_associativity c) \<le> unat (ddc_num_sets c) * unat (ddc_associativity c)"
    using assms(2) by (intro mult_le_mono1) simp
  also have "\<dots> \<le> length (table c)"
    using assms(1) by (simp add: ddc_geom_def)
  finally show ?thesis
    using assms(3) by simp
qed

lemma put_entry_wf:
  assumes wf: "ddc_wf c" and sc: "same_consts c c'" and k: "k < length (table c)"
    and h: "d_heap (m_directory c') = (d_heap (m_directory c))(d_next (m_directory c) \<mapsto> e)"
    and nx: "d_next (m_directory c') = Suc (d_next (m_directory c))"
    and t: "table c' = (table c)[k := Some (d_next (m_directory c))]"
    and r: "replaced c' = (case table c ! k of None \<Rightarrow> replaced c | Some p \<Rightarrow> replaced c @ [p])"
    and inv: "de_address e = INVALID_ADDRESS \<Longrightarrow> e = new_entry (m_directory c) \<and> table c ! k = None"
    and val: "de_address e \<noteq> INVALID_ADDRESS \<Longrightarrow>
       set_of c (de_address e) = k div unat (ddc_associativity c) \<and> dir_find c (de_address e) = None"
    and full: "\<And>p. table c ! k = Some p \<Longrightarrow> set_full c (k div unat (ddc_associativity c)) \<and>
       entry_addr (m_directory c) p \<noteq> INVALID_ADDRESS"
  shows "ddc_wf c'"
proof -
  let ?q = "d_next (m_directory c)"
  have q: "?q \<notin> dom (d_heap (m_directory c))"
    using ddc_wf_next [OF wf] by blast
  have len: "length (table c') = length (table c)" and as: "ddc_associativity c' = ddc_associativity c"
    and ne: "new_entry (m_directory c') = new_entry (m_directory c)" and so: "set_of c' = set_of c"
    using sc same_consts_set_of [OF sc] by (simp_all add: same_consts_def)
  have aq: "entry_addr (m_directory c') ?q = de_address e"
    and ao: "p \<noteq> ?q \<Longrightarrow> entry_addr (m_directory c') p = entry_addr (m_directory c) p" for p
    by (simp_all add: entry_addr_def h)
  have ho: "p \<noteq> ?q \<Longrightarrow> d_heap (m_directory c') p = d_heap (m_directory c) p" for p
    by (simp add: h)
  have lq: "p \<noteq> ?q" if "p \<in> set (live_list c)" for p
    using live_in_heap [OF wf that] q by blast
  have slot: "i = k \<and> p = ?q \<or> i \<noteq> k \<and> table c ! i = Some p \<and> p \<in> set (live_list c) \<and> p \<noteq> ?q"
    if i: "i < length (table c)" "table c' ! i = Some p" for i p
  proof (cases "i = k")
    case False
    then have "table c ! i = Some p"
      using i by (simp add: t)
    with False i(1) ddc_wf_slot(3) [OF wf] lq show ?thesis
      by blast
  qed (use i k t in simp)
  have rep: "p \<in> set (replaced c) \<or> table c ! k = Some p" "p \<in> set (live_list c)" if "p \<in> set (replaced c')" for p
    using that ddc_wf_slot(3) [OF wf k] ddc_wf_replaced(4) [OF wf] by (auto simp: r split: option.splits)
  have live: "p = ?q \<or> p \<in> set (live_list c)" if "p \<in> set (live_list c')" for p
    using that slot rep(2) unfolding live_iff [of p c'] len by blast
  have full': "set_full c' s" if s: "set_full c s" "s < unat (ddc_num_sets c)" for s
    unfolding set_full_iff as
  proof (intro allI impI)
    fix w assume w: "w < unat (ddc_associativity c)"
    define i where "i = s * unat (ddc_associativity c) + w"
    have i: "i < length (table c)"
      unfolding i_def by (rule slot_less [OF ddc_wf_geom [OF wf] s(2) w])
    obtain p where p: "table c ! i = Some p" "entry_addr (m_directory c) p \<noteq> INVALID_ADDRESS"
      using s(1) w unfolding set_full_iff i_def by blast
    show "\<exists>q. table c' ! i = Some q \<and> entry_addr (m_directory c') q \<noteq> INVALID_ADDRESS"
    proof (cases "i = k")
      case True
      then have "entry_addr (m_directory c') ?q \<noteq> INVALID_ADDRESS"
        using inv p(1) unfolding aq by fastforce
      with True k show ?thesis
        by (simp add: t)
    next
      case False
      with p i ao [OF lq, OF ddc_wf_slot(3) [OF wf i p(1)]] show ?thesis
        by (simp add: t)
    qed
  qed
  show "ddc_wf c'"
  proof (rule ddc_wfI)
    show "ddc_geom c'"
      using ddc_wf_geom [OF wf] same_consts_geom [OF sc] by simp
  next
    fix i p assume i: "i < length (table c')" "table c' ! i = Some p"
    note i' = i [unfolded len]
    have kr: "?q \<notin> set (replaced c')"
      using rep(2) lq by blast
    have "p \<notin> set (replaced c')" if "i \<noteq> k" "table c ! i = Some p"
      using rep(1) [of p] ddc_wf_slot(2,4) [OF wf i'(1) that(2)] k that(1) by blast
    then have nr: "p \<notin> set (replaced c')"
      using slot [OF i'] kr by blast
    have dom: "p \<in> dom (d_heap (m_directory c'))"
      using slot [OF i'] live_in_heap [OF wf, of p] by (auto simp: h)
    have "j = i" if j: "j < length (table c)" "table c' ! j = Some p" for j
      using slot [OF i'] slot [OF j] ddc_wf_slot(4) [OF wf i'(1), of p j] j(1) by blast
    with nr dom show "p \<in> dom (d_heap (m_directory c')) \<and> p \<notin> set (replaced c') \<and>
        (\<forall>j < length (table c'). table c' ! j = Some p \<longrightarrow> j = i)"
      unfolding len by blast
    show "d_heap (m_directory c') p = Some (new_entry (m_directory c'))" if "entry_addr (m_directory c') p = INVALID_ADDRESS"
      using slot [OF i'] that inv aq ao ho ddc_wf_slot(5) [OF wf i'(1), of p] unfolding ne
      by (metis fun_upd_same h)
    show "set_of c' (entry_addr (m_directory c') p) = i div unat (ddc_associativity c')" if "entry_addr (m_directory c') p \<noteq> INVALID_ADDRESS"
      using slot [OF i'] that val aq ao ddc_wf_slot(6) [OF wf i'(1), of p] unfolding so as
      by metis
  next
    show "distinct (replaced c')"
      using wf ddc_wf_slot(2) [OF wf k] by (auto simp: r ddc_wf_def replaced_ok_def split: option.split)
  next
    fix p assume p: "p \<in> set (replaced c')"
    have pq: "p \<noteq> ?q"
      using lq [OF rep(2) [OF p]] .
    have *: "entry_addr (m_directory c) p \<noteq> INVALID_ADDRESS \<and> set_full c (set_of c (entry_addr (m_directory c) p))"
      using rep(1) [OF p] ddc_wf_replaced(2,3) [OF wf, of p] full [of p] ddc_wf_slot(6) [OF wf k, of p] by metis
    then show "p \<in> dom (d_heap (m_directory c')) \<and> entry_addr (m_directory c') p \<noteq> INVALID_ADDRESS"
      using live_in_heap [OF wf rep(2) [OF p]] ao [OF pq] ho [OF pq] by auto
    show "set_full c' (set_of c' (entry_addr (m_directory c') p))"
      unfolding so ao [OF pq] using * ddc_geomD(2) [OF ddc_wf_geom [OF wf]] by (intro full') blast+
  next
    fix p assume "p \<in> dom (d_heap (m_directory c'))"
    then show "p < d_next (m_directory c')"
      using ddc_wf_next [OF wf, of p] by (auto simp: h nx less_Suc_eq split: if_splits)
  next
    fix p p' assume p: "p \<in> set (live_list c')" "p' \<in> set (live_list c')"
        "entry_addr (m_directory c') p = entry_addr (m_directory c') p'"
        "entry_addr (m_directory c') p \<noteq> INVALID_ADDRESS"
    have n: "False" if "x \<in> set (live_list c)" "entry_addr (m_directory c) x = de_address e" "de_address e \<noteq> INVALID_ADDRESS" for x
      using val [OF that(3)] that(1,2) unfolding dir_find_None by blast
    show "p = p'"
      using live [OF p(1)] live [OF p(2)] p(3,4) aq ao lq n ddc_uniq [OF wf, of p p'] by metis
  qed
qed

lemma entry_at_correct:
  assumes wf: "ddc_wf c" and n: "unat n < length (table c)"
  shows "\<exists>p c'. entry_at c n = Inr (p, c') \<and> ddc_wf c' \<and> filled c c' \<and> table c' ! unat n = Some p"
proof -
  have n': "n < m_num_entries (m_directory c)"
    using n ddc_wf_geom [OF wf] by (simp add: ddc_geom_def word_less_nat_alt)
  show ?thesis
  proof (cases "table c ! unat n")
    case (Some p)
    with n n' wf show ?thesis
      by (simp add: entry_at_def dir_getDirectoryEntry_def filled_refl)
  next
    case None
    let ?d = "m_directory c" and ?q = "d_next (m_directory c)"
    define c' where "c' = c\<lparr>m_directory := ?d\<lparr>m_use_max_hw_sharers := (if m_directory_type ?d = FULL_MAP then m_max_num_sharers ?d else m_use_max_hw_sharers ?d),
       d_heap := (d_heap ?d)(?q \<mapsto> new_entry ?d), d_next := Suc ?q,
       m_directory_entry_list := (table c)[unat n := Some ?q], m_num_entries_allocated := m_num_entries_allocated ?d + 1\<rparr>\<rparr>"
    have eq: "entry_at c n = Inr (?q, c')"
      using None n n' by (simp add: entry_at_def dir_getDirectoryEntry_def createDirectoryEntry_eq c'_def)
    have h: "d_heap (m_directory c') = (d_heap ?d)(?q \<mapsto> new_entry ?d)" and t: "table c' = (table c)[unat n := Some ?q]"
      and sc: "same_consts c c'"
      by (simp_all add: c'_def same_consts_def)
    have wf': "ddc_wf c'"
      by (rule put_entry_wf [OF wf sc n h _ t]) (simp_all add: None c'_def)
    have q: "?q \<notin> dom (d_heap ?d)"
      using ddc_wf_next [OF wf] by blast
    have "filled c c'"
      unfolding filled_def using sc q n
      by (auto simp: h t None nth_list_update c'_def split: if_splits)
    with eq wf' n t show ?thesis
      by auto
  qed
qed

lemma upd_entry_fields [simp]:
  "d_heap (upd_entry d p e) = (d_heap d)(p \<mapsto> e)"
  "m_directory_entry_list (upd_entry d p e) = m_directory_entry_list d"
  "d_next (upd_entry d p e) = d_next d" "m_num_entries (upd_entry d p e) = m_num_entries d"
  "new_entry (upd_entry d p e) = new_entry d"
  "m_use_max_hw_sharers (upd_entry d p e) = m_use_max_hw_sharers d"
  "m_max_num_sharers (upd_entry d p e) = m_max_num_sharers d"
  by (simp_all add: upd_entry_def)

lemma upd_entry_wf:
  assumes wf: "ddc_wf c" and p: "p \<in> set (live_list c)" and hp: "d_heap (m_directory c) p = Some e"
    and a: "de_address e' \<noteq> INVALID_ADDRESS"
    and or: "de_address e' = de_address e \<or> dir_find c (de_address e') = None \<and>
       (\<exists>i < length (table c). table c ! i = Some p \<and> set_of c (de_address e') = i div unat (ddc_associativity c))"
  shows "ddc_wf (c\<lparr>m_directory := upd_entry (m_directory c) p e'\<rparr>)" (is "ddc_wf ?c")
proof -
  have h: "d_heap (m_directory ?c) = (d_heap (m_directory c))(p \<mapsto> e')" and t: "table ?c = table c"
    and ne: "new_entry (m_directory ?c) = new_entry (m_directory c)" and so: "set_of ?c = set_of c"
    by (simp_all add: upd_entry_def set_of_def fun_eq_iff)
  have ap: "entry_addr (m_directory ?c) p = de_address e'"
    and ao: "x \<noteq> p \<Longrightarrow> entry_addr (m_directory ?c) x = entry_addr (m_directory c) x" for x
    by (simp_all add: entry_addr_def h)
  have ae: "entry_addr (m_directory c) p = de_address e"
    by (simp add: entry_addr_def hp)
  have live: "set (live_list ?c) = set (live_list c)"
    by (simp add: live_list_def t)
  have keep: "entry_addr (m_directory ?c) x \<noteq> INVALID_ADDRESS" if "entry_addr (m_directory c) x \<noteq> INVALID_ADDRESS" for x
    using that a ap ao by metis
  have full: "set_full ?c s" if "set_full c s" for s
    using that keep unfolding set_full_iff t by fastforce
  have rep: "entry_addr (m_directory ?c) x = entry_addr (m_directory c) x" if "x \<in> set (replaced c)" for x
    using or ao ap ae ddc_wf_slot(2) [OF wf, of _ p] that by metis
  show ?thesis
  proof (rule ddc_wfI)
    show "ddc_geom ?c"
      using ddc_wf_geom [OF wf] by (simp add: ddc_geom_def upd_entry_def)
  next
    fix i x assume i: "i < length (table ?c)" "table ?c ! i = Some x"
    note i' = i [unfolded t]
    show "x \<in> dom (d_heap (m_directory ?c)) \<and> x \<notin> set (replaced ?c) \<and>
        (\<forall>j < length (table ?c). table ?c ! j = Some x \<longrightarrow> j = i)"
      using ddc_wf_slot(1,2,4) [OF wf i'] by (auto simp: t h)
    show "d_heap (m_directory ?c) x = Some (new_entry (m_directory ?c))" if "entry_addr (m_directory ?c) x = INVALID_ADDRESS"
      using that a ap ao ddc_wf_slot(5) [OF wf i'] unfolding ne h by (metis fun_upd_other)
    show "set_of ?c (entry_addr (m_directory ?c) x) = i div unat (ddc_associativity ?c)" if "entry_addr (m_directory ?c) x \<noteq> INVALID_ADDRESS"
    proof (cases "x = p")
      case True
      show ?thesis
        using or
      proof
        assume "de_address e' = de_address e"
        then show ?thesis
          using ddc_wf_slot(6) [OF wf i'] True a ap ae unfolding so by simp
      next
        assume "dir_find c (de_address e') = None \<and>
          (\<exists>i < length (table c). table c ! i = Some p \<and> set_of c (de_address e') = i div unat (ddc_associativity c))"
        then show ?thesis
          using ddc_wf_slot(4) [OF wf i'] True ap unfolding so by auto
      qed
    next
      case False
      then show ?thesis
        using ddc_wf_slot(6) [OF wf i'] that ao unfolding so by simp
    qed
  next
    show "distinct (replaced ?c)"
      using wf by (simp add: ddc_wf_def replaced_ok_def)
  next
    fix x assume "x \<in> set (replaced ?c)"
    then have x: "x \<in> set (replaced c)" by simp
    show "x \<in> dom (d_heap (m_directory ?c)) \<and> entry_addr (m_directory ?c) x \<noteq> INVALID_ADDRESS"
      using ddc_wf_replaced(1,2) [OF wf x] rep [OF x] by (auto simp: h)
    show "set_full ?c (set_of ?c (entry_addr (m_directory ?c) x))"
      unfolding so rep [OF x] using ddc_wf_replaced(3) [OF wf x] by (rule full)
  next
    fix x assume "x \<in> dom (d_heap (m_directory ?c))"
    then have "x \<in> dom (d_heap (m_directory c))"
      using hp by (auto simp: h split: if_splits)
    then show "x < d_next (m_directory ?c)"
      using ddc_wf_next [OF wf] by (simp add: upd_entry_def)
  next
    fix x y assume xy: "x \<in> set (live_list ?c)" "y \<in> set (live_list ?c)"
        "entry_addr (m_directory ?c) x = entry_addr (m_directory ?c) y"
        "entry_addr (m_directory ?c) x \<noteq> INVALID_ADDRESS"
    have n: "z = p" if z: "z \<in> set (live_list c)" "entry_addr (m_directory ?c) z = de_address e'" for z
      using or
    proof
      assume *: "de_address e' = de_address e"
      show "z = p"
        using ddc_uniq [OF wf z(1) p] z(2) * a ae ao by metis
    next
      assume *: "dir_find c (de_address e') = None \<and>
          (\<exists>i < length (table c). table c ! i = Some p \<and> set_of c (de_address e') = i div unat (ddc_associativity c))"
      then have "\<forall>x \<in> set (live_list c). entry_addr (m_directory c) x \<noteq> de_address e'"
        unfolding dir_find_None by blast
      then show "z = p"
        using z ao by metis
    qed
    show "x = y"
      using xy(1,2) [unfolded live] xy(3,4) n ap ao ddc_uniq [OF wf, of x y] by metis
  qed
qed

lemma filled_live:
  assumes "filled c c'" and "ddc_wf c" and "ddc_wf c'" and "a \<noteq> INVALID_ADDRESS"
  shows "p \<in> set (live_list c') \<and> entry_addr (m_directory c') p = a \<longleftrightarrow>
         p \<in> set (live_list c) \<and> entry_addr (m_directory c) p = a"
proof -
  note f = assms(1) [unfolded filled_def]
  have len: "length (table c') = length (table c)"
    using f by (simp add: same_consts_def)
  have same: "entry_addr (m_directory c') p = entry_addr (m_directory c) p" if "p \<in> set (live_list c)"
    using live_in_heap [OF assms(2) that] f by (intro entry_addr_same) blast
  have sub: "p \<in> set (live_list c')" if "p \<in> set (live_list c)"
    using that f unfolding live_iff len by metis
  have "p \<in> set (live_list c)" if p: "p \<in> set (live_list c')" "entry_addr (m_directory c') p = a"
  proof -
    have "d_heap (m_directory c') p \<noteq> Some (new_entry (m_directory c))"
      using p(2) assms(4) by (auto simp: entry_addr_def)
    then show ?thesis
      using p(1) f unfolding live_iff len by metis
  qed
  with same sub show ?thesis
    by metis
qed

lemma filled_live_sub:
  assumes "filled c c'"
  shows "set (live_list c) \<subseteq> set (live_list c')"
proof
  fix p
  assume "p \<in> set (live_list c)"
  moreover have "length (table c') = length (table c)"
    using assms by (simp add: filled_def same_consts_def)
  ultimately show "p \<in> set (live_list c')"
    using assms unfolding filled_def live_iff by metis
qed

lemma dir_find_keep:
  assumes "ddc_wf c" and "ddc_wf c'" and "a \<noteq> INVALID_ADDRESS" and "dir_find c a = Some p"
    and "p \<in> set (live_list c')" and "d_heap (m_directory c') p = d_heap (m_directory c) p"
  shows "dir_find c' a = Some p"
  using assms(4,5) entry_addr_same [OF assms(6)] unfolding dir_find_Some [OF assms(1,3)] dir_find_Some [OF assms(2,3)] by simp

lemma dir_find_cong:
  assumes "ddc_wf c" and "ddc_wf c'" and "a \<noteq> INVALID_ADDRESS"
    and "\<And>p. p \<in> set (live_list c') \<and> entry_addr (m_directory c') p = a \<longleftrightarrow>
              p \<in> set (live_list c) \<and> entry_addr (m_directory c) p = a"
  shows "dir_find c' a = dir_find c a"
proof -
  have "dir_find c' a = Some p \<longleftrightarrow> dir_find c a = Some p" for p
    unfolding dir_find_Some [OF assms(1,3)] dir_find_Some [OF assms(2,3)] by (rule assms(4))
  then show ?thesis
    by (metis option.exhaust)
qed

lemma filled_dir_find:
  "filled c c' \<Longrightarrow> ddc_wf c \<Longrightarrow> ddc_wf c' \<Longrightarrow> a \<noteq> INVALID_ADDRESS \<Longrightarrow> dir_find c' a = dir_find c a"
  by (rule dir_find_cong [OF _ _ _ filled_live])

lemma slot_index:
  assumes "ddc_geom c" and "s < unat (ddc_num_sets c)" and "w < unat (ddc_associativity c)"
  shows "unat (of_nat s * ddc_associativity c + of_nat w) = s * unat (ddc_associativity c) + w"
proof -
  have "s * unat (ddc_associativity c) + w < 2 ^ 32"
    using slot_less [OF assms] assms(1) unat_lt_two_power [of "m_num_entries (m_directory c)"]
    by (simp add: ddc_geom_def)
  moreover have "of_nat s * ddc_associativity c + of_nat w = of_nat (s * unat (ddc_associativity c) + w)"
    by simp
  moreover have "unat (of_nat m :: u32) = m" if "m < 2 ^ 32" for m
    using that by (simp add: unat_of_nat)
  ultimately show ?thesis
    by metis
qed

lemma find_in_set_correct:
  assumes "ddc_wf c" and "s < unat (ddc_num_sets c)" and "i + n = unat (ddc_associativity c)"
  shows "\<exists>r j c'. find_in_set P (of_nat s) i n c = Inr (r, j, c') \<and> ddc_wf c' \<and> filled c c' \<and>
     (case r of
        None \<Rightarrow> \<forall>w. i \<le> w \<and> w < i + n \<longrightarrow> (\<exists>q e. table c' ! (s * unat (ddc_associativity c) + w) = Some q \<and>
          d_heap (m_directory c') q = Some e \<and> \<not> P e)
      | Some p \<Rightarrow> j < i + n \<and> table c' ! (s * unat (ddc_associativity c) + j) = Some p \<and>
          (\<exists>e. d_heap (m_directory c') p = Some e \<and> P e))"
  using assms
proof (induction n arbitrary: i c)
  case 0
  then show ?case
    by (auto simp: filled_refl)
next
  case (Suc n)
  let ?k = "s * unat (ddc_associativity c) + i"
  have i: "i < unat (ddc_associativity c)"
    using Suc.prems(3) by simp
  note geom = ddc_wf_geom [OF Suc.prems(1)]
  have k: "unat (of_nat s * ddc_associativity c + of_nat i) = ?k" "?k < length (table c)"
    using slot_index [OF geom Suc.prems(2) i] slot_less [OF geom Suc.prems(2) i] by simp_all
  obtain p c1 where c1: "entry_at c (of_nat s * ddc_associativity c + of_nat i) = Inr (p, c1)" "ddc_wf c1" "filled c c1"
      "table c1 ! ?k = Some p"
    using entry_at_correct [OF Suc.prems(1), of "of_nat s * ddc_associativity c + of_nat i"] k by auto
  have sc: "same_consts c c1"
    using c1(3) by (simp add: filled_def)
  then have k1: "?k < length (table c1)" and as: "ddc_associativity c1 = ddc_associativity c" and ns: "ddc_num_sets c1 = ddc_num_sets c"
    using k(2) by (simp_all add: same_consts_def)
  obtain e where e: "d_heap (m_directory c1) p = Some e"
    using ddc_wf_slot(1) [OF c1(2) k1 c1(4)] by blast
  show ?case
  proof (cases "P e")
    case True
    with c1 e show ?thesis
      by (simp add: deref_entry_def)
  next
    case False
    obtain r j c' where r: "find_in_set P (of_nat s) (Suc i) n c1 = Inr (r, j, c')" "ddc_wf c'" "filled c1 c'"
      "case r of
        None \<Rightarrow> \<forall>w. Suc i \<le> w \<and> w < Suc i + n \<longrightarrow> (\<exists>q e. table c' ! (s * unat (ddc_associativity c1) + w) = Some q \<and>
          d_heap (m_directory c') q = Some e \<and> \<not> P e)
      | Some p \<Rightarrow> j < Suc i + n \<and> table c' ! (s * unat (ddc_associativity c1) + j) = Some p \<and>
          (\<exists>e. d_heap (m_directory c') p = Some e \<and> P e)"
      using Suc.IH [of c1 "Suc i"] c1(2) Suc.prems(2,3) as ns by auto
    have *: "table c' ! ?k = Some p" "d_heap (m_directory c') p = Some e"
      using r(3) k1 c1(4) e unfolding filled_def by (blast, metis domI)
    have "find_in_set P (of_nat s) i (Suc n) c = Inr (r, j, c')"
      using c1(1) e False r(1) by (simp add: deref_entry_def)
    moreover have "filled c c'"
      using c1(3) r(3) by (rule filled_trans)
    moreover have "case r of
        None \<Rightarrow> \<forall>w. i \<le> w \<and> w < i + Suc n \<longrightarrow> (\<exists>q e. table c' ! (s * unat (ddc_associativity c) + w) = Some q \<and>
          d_heap (m_directory c') q = Some e \<and> \<not> P e)
      | Some p \<Rightarrow> j < i + Suc n \<and> table c' ! (s * unat (ddc_associativity c) + j) = Some p \<and>
          (\<exists>e. d_heap (m_directory c') p = Some e \<and> P e)"
    proof (cases r)
      case None
      have "\<exists>q e. table c' ! (s * unat (ddc_associativity c) + w) = Some q \<and> d_heap (m_directory c') q = Some e \<and> \<not> P e"
        if "i \<le> w" "w < i + Suc n" for w
        using r(4) None that * False as by (cases "w = i") auto
      with None show ?thesis
        by auto
    qed (use r(4) as in auto)
    ultimately show ?thesis
      using r(2) by blast
  qed
qed

definition dir_map :: "DramDirectoryCache \<Rightarrow> IntPtr \<rightharpoonup> DirectoryEntry" where
  "dir_map c a = (if a = INVALID_ADDRESS then None
     else case dir_find c a of None \<Rightarrow> None | Some p \<Rightarrow> d_heap (m_directory c) p)"

lemma filled_dir_map:
  assumes "filled c c'" and "ddc_wf c" and "ddc_wf c'"
  shows "dir_map c' = dir_map c"
proof
  fix a
  show "dir_map c' a = dir_map c a"
  proof (cases "a = INVALID_ADDRESS \<or> dir_find c a = None")
    case True
    then show ?thesis
      using filled_dir_find [OF assms, of a] by (auto simp: dir_map_def)
  next
    case False
    then obtain p where p: "dir_find c a = Some p" and a: "a \<noteq> INVALID_ADDRESS"
      by auto
    have "p \<in> dom (d_heap (m_directory c))"
      using dir_find_Some [OF assms(2) a] p live_in_heap [OF assms(2)] by blast
    then have "d_heap (m_directory c') p = d_heap (m_directory c) p"
      using assms(1) unfolding filled_def by blast
    with p a filled_dir_find [OF assms a] show ?thesis
      by (simp add: dir_map_def)
  qed
qed

lemma dir_map_Some:
  assumes "ddc_wf c"
  shows "dir_map c a = Some e \<longleftrightarrow> a \<noteq> INVALID_ADDRESS \<and>
    (\<exists>p \<in> set (live_list c). d_heap (m_directory c) p = Some e \<and> de_address e = a)"
proof (cases "a = INVALID_ADDRESS")
  case False
  have "dir_map c a = Some e \<longleftrightarrow> (\<exists>p. dir_find c a = Some p \<and> d_heap (m_directory c) p = Some e)"
    using False by (auto simp: dir_map_def split: option.split)
  then show ?thesis
    using False unfolding dir_find_Some [OF assms False] by (auto simp: entry_addr_def)
qed (simp add: dir_map_def)

lemma dir_map_dom:
  assumes "ddc_wf c" and "a \<noteq> INVALID_ADDRESS"
  shows "dir_map c a = None \<longleftrightarrow> dir_find c a = None"
proof (cases "dir_find c a")
  case (Some p)
  then obtain e where "d_heap (m_directory c) p = Some e"
    using live_in_heap [OF assms(1)] dir_find_Some [OF assms] by blast
  with Some assms(2) show ?thesis
    by (simp add: dir_map_def)
qed (simp add: dir_map_def)

lemma find_replaced_correct:
  assumes "\<forall>p \<in> set ps. p \<in> dom (d_heap d)"
  shows "find_replaced d a ps = Inr (find (\<lambda>p. entry_addr d p = a) ps)"
  using assms by (induction ps) (auto simp: deref_entry_def entry_addr_def)

lemma scan_hit:
  assumes wf: "ddc_wf c" and a: "a \<noteq> INVALID_ADDRESS"
    and r: "i < length (table c)" "table c ! i = Some p" "d_heap (m_directory c) p = Some e" "de_address e = a"
  shows "dir_find c a = Some p"
  unfolding dir_find_Some [OF wf a] using ddc_wf_slot(3) [OF wf r(1,2)] r(3,4) by (simp add: entry_addr_def)

lemma scan_miss:
  assumes wf: "ddc_wf c" and a: "a \<noteq> INVALID_ADDRESS"
    and miss: "\<And>w. w < unat (ddc_associativity c) \<Longrightarrow>
      \<exists>q e. table c ! (set_of c a * unat (ddc_associativity c) + w) = Some q \<and> d_heap (m_directory c) q = Some e \<and> de_address e \<noteq> a"
  shows "dir_find c a = find (\<lambda>p. entry_addr (m_directory c) p = a) (replaced c)"
proof -
  have "entry_addr (m_directory c) p \<noteq> a" if i: "i < length (table c)" "table c ! i = Some p" for i p
  proof
    assume p: "entry_addr (m_directory c) p = a"
    let ?A = "unat (ddc_associativity c)"
    have "set_of c a = i div ?A"
      using ddc_wf_slot(6) [OF wf i] p a by simp
    then have "set_of c a * ?A + i mod ?A = i"
      by simp
    moreover have "i mod ?A < ?A"
      using ddc_geomD(1) [OF ddc_wf_geom [OF wf]] by simp
    ultimately obtain q e where "table c ! i = Some q" "d_heap (m_directory c) q = Some e" "de_address e \<noteq> a"
      using miss by metis
    with i(2) p show False
      by (simp add: entry_addr_def)
  qed
  then have "find (\<lambda>p. entry_addr (m_directory c) p = a) (map the (filter (\<lambda>x. x \<noteq> None) (table c))) = None"
    unfolding find_None_iff by (force simp: in_set_conv_nth)
  then show ?thesis
    by (simp add: dir_find_def live_list_def find_append)
qed

lemma free_entry_map:
  assumes wf: "ddc_wf c" and a: "a \<noteq> INVALID_ADDRESS" and no: "dir_find c a = None"
    and i: "i < length (table c)" "table c ! i = Some p" "set_of c a = i div unat (ddc_associativity c)"
    and e: "d_heap (m_directory c) p = Some e" "de_address e = INVALID_ADDRESS"
  defines "c' \<equiv> c\<lparr>m_directory := upd_entry (m_directory c) p (e\<lparr>de_address := a\<rparr>)\<rparr>"
  shows "ddc_wf c'" and "dir_map c' = (dir_map c)(a \<mapsto> (new_entry (m_directory c))\<lparr>de_address := a\<rparr>)"
    and "dir_find c' a = Some p"
proof -
  have p: "p \<in> set (live_list c)" and ne: "e = new_entry (m_directory c)"
    using ddc_wf_slot(3,5) [OF wf i(1,2)] e by (simp_all add: entry_addr_def)
  show wf': "ddc_wf c'"
    unfolding c'_def using a no i by (intro upd_entry_wf [OF wf p e(1)]) auto
  have live: "set (live_list c') = set (live_list c)"
    by (simp add: c'_def live_list_def)
  show "dir_find c' a = Some p"
    unfolding dir_find_Some [OF wf' a] live using p by (simp add: c'_def entry_addr_def)
  have h: "d_heap (m_directory c') = (d_heap (m_directory c))(p \<mapsto> e\<lparr>de_address := a\<rparr>)"
    by (simp add: c'_def)
  have "dir_map c' b = Some x \<longleftrightarrow> ((dir_map c)(a \<mapsto> e\<lparr>de_address := a\<rparr>)) b = Some x" for b x
  proof (cases "b = a")
    case True
    then show ?thesis
      unfolding True dir_map_def \<open>dir_find c' a = Some p\<close> using a by (simp add: h)
  next
    case False
    have *: "((dir_map c)(a \<mapsto> e\<lparr>de_address := a\<rparr>)) b = dir_map c b"
      using False by simp
    show ?thesis
      unfolding * dir_map_Some [OF wf] dir_map_Some [OF wf'] live h
      using False e by (metis (no_types, lifting) DirectoryEntry.select_convs(1) DirectoryEntry.simps(1) DirectoryEntry.update_convs(1) DirectoryEntry.surjective fun_upd_apply option.inject)
  qed
  then have "dir_map c' b = ((dir_map c)(a \<mapsto> e\<lparr>de_address := a\<rparr>)) b" for b
    by (metis option.exhaust)
  then show "dir_map c' = (dir_map c)(a \<mapsto> (new_entry (m_directory c))\<lparr>de_address := a\<rparr>)"
    unfolding ne by blast
qed

lemma filled_consts: "filled c c' \<Longrightarrow> same_consts c c'" "filled c c' \<Longrightarrow> replaced c' = replaced c"
  by (simp_all add: filled_def)

lemma filled_same:
  assumes "filled c c'"
  shows "ddc_associativity c' = ddc_associativity c" "ddc_num_sets c' = ddc_num_sets c"
    "length (table c') = length (table c)" "set_of c' = set_of c"
    "new_entry (m_directory c') = new_entry (m_directory c)"
    "replaced c' = replaced c" "m_replacement_ptrs c' = m_replacement_ptrs c"
  using assms same_consts_set_of [OF filled_consts(1) [OF assms]] by (simp_all add: filled_def same_consts_def)

lemma filled_full:
  assumes f: "filled c c'" and wf: "ddc_wf c" and s: "s < unat (ddc_num_sets c)" "set_full c s"
  shows "set_full c' s"
  unfolding set_full_iff filled_same(1) [OF f]
proof (intro allI impI)
  fix w assume w: "w < unat (ddc_associativity c)"
  then obtain q where q: "table c ! (s * unat (ddc_associativity c) + w) = Some q"
      "entry_addr (m_directory c) q \<noteq> INVALID_ADDRESS"
    using s(2) unfolding set_full_iff by blast
  have i: "s * unat (ddc_associativity c) + w < length (table c)"
    by (rule slot_less [OF ddc_wf_geom [OF wf] s(1) w])
  have "d_heap (m_directory c') q = d_heap (m_directory c) q"
    using f ddc_wf_slot(1) [OF wf i q(1)] unfolding filled_def by blast
  then have "entry_addr (m_directory c') q \<noteq> INVALID_ADDRESS"
    using q(2) entry_addr_same by metis
  moreover have "table c' ! (s * unat (ddc_associativity c) + w) = Some q"
    using f i q(1) unfolding filled_def by blast
  ultimately show "\<exists>q. table c' ! (s * unat (ddc_associativity c) + w) = Some q \<and> entry_addr (m_directory c') q \<noteq> INVALID_ADDRESS"
    by blast
qed

lemma filled_full_back:
  assumes f: "filled c c'" and wf: "ddc_wf c" and s: "s < unat (ddc_num_sets c)" "set_full c' s"
  shows "set_full c s"
  unfolding set_full_iff
proof (intro allI impI)
  fix w assume w: "w < unat (ddc_associativity c)"
  let ?i = "s * unat (ddc_associativity c) + w"
  obtain q where q: "table c' ! ?i = Some q" "entry_addr (m_directory c') q \<noteq> INVALID_ADDRESS"
    using s(2) w unfolding set_full_iff filled_same(1) [OF f] by blast
  have i: "?i < length (table c)"
    by (rule slot_less [OF ddc_wf_geom [OF wf] s(1) w])
  have "d_heap (m_directory c') q \<noteq> Some (new_entry (m_directory c))"
    using q(2) by (auto simp: entry_addr_def)
  then have t: "table c ! ?i = Some q"
    using f q(1) i unfolding filled_def by blast
  then have "d_heap (m_directory c') q = d_heap (m_directory c) q"
    using f ddc_wf_slot(1) [OF wf i] unfolding filled_def by blast
  then show "\<exists>q. table c ! ?i = Some q \<and> entry_addr (m_directory c) q \<noteq> INVALID_ADDRESS"
    using t q(2) entry_addr_same by metis
qed

lemma getDirectoryEntry_spec:
  assumes wf: "ddc_wf c" and a: "a \<noteq> INVALID_ADDRESS"
  shows "\<exists>r t c'. getDirectoryEntry acc c a modeled = Inr (r, t, c') \<and> ddc_wf c' \<and> same_consts c c' \<and>
     replaced c' = replaced c \<and> m_replacement_ptrs c' = m_replacement_ptrs c \<and> dir_find c' a = r \<and>
     (\<forall>p e. d_heap (m_directory c) p = Some e \<and> de_address e \<noteq> INVALID_ADDRESS \<longrightarrow> d_heap (m_directory c') p = Some e) \<and>
     (case r of
        None \<Rightarrow> dir_map c a = None \<and> dir_map c' = dir_map c \<and> set_full c (set_of c a) \<and> set_full c' (set_of c a)
      | Some p \<Rightarrow> (if dir_map c a = None
                   then \<not> set_full c (set_of c a) \<and> dir_map c' = (dir_map c)(a \<mapsto> (new_entry (m_directory c))\<lparr>de_address := a\<rparr>)
                   else dir_map c' = dir_map c)) \<and>
     set (live_list c) \<subseteq> set (live_list c')"
proof -
  let ?A = "unat (ddc_associativity c)" and ?s = "set_of c a"
  note geom = ddc_wf_geom [OF wf]
  have split: "dir_splitAddress c a = Inr (of_nat ?s)" and s: "?s < unat (ddc_num_sets c)" and A: "0 < ?A"
    using ddc_geomD [OF geom] by simp_all
  obtain r1 j1 c1 where c1: "find_in_set (\<lambda>e. de_address e = a) (of_nat ?s) 0 ?A c = Inr (r1, j1, c1)" "ddc_wf c1" "filled c c1"
    and r1: "case r1 of None \<Rightarrow> \<forall>w. 0 \<le> w \<and> w < 0 + ?A \<longrightarrow> (\<exists>q e. table c1 ! (?s * ?A + w) = Some q \<and>
          d_heap (m_directory c1) q = Some e \<and> de_address e \<noteq> a)
      | Some p \<Rightarrow> j1 < 0 + ?A \<and> table c1 ! (?s * ?A + j1) = Some p \<and> (\<exists>e. d_heap (m_directory c1) p = Some e \<and> de_address e = a)"
    using find_in_set_correct [OF wf s add_0, of "\<lambda>e. de_address e = a"] by (elim exE conjE) (rule that)
  note k1 = filled_same [OF c1(3)]
  have m1: "dir_map c1 = dir_map c" and f1: "dir_find c1 a = dir_find c a"
    using filled_dir_map [OF c1(3) wf c1(2)] filled_dir_find [OF c1(3) wf c1(2) a] by simp_all
  have old: "filled c c' \<Longrightarrow> d_heap (m_directory c) p = Some e \<Longrightarrow> d_heap (m_directory c') p = Some e" for c' p e
    unfolding filled_def by (metis domI)
  show ?thesis
  proof (cases r1)
    case (Some p)
    then obtain e where p: "table c1 ! (?s * ?A + j1) = Some p" "d_heap (m_directory c1) p = Some e" "de_address e = a"
        and j: "j1 < ?A"
      using r1 by auto
    have i: "?s * ?A + j1 < length (table c1)"
      using slot_less [OF geom s j] k1(3) by simp
    have f: "dir_find c1 a = Some p"
      by (rule scan_hit [OF c1(2) a i p])
    with f1 dir_map_dom [OF wf a] have "dir_map c a \<noteq> None"
      by (metis option.distinct(1))
    moreover have "getDirectoryEntry acc c a modeled = Inr (Some p, (if modeled then [acc, getLatency e] else []), c1)"
      using c1(1) Some p(2) split by (simp add: getDirectoryEntry_def deref_entry_def Let_def)
    ultimately show ?thesis
      using c1(2) filled_consts(1) [OF c1(3)] k1(6,7) f m1 old [OF c1(3)] filled_live_sub [OF c1(3)] by auto
  next
    case None
    have f1': "dir_find c1 a = find (\<lambda>p. entry_addr (m_directory c1) p = a) (replaced c1)"
      using r1 None k1 by (intro scan_miss [OF c1(2) a]) auto
    have s1: "?s < unat (ddc_num_sets c1)"
      using s k1(2) by simp
    obtain r2 j2 c2 where c2: "find_in_set (\<lambda>e. de_address e = INVALID_ADDRESS) (of_nat ?s) 0 ?A c1 = Inr (r2, j2, c2)" "ddc_wf c2" "filled c1 c2"
      and r2: "case r2 of None \<Rightarrow> \<forall>w. 0 \<le> w \<and> w < 0 + ?A \<longrightarrow> (\<exists>q e. table c2 ! (?s * ?A + w) = Some q \<and>
            d_heap (m_directory c2) q = Some e \<and> de_address e \<noteq> INVALID_ADDRESS)
        | Some p \<Rightarrow> j2 < 0 + ?A \<and> table c2 ! (?s * ?A + j2) = Some p \<and> (\<exists>e. d_heap (m_directory c2) p = Some e \<and> de_address e = INVALID_ADDRESS)"
      using find_in_set_correct [OF c1(2) s1 add_0, of "\<lambda>e. de_address e = INVALID_ADDRESS"]
      unfolding k1(1) by (elim exE conjE) (rule that)
    have fl: "filled c c2"
      using c1(3) c2(3) by (rule filled_trans)
    note k2 = filled_same [OF fl]
    have m2: "dir_map c2 = dir_map c" and f2: "dir_find c2 a = dir_find c a"
      using filled_dir_map [OF fl wf c2(2)] filled_dir_find [OF fl wf c2(2) a] by simp_all
    have keep: "table c2 ! x = Some q" if "x < length (table c1)" "table c1 ! x = Some q" for x q
      using c2(3) that unfolding filled_def by blast
    have keep_heap: "d_heap (m_directory c2) q = Some e" if "d_heap (m_directory c1) q = Some e" for q e
      using c2(3) that unfolding filled_def by (metis domI)
    show ?thesis
    proof (cases r2)
      case (Some p)
      then obtain e where p: "table c2 ! (?s * ?A + j2) = Some p" "d_heap (m_directory c2) p = Some e" "de_address e = INVALID_ADDRESS"
          and j: "j2 < ?A"
        using r2 by auto
      have i: "?s * ?A + j2 < length (table c2)"
        using slot_less [OF geom s j] k2(3) by simp
      have d: "?s = (?s * ?A + j2) div ?A"
        using j by simp
      have "q \<notin> set (replaced c1)" if q: "entry_addr (m_directory c1) q = a" for q
      proof
        assume "q \<in> set (replaced c1)"
        then have "set_full c1 ?s"
          using ddc_wf_replaced(3) [OF c1(2)] q k1(4) by metis
        then obtain x where x: "table c1 ! (?s * ?A + j2) = Some x" "entry_addr (m_directory c1) x \<noteq> INVALID_ADDRESS"
          using j k1(1) unfolding set_full_iff by metis
        have "x = p"
          using keep [OF _ x(1)] i k1(3) k2(3) p(1) by simp
        with x(2) p(2,3) show False
          unfolding entry_addr_def by (cases "d_heap (m_directory c1) x") (use keep_heap in auto)
      qed
      then have no: "dir_find c2 a = None"
        unfolding f2 f1 [symmetric] f1' find_None_iff by blast
      let ?c = "c2\<lparr>m_directory := upd_entry (m_directory c2) p (e\<lparr>de_address := a\<rparr>)\<rparr>"
      note fe = free_entry_map [OF c2(2) a no i p(1) _ p(2,3)]
      have "getDirectoryEntry acc c a modeled = Inr (Some p, (if modeled then [acc] else []), ?c)"
        using c1(1) None c2(1) Some p split k1(1) by (simp add: getDirectoryEntry_def deref_entry_def Let_def)
      moreover have "ddc_wf ?c \<and> dir_find ?c a = Some p \<and> dir_map ?c = (dir_map c)(a \<mapsto> (new_entry (m_directory c))\<lparr>de_address := a\<rparr>)"
        using fe d k2 m2 by simp
      moreover have "same_consts c ?c"
        using filled_consts(1) [OF fl] by (simp add: same_consts_def)
      moreover have "dir_map c a = None"
        using no f2 dir_map_dom [OF wf a] by simp
      moreover have "\<not> set_full c ?s"
      proof
        assume "set_full c ?s"
        then have "set_full c2 ?s"
          by (rule filled_full [OF fl wf s])
        then obtain q where "table c2 ! (?s * ?A + j2) = Some q" "entry_addr (m_directory c2) q \<noteq> INVALID_ADDRESS"
          using j unfolding set_full_iff k2(1) by blast
        with p show False
          by (simp add: entry_addr_def)
      qed
      moreover have "set (live_list c) \<subseteq> set (live_list ?c)"
        using filled_live_sub [OF fl] by (simp add: live_list_def)
      ultimately show ?thesis
        using old [OF fl] p k2 by auto
    next
      case none2: None
      have full: "set_full c2 ?s"
        using r2 none2 k2(1) unfolding set_full_iff entry_addr_def by fastforce
      have "\<exists>q e. table c2 ! (set_of c2 a * unat (ddc_associativity c2) + w) = Some q \<and> d_heap (m_directory c2) q = Some e \<and> de_address e \<noteq> a"
        if w: "w < unat (ddc_associativity c2)" for w
      proof -
        have w': "w < ?A"
          using w k2(1) by simp
        then obtain q e where q: "table c1 ! (?s * ?A + w) = Some q" "d_heap (m_directory c1) q = Some e" "de_address e \<noteq> a"
          using r1 None by auto
        have "table c2 ! (?s * ?A + w) = Some q" "d_heap (m_directory c2) q = Some e"
          using keep [OF _ q(1)] slot_less [OF geom s w'] k1(3) keep_heap [OF q(2)] by simp_all
        with q(3) show ?thesis
          unfolding k2(1,4) by blast
      qed
      then have "dir_find c2 a = find (\<lambda>p. entry_addr (m_directory c2) p = a) (replaced c2)"
        by (rule scan_miss [OF c2(2) a])
      then have "find_replaced (m_directory c2) a (replaced c2) = Inr (dir_find c2 a)"
        using ddc_wf_replaced(1) [OF c2(2)] by (simp add: find_replaced_correct)
      then have "getDirectoryEntry acc c a modeled = Inr (dir_find c2 a, (if modeled then [acc] else []), c2)"
        using c1(1) None c2(1) none2 split k1(1) by (simp add: getDirectoryEntry_def Let_def)
      moreover have "dir_find c2 a = None \<longleftrightarrow> dir_map c a = None"
        unfolding f2 using dir_map_dom [OF wf a] by simp
      ultimately show ?thesis
        using c2(2) filled_consts(1) [OF fl] k2(6,7) old [OF fl] m2 full filled_full_back [OF fl wf s full] filled_live_sub [OF fl]
        by (cases "dir_find c2 a") auto
    qed
  qed
qed

lemma live_move:
  assumes "k < length (table c)" and "table c ! k = Some p" and "table c' = (table c)[k := Some q]"
    and "replaced c' = replaced c @ [p]"
  shows "set (live_list c') = insert q (set (live_list c))"
proof -
  have "(\<exists>i < length (table c). (table c)[k := Some q] ! i = Some x) \<longleftrightarrow> x = q \<or> (\<exists>i < length (table c). i \<noteq> k \<and> table c ! i = Some x)" for x
    using assms(1) by (metis nth_list_update_eq nth_list_update_neq option.inject)
  moreover have "(\<exists>i < length (table c). table c ! i = Some x) \<longleftrightarrow> x = p \<or> (\<exists>i < length (table c). i \<noteq> k \<and> table c ! i = Some x)" for x
    using assms(1,2) by (metis option.inject)
  ultimately show ?thesis
    using assms(3,4) by (auto simp: set_eq_iff live_iff)
qed

lemma find_in_set_hit:
  assumes wf: "ddc_wf c" and s: "set_of c a < unat (ddc_num_sets c)" and full: "set_full c (set_of c a)"
    and p: "dir_find c a = Some p" "p \<notin> set (replaced c)" and a: "a \<noteq> INVALID_ADDRESS"
  shows "\<exists>j c'. find_in_set (\<lambda>e. de_address e = a) (of_nat (set_of c a)) 0 (unat (ddc_associativity c)) c = Inr (Some p, j, c') \<and>
     ddc_wf c' \<and> filled c c' \<and> j < unat (ddc_associativity c) \<and>
     table c' ! (set_of c a * unat (ddc_associativity c) + j) = Some p"
proof -
  let ?A = "unat (ddc_associativity c)" and ?s = "set_of c a"
  obtain r j c' where c': "find_in_set (\<lambda>e. de_address e = a) (of_nat ?s) 0 ?A c = Inr (r, j, c')" "ddc_wf c'" "filled c c'"
    and r: "case r of None \<Rightarrow> \<forall>w. 0 \<le> w \<and> w < 0 + ?A \<longrightarrow> (\<exists>q e. table c' ! (?s * ?A + w) = Some q \<and>
          d_heap (m_directory c') q = Some e \<and> de_address e \<noteq> a)
      | Some p \<Rightarrow> j < 0 + ?A \<and> table c' ! (?s * ?A + j) = Some p \<and> (\<exists>e. d_heap (m_directory c') p = Some e \<and> de_address e = a)"
    using find_in_set_correct [OF wf s add_0, of "\<lambda>e. de_address e = a"] by (elim exE conjE) (rule that)
  have f: "dir_find c' a = Some p"
    using filled_dir_find [OF c'(3) wf c'(2) a] p(1) by simp
  show ?thesis
  proof (cases r)
    case None
    have "dir_find c' a = find (\<lambda>p. entry_addr (m_directory c') p = a) (replaced c')"
      using r None filled_same(1,4) [OF c'(3)] by (intro scan_miss [OF c'(2) a]) auto
    with f have "p \<in> set (replaced c')"
      using find_SomeD by metis
    with p(2) filled_same(6) [OF c'(3)] show ?thesis
      by simp
  next
    case (Some q)
    then obtain e where q: "table c' ! (?s * ?A + j) = Some q" "d_heap (m_directory c') q = Some e" "de_address e = a" and j: "j < ?A"
      using r by auto
    have "?s * ?A + j < length (table c')"
      using slot_less [OF ddc_wf_geom [OF wf] s j] filled_same(3) [OF c'(3)] by simp
    then have "q = p"
      using scan_hit [OF c'(2) a _ q] f by simp
    with c' q j Some show ?thesis
      by blast
  qed
qed

lemma dir_map_put:
  assumes wf: "ddc_wf c" and wf': "ddc_wf c'" and a: "a \<noteq> INVALID_ADDRESS" and no: "dir_find c a = None"
    and live: "set (live_list c') = insert q (set (live_list c))"
    and h: "d_heap (m_directory c') = (d_heap (m_directory c))(q \<mapsto> e)" and q: "q \<notin> set (live_list c)" and e: "de_address e = a"
  shows "dir_map c' = (dir_map c)(a \<mapsto> e)" and "dir_find c' a = Some q"
proof -
  show f: "dir_find c' a = Some q"
    unfolding dir_find_Some [OF wf' a] live using e by (simp add: h entry_addr_def)
  have "dir_map c' b = ((dir_map c)(a \<mapsto> e)) b" for b
  proof (cases "b = a")
    case True
    then show ?thesis
      using f a by (simp add: dir_map_def h)
  next
    case False
    have "dir_map c' b = Some x \<longleftrightarrow> dir_map c b = Some x" for x
      unfolding dir_map_Some [OF wf] dir_map_Some [OF wf'] live h using False e q by auto
    with False show ?thesis
      by (metis fun_upd_other option.exhaust)
  qed
  then show "dir_map c' = (dir_map c)(a \<mapsto> e)"
    by blast
qed

lemma replaceDirectoryEntry_spec:
  assumes wf: "ddc_wf c" and a: "a \<noteq> INVALID_ADDRESS" "ra \<noteq> INVALID_ADDRESS" and no: "dir_find c a = None"
    and p: "dir_find c ra = Some p" "p \<notin> set (replaced c)"
    and s: "set_of c ra = set_of c a" and full: "set_full c (set_of c a)"
  shows "\<exists>q c'. replaceDirectoryEntry acc c ra a modeled = Inr (q, (if modeled then acc else 0), c') \<and>
     ddc_wf c' \<and> same_consts c c' \<and> replaced c' = replaced c @ [p] \<and> q \<notin> dom (d_heap (m_directory c)) \<and>
     dir_map c' = (dir_map c)(a \<mapsto> (new_entry (m_directory c))\<lparr>de_address := a\<rparr>) \<and> dir_find c' a = Some q \<and>
     (\<forall>x e. d_heap (m_directory c) x = Some e \<longrightarrow> d_heap (m_directory c') x = Some e) \<and>
     set (live_list c) \<subseteq> set (live_list c')"
proof -
  let ?A = "unat (ddc_associativity c)" and ?s = "set_of c a"
  note geom = ddc_wf_geom [OF wf]
  have split: "dir_splitAddress c ra = Inr (of_nat ?s)" and sn: "?s < unat (ddc_num_sets c)"
    using ddc_geomD [OF geom] s by metis+
  obtain j c1 where c1: "find_in_set (\<lambda>e. de_address e = ra) (of_nat ?s) 0 ?A c = Inr (Some p, j, c1)" "ddc_wf c1" "filled c c1"
      and j: "j < ?A" "table c1 ! (?s * ?A + j) = Some p"
    using find_in_set_hit [OF wf _ _ p a(2)] sn full s by auto
  let ?k = "?s * ?A + j"
  note k1 = filled_same [OF c1(3)]
  have i: "unat (of_nat ?s * ddc_associativity c + of_nat j) = ?k" "?k < length (table c1)"
    using slot_index [OF geom sn j(1)] slot_less [OF geom sn j(1)] k1(3) by simp_all
  let ?d = "m_directory c1" and ?q = "d_next (m_directory c1)"
  let ?e = "(new_entry ?d)\<lparr>de_address := a\<rparr>"
  define c2 where "c2 = c1\<lparr>m_replaced_directory_entry_list := replaced c @ [p], m_directory := ?d\<lparr>
      m_use_max_hw_sharers := (if m_directory_type ?d = FULL_MAP then m_max_num_sharers ?d else m_use_max_hw_sharers ?d),
      d_heap := (d_heap ?d)(?q \<mapsto> ?e), d_next := Suc ?q, m_directory_entry_list := (table c1)[?k := Some ?q]\<rparr>\<rparr>"
  have eq: "replaceDirectoryEntry acc c ra a modeled = Inr (?q, (if modeled then acc else 0), c2)"
    using c1(1) split k1(1,6) i
    by (simp add: replaceDirectoryEntry_def createDirectoryEntry_eq setDirectoryEntry_def deref_entry_def upd_entry_def Let_def c2_def)
  have sc: "same_consts c1 c2"
    by (simp add: same_consts_def c2_def)
  have f1: "dir_find c1 a = None" "dir_find c1 ra = Some p"
    using filled_dir_find [OF c1(3) wf c1(2)] a no p(1) by simp_all
  have full1: "set_full c1 ?s"
    by (rule filled_full [OF c1(3) wf sn full])
  have pa: "entry_addr (m_directory c1) p = ra"
    using f1(2) dir_find_Some [OF c1(2) a(2)] by blast
  have kd: "?k div ?A = ?s"
    using j(1) by simp
  have wf2: "ddc_wf c2"
    by (rule put_entry_wf [OF c1(2) sc i(2), where e = ?e])
      (use j k1 kd a f1 full1 pa in \<open>simp_all add: c2_def\<close>)
  have q: "?q \<notin> dom (d_heap ?d)"
    using ddc_wf_next [OF c1(2)] by blast
  then have ql: "?q \<notin> set (live_list c1)"
    using live_in_heap [OF c1(2)] by blast
  have live: "set (live_list c2) = insert ?q (set (live_list c1))"
    by (rule live_move [OF i(2) j(2)]) (simp_all add: c2_def k1)
  have h: "d_heap (m_directory c2) = (d_heap ?d)(?q \<mapsto> ?e)"
    by (simp add: c2_def)
  have m: "dir_map c2 = (dir_map c)(a \<mapsto> (new_entry (m_directory c))\<lparr>de_address := a\<rparr>)" "dir_find c2 a = Some ?q"
    using dir_map_put [OF c1(2) wf2 a(1) f1(1) live h ql] filled_dir_map [OF c1(3) wf c1(2)] k1(5) by simp_all
  have old: "d_heap ?d x = Some e" if "d_heap (m_directory c) x = Some e" for x e
    using c1(3) that unfolding filled_def by (metis domI)
  then have "?q \<notin> dom (d_heap (m_directory c))"
    using q by blast
  moreover have "d_heap (m_directory c2) x = Some e" if "d_heap (m_directory c) x = Some e" for x e
    using old [OF that] q unfolding h by (auto simp: domIff)
  moreover have "same_consts c c2"
    using filled_consts(1) [OF c1(3)] sc by (rule same_consts_trans)
  moreover have "set (live_list c) \<subseteq> set (live_list c2)"
    using filled_live_sub [OF c1(3)] live by blast
  ultimately show ?thesis
    using eq wf2 m by (auto simp: c2_def)
qed

lemma erase_replaced_correct:
  assumes "\<forall>p \<in> set ps. p \<in> dom (d_heap d)" and "distinct ps" and "p \<in> set ps" and "entry_addr d p = a"
    and "\<And>q. q \<in> set ps \<Longrightarrow> entry_addr d q = a \<Longrightarrow> q = p"
  shows "erase_replaced d a ps = Inr (p, filter (\<lambda>q. q \<noteq> p) ps)"
  using assms
proof (induction ps)
  case (Cons q qs)
  obtain e where e: "d_heap d q = Some e" "entry_addr d q = de_address e"
    using Cons.prems(1) by (auto simp: entry_addr_def)
  show ?case
  proof (cases "q = p")
    case True
    then have "filter (\<lambda>q. q \<noteq> p) qs = qs"
      using Cons.prems(2) by (auto intro: filter_True)
    with True e Cons.prems(4) show ?thesis
      by (simp add: deref_entry_def)
  next
    case False
    then have "de_address e \<noteq> a"
      using Cons.prems(5) [of q] e(2) by auto
    moreover have "erase_replaced d a qs = Inr (p, filter (\<lambda>q. q \<noteq> p) qs)"
      using Cons.prems False by (intro Cons.IH) auto
    ultimately show ?thesis
      using False e(1) by (simp add: deref_entry_def)
  qed
qed simp

lemma invalidateDirectoryEntry_spec:
  assumes wf: "ddc_wf c" and a: "a \<noteq> INVALID_ADDRESS" and p: "dir_find c a = Some p" "p \<in> set (replaced c)"
  shows "\<exists>c'. invalidateDirectoryEntry c a = Inr c' \<and> ddc_wf c' \<and> same_consts c c' \<and>
     replaced c' = filter (\<lambda>q. q \<noteq> p) (replaced c) \<and> dir_map c' = (dir_map c)(a := None) \<and> dir_find c' a = None \<and>
     (\<forall>x. x \<noteq> p \<longrightarrow> d_heap (m_directory c') x = d_heap (m_directory c) x) \<and> d_heap (m_directory c') p = None \<and>
     set (live_list c') = set (live_list c) - {p}"
proof -
  define c' where "c' = c\<lparr>m_directory := (m_directory c)\<lparr>d_heap := (d_heap (m_directory c))(p := None)\<rparr>,
       m_replaced_directory_entry_list := filter (\<lambda>q. q \<noteq> p) (replaced c)\<rparr>"
  have pa: "p \<in> set (live_list c)" "entry_addr (m_directory c) p = a"
    using p(1) dir_find_Some [OF wf a] by simp_all
  have uniq: "q = p" if "q \<in> set (live_list c)" "entry_addr (m_directory c) q = a" for q
    using ddc_uniq [OF wf that(1) pa(1)] that(2) pa(2) a by simp
  have dist: "distinct (replaced c)"
    using wf by (simp add: ddc_wf_def replaced_ok_def)
  have "erase_replaced (m_directory c) a (replaced c) = Inr (p, filter (\<lambda>q. q \<noteq> p) (replaced c))"
    using ddc_wf_replaced(1) [OF wf] uniq [OF ddc_wf_replaced(4) [OF wf]]
    by (intro erase_replaced_correct dist p(2) pa(2)) blast+
  then have eq: "invalidateDirectoryEntry c a = Inr c'"
    by (simp add: invalidateDirectoryEntry_def c'_def)
  have h: "d_heap (m_directory c') = (d_heap (m_directory c))(p := None)" and t: "table c' = table c"
    and r: "replaced c' = filter (\<lambda>q. q \<noteq> p) (replaced c)" and so: "set_of c' = set_of c"
    and as: "ddc_associativity c' = ddc_associativity c"
    by (simp_all add: c'_def set_of_def fun_eq_iff)
  have ao: "x \<noteq> p \<Longrightarrow> entry_addr (m_directory c') x = entry_addr (m_directory c) x" for x
    by (simp add: entry_addr_def h)
  have np: "x \<noteq> p" if "i < length (table c)" "table c ! i = Some x" for i x
    using ddc_wf_slot(2) [OF wf that] p(2) by blast
  have live: "set (live_list c') = set (live_list c) - {p}"
    using np by (auto simp: set_eq_iff live_iff t r)
  have full: "set_full c' s" if s: "set_full c s" "s < unat (ddc_num_sets c)" for s
    unfolding set_full_iff
  proof (intro allI impI)
    fix w assume "w < unat (ddc_associativity c')"
    then have w: "w < unat (ddc_associativity c)"
      by (simp add: c'_def)
    obtain q where "table c ! (s * unat (ddc_associativity c) + w) = Some q" and "entry_addr (m_directory c) q \<noteq> INVALID_ADDRESS"
      using s(1) w unfolding set_full_iff by blast
    moreover from this(1) have "q \<noteq> p"
      by (rule np [OF slot_less [OF ddc_wf_geom [OF wf] s(2) w]])
    ultimately have "table c' ! (s * unat (ddc_associativity c) + w) = Some q \<and> entry_addr (m_directory c') q \<noteq> INVALID_ADDRESS"
      by (simp add: t ao)
    then show "\<exists>q. table c' ! (s * unat (ddc_associativity c') + w) = Some q \<and> entry_addr (m_directory c') q \<noteq> INVALID_ADDRESS"
      unfolding as by blast
  qed
  have wf': "ddc_wf c'"
  proof (rule ddc_wfI)
    show "ddc_geom c'"
      using ddc_wf_geom [OF wf] by (simp add: ddc_geom_def c'_def)
  next
    fix i x assume i: "i < length (table c')" "table c' ! i = Some x"
    note i = i [unfolded t]
    show "x \<in> dom (d_heap (m_directory c')) \<and> x \<notin> set (replaced c') \<and> (\<forall>j < length (table c'). table c' ! j = Some x \<longrightarrow> j = i)"
      using ddc_wf_slot(1,2,4) [OF wf i] np [OF i] unfolding t h r by auto
    show "d_heap (m_directory c') x = Some (new_entry (m_directory c'))" if "entry_addr (m_directory c') x = INVALID_ADDRESS"
      using ddc_wf_slot(5) [OF wf i] that np [OF i] ao by (simp add: h) (simp add: c'_def)
    show "set_of c' (entry_addr (m_directory c') x) = i div unat (ddc_associativity c')" if "entry_addr (m_directory c') x \<noteq> INVALID_ADDRESS"
      using ddc_wf_slot(6) [OF wf i] that ao [OF np [OF i]] unfolding so by (simp add: c'_def)
  next
    show "distinct (replaced c')"
      using dist by (simp add: r)
  next
    fix x assume "x \<in> set (replaced c')"
    then have x: "x \<in> set (replaced c)" "x \<noteq> p"
      by (auto simp: r)
    show "x \<in> dom (d_heap (m_directory c')) \<and> entry_addr (m_directory c') x \<noteq> INVALID_ADDRESS"
      using ddc_wf_replaced(1,2) [OF wf x(1)] x(2) ao [OF x(2)] by (auto simp: h)
    show "set_full c' (set_of c' (entry_addr (m_directory c') x))"
      unfolding so ao [OF x(2)] using ddc_wf_replaced(3) [OF wf x(1)] ddc_geomD(2) [OF ddc_wf_geom [OF wf]] by (rule full)
  next
    fix x assume "x \<in> dom (d_heap (m_directory c'))"
    then show "x < d_next (m_directory c')"
      using ddc_wf_next [OF wf, of x] by (auto simp: h c'_def split: if_splits)
  next
    fix x y assume "x \<in> set (live_list c')" "y \<in> set (live_list c')"
      "entry_addr (m_directory c') x = entry_addr (m_directory c') y" "entry_addr (m_directory c') x \<noteq> INVALID_ADDRESS"
    then show "x = y"
      unfolding live using ddc_uniq [OF wf, of x y] ao by simp
  qed
  have none: "dir_find c' a = None"
    unfolding dir_find_None live using uniq ao by auto
  have "dir_map c' b = ((dir_map c)(a := None)) b" for b
  proof (cases "b = a")
    case True
    then show ?thesis
      using none by (simp add: dir_map_def)
  next
    case False
    have "dir_map c' b = Some x \<longleftrightarrow> dir_map c b = Some x" for x
      unfolding dir_map_Some [OF wf] dir_map_Some [OF wf'] live h
      using False pa by (auto simp: entry_addr_def)
    with False show ?thesis
      by (metis fun_upd_other option.exhaust)
  qed
  then have "dir_map c' = (dir_map c)(a := None)"
    by blast
  moreover have "same_consts c c'"
    by (simp add: same_consts_def c'_def)
  ultimately show ?thesis
    using eq wf' none r h live by auto
qed

lemma collect_candidates_correct:
  assumes "ddc_wf c" and "s < unat (ddc_num_sets c)"
  shows "\<exists>ps c'. collect_candidates (of_nat s) ptr i n c = Inr (ps, c') \<and> ddc_wf c' \<and> filled c c' \<and> length ps = n \<and>
     (\<forall>p \<in> set ps. \<exists>w < unat (ddc_associativity c). table c' ! (s * unat (ddc_associativity c) + w) = Some p)"
  using assms
proof (induction n arbitrary: i c)
  case 0
  then show ?case
    by (simp add: filled_refl)
next
  case (Suc n)
  let ?A = "unat (ddc_associativity c)"
  define w where "w = unat ((of_nat i + ptr) mod ddc_associativity c)"
  note geom = ddc_wf_geom [OF Suc.prems(1)]
  have w: "w < ?A"
    using ddc_geomD(1) [OF geom] by (simp add: w_def unat_mod_distrib)
  have wi: "of_nat s * ddc_associativity c + ((of_nat i + ptr) mod ddc_associativity c) = of_nat s * ddc_associativity c + of_nat w"
    by (simp add: w_def)
  have k: "unat (of_nat s * ddc_associativity c + of_nat w) = s * ?A + w" "s * ?A + w < length (table c)"
    using slot_index [OF geom Suc.prems(2) w] slot_less [OF geom Suc.prems(2) w] by simp_all
  obtain p c1 where c1: "entry_at c (of_nat s * ddc_associativity c + of_nat w) = Inr (p, c1)" "ddc_wf c1" "filled c c1"
      "table c1 ! (s * ?A + w) = Some p"
    using entry_at_correct [OF Suc.prems(1), of "of_nat s * ddc_associativity c + of_nat w"] k by auto
  note k1 = filled_same [OF c1(3)]
  obtain ps c' where c': "collect_candidates (of_nat s) ptr (Suc i) n c1 = Inr (ps, c')" "ddc_wf c'" "filled c1 c'" "length ps = n"
      "\<forall>p \<in> set ps. \<exists>w < ?A. table c' ! (s * ?A + w) = Some p"
    using Suc.IH [OF c1(2), of "Suc i"] Suc.prems(2) unfolding k1(1,2) by blast
  have "table c' ! (s * ?A + w) = Some p"
    using c'(3) c1(4) k(2) k1(3) unfolding filled_def by simp
  then have "\<forall>p \<in> set (p # ps). \<exists>w < ?A. table c' ! (s * ?A + w) = Some p"
    using c'(5) w by auto
  moreover have "collect_candidates (of_nat s) ptr i (Suc n) c = Inr (p # ps, c')"
    using c1(1) c'(1) by (simp add: wi)
  ultimately show ?case
    using c'(2,4) filled_trans [OF c1(3) c'(3)] by auto
qed

lemma ptrs_irrelevant [simp]:
  "live_list (c\<lparr>m_replacement_ptrs := x\<rparr>) = live_list c" "dir_find (c\<lparr>m_replacement_ptrs := x\<rparr>) = dir_find c"
  "dir_map (c\<lparr>m_replacement_ptrs := x\<rparr>) = dir_map c" "set_full (c\<lparr>m_replacement_ptrs := x\<rparr>) = set_full c"
  "set_of (c\<lparr>m_replacement_ptrs := x\<rparr>) = set_of c"
  by (simp_all add: live_list_def dir_find_def dir_map_def set_full_iff set_of_def fun_eq_iff split: option.split)

lemma ptrs_wf:
  assumes "ddc_wf c" and "length x = length (m_replacement_ptrs c)"
  shows "ddc_wf (c\<lparr>m_replacement_ptrs := x\<rparr>)"
proof -
  let ?c = "c\<lparr>m_replacement_ptrs := x\<rparr>"
  have f: "m_directory ?c = m_directory c" "replaced ?c = replaced c" "ddc_associativity ?c = ddc_associativity c"
    by simp_all
  have "ddc_geom ?c = ddc_geom c"
    using assms(2) by (simp add: ddc_geom_def)
  moreover have "table_ok ?c = table_ok c" "replaced_ok ?c = replaced_ok c"
    unfolding table_ok_def replaced_ok_def f ptrs_irrelevant by (rule refl)+
  ultimately show ?thesis
    using assms(1) unfolding ddc_wf_def f ptrs_irrelevant by blast
qed

lemma getReplacementCandidates_spec:
  assumes wf: "ddc_wf c" and a: "a \<noteq> INVALID_ADDRESS" and no: "dir_find c a = None" and full: "set_full c (set_of c a)"
  shows "\<exists>ps c'. getReplacementCandidates c a = Inr (ps, c') \<and> ddc_wf c' \<and> same_consts c c' \<and> replaced c' = replaced c \<and>
     dir_map c' = dir_map c \<and> set_full c' (set_of c a) \<and> length ps = unat (ddc_associativity c) \<and>
     (\<forall>p e. d_heap (m_directory c) p = Some e \<and> de_address e \<noteq> INVALID_ADDRESS \<longrightarrow> d_heap (m_directory c') p = Some e) \<and>
     (\<forall>p \<in> set ps. \<exists>e. d_heap (m_directory c') p = Some e \<and> de_address e \<noteq> INVALID_ADDRESS \<and>
        set_of c (de_address e) = set_of c a \<and> dir_find c' (de_address e) = Some p \<and> p \<notin> set (replaced c')) \<and>
     set (live_list c) \<subseteq> set (live_list c')"
proof -
  obtain r t c1 where c1: "getDirectoryEntry 0 c a False = Inr (r, t, c1)" "ddc_wf c1" "same_consts c c1" "replaced c1 = replaced c"
     "m_replacement_ptrs c1 = m_replacement_ptrs c" "dir_find c1 a = r"
     and keep: "\<forall>p e. d_heap (m_directory c) p = Some e \<and> de_address e \<noteq> INVALID_ADDRESS \<longrightarrow> d_heap (m_directory c1) p = Some e"
     and r: "case r of
        None \<Rightarrow> dir_map c a = None \<and> dir_map c1 = dir_map c \<and> set_full c (set_of c a) \<and> set_full c1 (set_of c a)
      | Some p \<Rightarrow> (if dir_map c a = None
                   then \<not> set_full c (set_of c a) \<and> dir_map c1 = (dir_map c)(a \<mapsto> (new_entry (m_directory c))\<lparr>de_address := a\<rparr>)
                   else dir_map c1 = dir_map c)"
     and live1: "set (live_list c) \<subseteq> set (live_list c1)"
    using getDirectoryEntry_spec [OF wf a, of 0 False] by (elim exE conjE) (rule that)
  have rN: "r = None"
    using r no full dir_map_dom [OF wf a] by (cases r) auto
  let ?s = "set_of c a"
  have so: "set_of c1 = set_of c" and ns: "ddc_num_sets c1 = ddc_num_sets c" and as: "ddc_associativity c1 = ddc_associativity c"
    using same_consts_set_of [OF c1(3)] c1(3) by (simp_all add: same_consts_def)
  have s: "?s < unat (ddc_num_sets c1)" "?s < length (m_replacement_ptrs c1)"
    using ddc_geomD(2) [OF ddc_wf_geom [OF wf]] ddc_wf_geom [OF wf] ns c1(5) by (simp_all add: ddc_geom_def)
  have us: "unat (of_nat ?s :: u32) = ?s"
    using unat_lt_two_power [of "ddc_num_sets c1"] s(1) by (simp add: unat_of_nat)
  define ptr where "ptr = m_replacement_ptrs c1 ! ?s"
  obtain ps c2 where c2: "collect_candidates (of_nat ?s) ptr 0 (unat (ddc_associativity c1)) c1 = Inr (ps, c2)" "ddc_wf c2" "filled c1 c2"
      "length ps = unat (ddc_associativity c1)" "\<forall>p \<in> set ps. \<exists>w < unat (ddc_associativity c1). table c2 ! (?s * unat (ddc_associativity c1) + w) = Some p"
    using collect_candidates_correct [OF c1(2) s(1), of ptr 0 "unat (ddc_associativity c1)"] by (elim exE conjE) (rule that)
  define c3 where "c3 = c2\<lparr>m_replacement_ptrs := (m_replacement_ptrs c2)[?s := ptr + 1]\<rparr>"
  have eq: "getReplacementCandidates c a = Inr (ps, c3)"
    using c1(1) rN ddc_geomD(3) [OF ddc_wf_geom [OF c1(2)], of a] so s(2) us c2(1)
      filled_same(7) [OF c2(3)]
    by (simp add: getReplacementCandidates_def c3_def ptr_def)
  have full2: "set_full c2 ?s"
    using r rN by (intro filled_full [OF c2(3) c1(2) s(1)]) simp
  have wf3: "ddc_wf c3"
    unfolding c3_def by (rule ptrs_wf [OF c2(2)]) simp
  have map3: "dir_map c3 = dir_map c" and sc3: "same_consts c c3" and rep3: "replaced c3 = replaced c"
    using r rN filled_dir_map [OF c2(3) c1(2) c2(2)] same_consts_trans [OF c1(3) filled_consts(1) [OF c2(3)]]
      filled_same(6) [OF c2(3)] c1(4) by (simp_all add: c3_def same_consts_def)
  have keep3: "d_heap (m_directory c3) p = Some e" if "d_heap (m_directory c) p = Some e" "de_address e \<noteq> INVALID_ADDRESS" for p e
  proof -
    have "d_heap (m_directory c1) p = Some e"
      using keep that by blast
    then have "d_heap (m_directory c2) p = Some e"
      using c2(3) unfolding filled_def by (metis domI)
    then show ?thesis
      by (simp add: c3_def)
  qed
  have cand: "\<exists>e. d_heap (m_directory c3) p = Some e \<and> de_address e \<noteq> INVALID_ADDRESS \<and>
        set_of c (de_address e) = ?s \<and> dir_find c3 (de_address e) = Some p \<and> p \<notin> set (replaced c3)" if p: "p \<in> set ps" for p
  proof -
    let ?A = "unat (ddc_associativity c)"
    obtain w where w: "w < ?A" "table c2 ! (?s * ?A + w) = Some p"
      using c2(5) p unfolding as by blast
    have i: "?s * ?A + w < length (table c2)"
      using slot_less [OF ddc_wf_geom [OF c2(2)], of ?s w] s(1) w(1) filled_same(1,2) [OF c2(3)] as by simp
    obtain e where e: "d_heap (m_directory c2) p = Some e"
      using ddc_wf_slot(1) [OF c2(2) i w(2)] by blast
    have ae: "entry_addr (m_directory c2) p = de_address e" "de_address e \<noteq> INVALID_ADDRESS"
      using full2 w e unfolding set_full_iff filled_same(1) [OF c2(3)] as by (auto simp: entry_addr_def)
    have "set_of c2 = set_of c"
      using filled_same(4) [OF c2(3)] so by simp
    then have "set_of c (de_address e) = ?s"
      using ddc_wf_slot(6) [OF c2(2) i w(2)] ae w(1) filled_same(1) [OF c2(3)] as by simp
    moreover have "dir_find c2 (de_address e) = Some p"
      using dir_find_Some [OF c2(2) ae(2)] ddc_wf_slot(3) [OF c2(2) i w(2)] ae(1) by simp
    ultimately show ?thesis
      using e ae(2) ddc_wf_slot(2) [OF c2(2) i w(2)] by (simp add: c3_def)
  qed
  have full3: "set_full c3 ?s"
    using full2 by (simp add: c3_def)
  have len3: "length ps = unat (ddc_associativity c)"
    using c2(4) as by simp
  have live3: "set (live_list c) \<subseteq> set (live_list c3)"
  proof -
    have "live_list c3 = live_list c2"
      by (simp add: c3_def live_list_def)
    then show ?thesis
      using subset_trans [OF live1 filled_live_sub [OF c2(3)]] by simp
  qed
  show ?thesis
    by (intro exI [of _ ps] exI [of _ c3] conjI eq wf3 sc3 rep3 map3 full3 len3 live3 allI impI ballI)
      (erule conjE, erule (1) keep3, rule cand)
qed

lemma DramDirectoryCache_new_wf:
  assumes "0 < assoc" and "k < 32" and "unat (entries div assoc) = 2 ^ k" and "bs \<noteq> 0"
    and "DramDirectoryCache_new junk ptrs ty entries assoc bs hw mx trap = Inr c"
  shows "ddc_wf c" and "dir_map c = Map.empty" and "ddc_associativity c = assoc" and "unat (ddc_num_sets c) = 2 ^ k"
    and "m_max_num_sharers (m_directory c) = mx" and "d_heap (m_directory c) = Map.empty"
proof -
  let ?n = "unat (entries div assoc)"
  obtain d where d: "Directory_new junk ty entries hw mx trap = Inr d" and c: "c = \<lparr>m_directory = d,
      m_replacement_ptrs = map ptrs [0..<?n], m_replaced_directory_entry_list = [], m_total_entries = entries,
      ddc_associativity = assoc, ddc_num_sets = entries div assoc, ddc_block_size = bs,
      m_log_num_sets = of_int (floorLog2 (entries div assoc)), m_log_cache_block_size = of_int (floorLog2 bs)\<rparr>"
    using assms(5) by (auto simp: DramDirectoryCache_new_def Let_def)
  have t: "m_directory_entry_list d = replicate (unat entries) None" "m_num_entries d = entries" "d_heap d = Map.empty"
      "m_max_num_sharers d = mx"
    using d by (auto simp: Directory_new_def)
  have nt: "table c ! i = None" if "i < length (table c)" for i
    using that by (simp add: c t)
  have live: "live_list c = []"
    by (simp add: live_list_def c t)
  have fl: "0 \<le> floorLog2 bs" "2 ^ nat (floorLog2 bs) \<le> unat bs"
    using floorLog2_bounds [OF assms(4)] by simp_all
  have "unat bs < 2 ^ 32"
    using unat_lt_two_power [of bs] by simp
  then have "(2 :: nat) ^ nat (floorLog2 bs) < 2 ^ 32"
    using fl(2) by (rule le_less_trans [rotated])
  then have "nat (floorLog2 bs) < 32"
    by (rule power_less_imp_less_exp [rotated]) simp
  moreover have "of_int (floorLog2 bs) = (of_nat (nat (floorLog2 bs)) :: u32)"
    using fl(1) by simp
  ultimately have log: "unat (of_int (floorLog2 bs) :: u32) < 64"
    by (simp add: unat_of_nat)
  have "?n * unat assoc \<le> unat entries"
    by (simp add: unat_div)
  then have geom: "ddc_geom c"
    using assms(1-3) log by (auto simp: ddc_geom_def c t)
  show "ddc_wf c"
    by (rule ddc_wfI [OF geom]) (use nt in \<open>simp_all add: live, simp_all add: c t\<close>)
  show "dir_map c = Map.empty"
    by (simp add: dir_map_def dir_find_def live fun_eq_iff)
qed (use assms in \<open>auto simp: DramDirectoryCache_new_def Directory_new_def Let_def\<close>)

lemma dir_map_deref:
  "ddc_wf c \<Longrightarrow> a \<noteq> INVALID_ADDRESS \<Longrightarrow> dir_find c a = Some p \<Longrightarrow> dir_map c a = Some e \<longleftrightarrow> deref_entry (m_directory c) p = Inr e"
  by (auto simp: dir_map_def deref_entry_def split: option.splits)

lemma sharer_set_new_entry [simp]: "sharer_set (new_entry d) = {}"
  by (auto simp: sharer_set_iff core_in_def)

lemma deref_entry_iff: "deref_entry d p = Inr e \<longleftrightarrow> d_heap d p = Some e"
  by (simp add: deref_entry_def split: option.split)

subsection \<open>Properties\<close>

text \<open>
  C38. Looking an address up in the directory cache never fails on a well-formed cache. The entry of
  an address that has one, in the table or among the replaced entries, is found and nothing
  changes; an address without an entry gets a new uncached entry without sharers exactly if its
  set has room, and otherwise NULL is returned and the map is unchanged.
\<close>
theorem getDirectoryEntry_refines_map:
  assumes "ddc_wf c" and "a \<noteq> INVALID_ADDRESS"
  shows "\<exists>r t c'. getDirectoryEntry access c a modeled = Inr (r, t, c') \<and> ddc_wf c' \<and>
     (case dir_map c a of
        Some e \<Rightarrow> dir_map c' = dir_map c \<and> (\<exists>p. r = Some p \<and> deref_entry (m_directory c') p = Inr e)
      | None \<Rightarrow>
          if set_full c (set_of c a) then r = None \<and> dir_map c' = dir_map c
          else \<exists>p e. r = Some p \<and> deref_entry (m_directory c') p = Inr e \<and> dir_map c' = (dir_map c)(a \<mapsto> e) \<and>
                 de_address e = a \<and> m_dstate e = D_UNCACHED \<and> m_owner_id e = INVALID_CORE_ID \<and> sharer_set e = {})"
proof -
  obtain r t c' where c': "getDirectoryEntry access c a modeled = Inr (r, t, c')" "ddc_wf c'" "dir_find c' a = r"
    and sc: "same_consts c c'"
    and r: "case r of
        None \<Rightarrow> dir_map c a = None \<and> dir_map c' = dir_map c \<and> set_full c (set_of c a) \<and> set_full c' (set_of c a)
      | Some p \<Rightarrow> (if dir_map c a = None
                   then \<not> set_full c (set_of c a) \<and> dir_map c' = (dir_map c)(a \<mapsto> (new_entry (m_directory c))\<lparr>de_address := a\<rparr>)
                   else dir_map c' = dir_map c)"
    using getDirectoryEntry_spec [OF assms, of access modeled] by (elim exE conjE) (rule that)
  show ?thesis
  proof (cases r)
    case None
    with r c' show ?thesis
      by auto
  next
    case (Some p)
    have d: "deref_entry (m_directory c') p = Inr e" if "dir_map c' a = Some e" for e
      using dir_map_deref [OF c'(2) assms(2), of p e] c'(3) Some that by simp
    show ?thesis
    proof (cases "dir_map c a")
      case None
      let ?e = "(new_entry (m_directory c))\<lparr>de_address := a\<rparr>"
      have *: "\<not> set_full c (set_of c a)" "dir_map c' = (dir_map c)(a \<mapsto> ?e)"
        using r Some None by simp_all
      with d [of ?e] have "deref_entry (m_directory c') p = Inr ?e"
        by simp
      with * Some None c' show ?thesis
        by auto
    next
      case (Some e)
      with r \<open>r = Some p\<close> d [of e] c' show ?thesis
        by auto
    qed
  qed
qed

definition example_dir :: "DramDirectoryCache res" where
  \<comment> \<open>a full-map directory for four cores with one set of two entries\<close>
  "example_dir = DramDirectoryCache_new 7 (\<lambda>_. 0) ''full_map'' 2 2 64 4 4 None"

lemma example_dir_wf: "\<exists>c. example_dir = Inr c \<and> ddc_wf c \<and> dir_map c = Map.empty \<and> (\<forall>a. \<not> set_full c (set_of c a))"
proof -
  obtain c where c: "DramDirectoryCache_new 7 (\<lambda>_. 0) ''full_map'' 2 2 64 4 4 None = Inr c"
    by (simp add: DramDirectoryCache_new_def Directory_new_def parseDirectoryType_def Let_def)
  note n = DramDirectoryCache_new_wf [of 2 0 2 64, OF _ _ _ _ c, simplified]
  have "\<not> set_full c (set_of c a)" for a
    using ddc_geomD(2) [OF ddc_wf_geom [OF n(1)], of a] c
    by (auto simp: set_full_iff DramDirectoryCache_new_def Directory_new_def parseDirectoryType_def Let_def
        intro!: exI [of _ 0])
  with n c show ?thesis
    by (auto simp: example_dir_def)
qed

theorem getDirectoryEntry_refines_map_witness:
  "\<exists>c r t c'. example_dir = Inr c \<and> getDirectoryEntry 5 c 64 True = Inr (r, t, c') \<and> r \<noteq> None \<and> dom (dir_map c') = {64}"
proof -
  obtain c where c: "example_dir = Inr c" "ddc_wf c" "dir_map c = Map.empty" "\<not> set_full c (set_of c 64)"
    using example_dir_wf by blast
  have "(64 :: IntPtr) \<noteq> INVALID_ADDRESS"
    by (simp add: INVALID_ADDRESS_def)
  from getDirectoryEntry_refines_map [OF c(2) this, of 5 True] c show ?thesis
    by auto
qed

text \<open>
  C39. When the set of a new address is full, the candidates for replacement are entries of that
  set; replacing any of them gives the new address an uncached entry while the replaced entry is still
  found under its own address, and invalidating the replaced address then removes exactly this
  entry.
\<close>
theorem directory_replacement_correct:
  assumes "ddc_wf c" and "a \<noteq> INVALID_ADDRESS" and "dir_map c a = None" and "set_full c (set_of c a)"
  shows "\<exists>ps c1. getReplacementCandidates c a = Inr (ps, c1) \<and> ps \<noteq> [] \<and> dir_map c1 = dir_map c \<and>
     (\<forall>p \<in> set ps. \<exists>old q new c2 c3. deref_entry (m_directory c1) p = Inr old \<and> dir_map c (de_address old) = Some old \<and>
        replaceDirectoryEntry access c1 (de_address old) a modeled = Inr (q, (if modeled then access else 0), c2) \<and>
        ddc_wf c2 \<and> deref_entry (m_directory c2) q = Inr new \<and> m_dstate new = D_UNCACHED \<and> sharer_set new = {} \<and>
        dir_map c2 = (dir_map c)(a \<mapsto> new) \<and>
        invalidateDirectoryEntry c2 (de_address old) = Inr c3 \<and> ddc_wf c3 \<and>
        dir_map c3 = (dir_map c)(a \<mapsto> new, de_address old := None))"
proof -
  have no: "dir_find c a = None"
    using dir_map_dom [OF assms(1,2)] assms(3) by simp
  obtain ps c1 where c1: "getReplacementCandidates c a = Inr (ps, c1)" "ddc_wf c1" "same_consts c c1" "replaced c1 = replaced c"
     "dir_map c1 = dir_map c" "set_full c1 (set_of c a)" "length ps = unat (ddc_associativity c)"
     and cand: "\<forall>p \<in> set ps. \<exists>e. d_heap (m_directory c1) p = Some e \<and> de_address e \<noteq> INVALID_ADDRESS \<and>
        set_of c (de_address e) = set_of c a \<and> dir_find c1 (de_address e) = Some p \<and> p \<notin> set (replaced c1)"
    using getReplacementCandidates_spec [OF assms(1,2) no assms(4)] by (elim exE conjE) (rule that)
  have "ps \<noteq> []"
    using c1(7) ddc_geomD(1) [OF ddc_wf_geom [OF assms(1)]] by auto
  moreover have "\<exists>old q new c2 c3. deref_entry (m_directory c1) p = Inr old \<and> dir_map c (de_address old) = Some old \<and>
        replaceDirectoryEntry access c1 (de_address old) a modeled = Inr (q, (if modeled then access else 0), c2) \<and>
        ddc_wf c2 \<and> deref_entry (m_directory c2) q = Inr new \<and> m_dstate new = D_UNCACHED \<and> sharer_set new = {} \<and>
        dir_map c2 = (dir_map c)(a \<mapsto> new) \<and>
        invalidateDirectoryEntry c2 (de_address old) = Inr c3 \<and> ddc_wf c3 \<and>
        dir_map c3 = (dir_map c)(a \<mapsto> new, de_address old := None)" if p: "p \<in> set ps" for p
  proof -
    obtain old where old: "d_heap (m_directory c1) p = Some old" "de_address old \<noteq> INVALID_ADDRESS"
        "set_of c (de_address old) = set_of c a" "dir_find c1 (de_address old) = Some p" "p \<notin> set (replaced c1)"
      using cand p by blast
    have om: "dir_map c1 (de_address old) = Some old"
      using old by (simp add: dir_map_def)
    have no1: "dir_find c1 a = None"
      using dir_map_dom [OF c1(2) assms(2)] c1(5) assms(3) by simp
    then have ne: "de_address old \<noteq> a"
      using old(4) by auto
    have so: "set_of c1 = set_of c"
      by (rule same_consts_set_of [OF c1(3)])
    let ?new = "(new_entry (m_directory c1))\<lparr>de_address := a\<rparr>"
    obtain q c2 where c2: "replaceDirectoryEntry access c1 (de_address old) a modeled = Inr (q, (if modeled then access else 0), c2)"
       "ddc_wf c2" "replaced c2 = replaced c1 @ [p]" "dir_map c2 = (dir_map c1)(a \<mapsto> ?new)" "dir_find c2 a = Some q"
       "\<forall>x e. d_heap (m_directory c1) x = Some e \<longrightarrow> d_heap (m_directory c2) x = Some e"
      using replaceDirectoryEntry_spec [OF c1(2) assms(2) old(2) no1 old(4,5), of access modeled] old(3) c1(6) so by auto
    have q: "deref_entry (m_directory c2) q = Inr ?new"
      using dir_map_deref [OF c2(2) assms(2) c2(5), of ?new] c2(4) by simp
    have p2: "dir_find c2 (de_address old) = Some p"
      unfolding dir_find_Some [OF c2(2) old(2)] using c2(3,6) old(1) by (simp add: live_iff entry_addr_def)
    obtain c3 where c3: "invalidateDirectoryEntry c2 (de_address old) = Inr c3" "ddc_wf c3" "dir_map c3 = (dir_map c2)(de_address old := None)"
      using invalidateDirectoryEntry_spec [OF c2(2) old(2) p2] c2(3) by auto
    show ?thesis
      using old(1) om c2 c3 q unfolding c1(5)
      by (intro exI [of _ old] exI [of _ q] exI [of _ ?new] exI [of _ c2] exI [of _ c3]) (simp add: deref_entry_iff)
  qed
  ultimately show ?thesis
    using c1(1,5) by blast
qed

lemma example_full_eval:
  "rbind (DramDirectoryCache_new 7 (\<lambda>_. 0) ''full_map'' 1 1 64 4 4 None) (\<lambda>c0.
   rbind (getDirectoryEntry 0 c0 64 False) (\<lambda>(r, t, c).
   Inr (r, dir_map c 128 = None, set_full c (set_of c 128)))) = Inr (Some 0, True, True)"
  by code_simp

lemma example_full:
  "\<exists>c0 t c. DramDirectoryCache_new 7 (\<lambda>_. 0) ''full_map'' 1 1 64 4 4 None = Inr c0 \<and>
     getDirectoryEntry 0 c0 64 False = Inr (Some 0, t, c) \<and> ddc_wf c \<and> dir_map c 128 = None \<and> set_full c (set_of c 128)"
proof -
  obtain c0 t c where c0: "DramDirectoryCache_new 7 (\<lambda>_. 0) ''full_map'' 1 1 64 4 4 None = Inr c0"
    and c: "getDirectoryEntry 0 c0 64 False = Inr (Some 0, t, c)" "dir_map c 128 = None" "set_full c (set_of c 128)"
    using example_full_eval by auto
  have "ddc_wf c0"
    using DramDirectoryCache_new_wf(1) [of 1 0 1 64, OF _ _ _ _ c0] by simp
  then have "ddc_wf c"
    using getDirectoryEntry_spec [of c0 64 0 False] c(1) by (auto simp: INVALID_ADDRESS_def)
  with c0 c show ?thesis
    by blast
qed

theorem directory_replacement_correct_witness:
  "\<exists>c0 t c ps c1. DramDirectoryCache_new 7 (\<lambda>_. 0) ''full_map'' 1 1 64 4 4 None = Inr c0 \<and>
     getDirectoryEntry 0 c0 64 False = Inr (Some 0, t, c) \<and> getReplacementCandidates c 128 = Inr (ps, c1) \<and> ps \<noteq> []"
proof -
  obtain c0 t c where c: "DramDirectoryCache_new 7 (\<lambda>_. 0) ''full_map'' 1 1 64 4 4 None = Inr c0"
     "getDirectoryEntry 0 c0 64 False = Inr (Some 0, t, c)" "ddc_wf c" "dir_map c 128 = None" "set_full c (set_of c 128)"
    using example_full by blast
  have "(128 :: IntPtr) \<noteq> INVALID_ADDRESS"
    by (simp add: INVALID_ADDRESS_def)
  from directory_replacement_correct [OF c(3) this c(4,5), of 0 False] c(1,2) show ?thesis
    by blast
qed

end
