(* ===== verification/NucaCache.thy ===== *)
theory NucaCache
  imports Reconf MemMgr
begin

section \<open>The NUCA cache\<close>

text \<open>
  \<^verbatim>\<open>parametric_dram_directory_msi/nuca_cache.{h,cc}\<close>: the slice of a shared cache that sits
  beside the tag directory, on top of the cache model. A queue model
  (\<^verbatim>\<open>performance_model/queue_model.h\<close>) is an object with one virtual method, here a value of a
  codatatype whose selector is the method. Access times are the latencies the component periods
  give. \<open>write\<close> leaves its result parameters \<open>eviction\<close> and \<open>evict_address\<close> alone when it hits:
  what they held before is an argument.
\<close>

codatatype queue_model =
  QueueModel (computeQueueDelay: "SubsecondTime \<Rightarrow> SubsecondTime \<Rightarrow> core_id_t \<Rightarrow> SubsecondTime \<times> queue_model")

record NucaCache =
  nc_core_id :: core_id_t
  nc_block_size :: u32
  nc_data_access_time :: SubsecondTime
  nc_tags_access_time :: SubsecondTime
  nc_data_array_bandwidth :: ComponentBandwidth
  nc_cache :: cache
  nc_queue_model :: "queue_model option"
  nc_reads :: u64
  nc_writes :: u64
  nc_read_misses :: u64
  nc_write_misses :: u64

definition NucaCache_new ::
    "(string \<Rightarrow> int) \<Rightarrow> int \<Rightarrow> bool \<Rightarrow> core_id_t \<Rightarrow> AddressHomeLookup option \<Rightarrow> u32 \<Rightarrow> u32 \<Rightarrow> u32 \<Rightarrow> string \<Rightarrow> string \<Rightarrow>
     SubsecondTime \<Rightarrow> SubsecondTime \<Rightarrow> ComponentBandwidth \<Rightarrow> queue_model option \<Rightarrow> NucaCache res" where
  \<comment> \<open>the first three arguments are those of \<open>Cache_new\<close>, the last the configured queue model\<close>
  "NucaCache_new indet attempts fault_injection core_id home_lookup cache_block_size num_sets associativity policy_name
     hash_function data_access_time tags_access_time bandwidth queue_model =
     rbind (parseAddressHash hash_function) (\<lambda>hash.
     rbind (Cache_new indet attempts fault_injection ''nuca-cache'' num_sets associativity cache_block_size policy_name
       PR_L1_CACHE hash None home_lookup) (\<lambda>cache.
     Inr \<lparr>nc_core_id = core_id, nc_block_size = cache_block_size, nc_data_access_time = data_access_time,
          nc_tags_access_time = tags_access_time, nc_data_array_bandwidth = bandwidth, nc_cache = cache,
          nc_queue_model = queue_model, nc_reads = 0, nc_writes = 0, nc_read_misses = 0, nc_write_misses = 0\<rparr>))"

definition accessDataArray ::
    "NucaCache \<Rightarrow> SubsecondTime \<Rightarrow> nat option \<Rightarrow> ('a mem_env_scheme, SubsecondTime \<times> NucaCache) sm" where
  "accessDataArray n t_start perf =
     sseq (perf_updateTime perf t_start T_UNKNOWN) (
     sbind (case nc_queue_model n of
              Some qm \<Rightarrow>
                sbind (slift (bw_getRoundedLatency (nc_data_array_bandwidth n) (ucast (8 * nc_block_size n)))) (\<lambda>processing_time.
                case computeQueueDelay qm t_start processing_time (nc_core_id n) of (d, qm) \<Rightarrow>
                let queue_delay = processing_time + d in
                sseq (perf_updateTime perf (t_start + processing_time) T_NUCA_BUS) (
                sseq (perf_updateTime perf (t_start + queue_delay) T_NUCA_QUEUE) (
                sret (queue_delay, n\<lparr>nc_queue_model := Some qm\<rparr>))))
            | None \<Rightarrow> sret (0, n)) (\<lambda>(queue_delay, n).
     sseq (perf_updateTime perf (t_start + queue_delay + nc_data_access_time n) T_NUCA_DATA) (
     sret (queue_delay + nc_data_access_time n, n))))"

definition nuca_read ::
    "NucaCache \<Rightarrow> IntPtr \<Rightarrow> u8 list \<Rightarrow> SubsecondTime \<Rightarrow> nat option \<Rightarrow> bool \<Rightarrow>
     ('a mem_env_scheme, SubsecondTime \<times> where_t \<times> u8 list \<times> NucaCache) sm" where
  \<comment> \<open>returns the latency, where it hit and the contents of \<open>data_buf\<close>\<close>
  "nuca_read n address data_buf t perf cnt =
     sseq (perf_updateTime perf t T_UNKNOWN) (
     sbind (slift (peekSingleLine (nc_cache n) address False False)) (\<lambda>(block_info, c).
     let n = n\<lparr>nc_cache := c\<rparr>; latency = nc_tags_access_time n in
     sseq (perf_updateTime perf (t + latency) T_NUCA_TAGS) (
     sbind (case block_info of
              Some _ \<Rightarrow>
                sbind (slift (accessSingleLine c address LOAD (Some data_buf) (unat (nc_block_size n)) (t + latency) True)) (\<lambda>(_, out, c).
                let n = n\<lparr>nc_cache := c\<rparr> in
                sbind (accessDataArray n (t + latency) perf) (\<lambda>(l, n).
                sret (latency + l, HW_NUCA_CACHE, (case out of Some d \<Rightarrow> d | None \<Rightarrow> data_buf), n)))
            | None \<Rightarrow>
                sret (latency, HW_MISS, data_buf, if cnt then n\<lparr>nc_read_misses := nc_read_misses n + 1\<rparr> else n))
       (\<lambda>(latency, hit_where, data_buf, n).
     sret (latency, hit_where, data_buf, if cnt then n\<lparr>nc_reads := nc_reads n + 1\<rparr> else n)))))"

definition nuca_write ::
    "NucaCache \<Rightarrow> IntPtr \<Rightarrow> u8 list option \<Rightarrow> bool \<Rightarrow> IntPtr \<Rightarrow> u8 list \<Rightarrow> SubsecondTime \<Rightarrow> bool \<Rightarrow>
     ('a mem_env_scheme, SubsecondTime \<times> where_t \<times> bool \<times> IntPtr \<times> u8 list \<times> NucaCache) sm" where
  \<comment> \<open>returns the latency, where it hit, \<open>eviction\<close>, \<open>evict_address\<close> and the contents of \<open>evict_buf\<close>\<close>
  "nuca_write n address data_buf eviction0 evict_address0 evict_buf t cnt =
     sbind (slift (peekSingleLine (nc_cache n) address False False)) (\<lambda>(block_info, c).
     let n = n\<lparr>nc_cache := c\<rparr>; latency = nc_tags_access_time n in
     sbind (case block_info of
              Some (i, w) \<Rightarrow>
                let c = upd_line c i w (\<lambda>b. b\<lparr>m_cstate := MODIFIED\<rparr>) in
                sbind (slift (accessSingleLine c address STORE data_buf (unat (nc_block_size n)) (t + latency) True)) (\<lambda>(_, _, c).
                let n = n\<lparr>nc_cache := c\<rparr> in
                sbind (accessDataArray n (t + latency) None) (\<lambda>(l, n).
                sret (latency + l, HW_NUCA_CACHE, eviction0, evict_address0, evict_buf, n)))
            | None \<Rightarrow>
                sbind (slift (insertSingleLine c address data_buf CacheBlockInfo_create (Some evict_buf) (t + latency) False)) (\<lambda>(ev, evict_address, c).
                let n = n\<lparr>nc_cache := c\<rparr>;
                    dirty = (eviction ev \<and> m_cstate (evict_block_info ev) = MODIFIED)
                in sret (latency, HW_MISS, dirty, evict_address,
                         (case evict_buff ev of Some d \<Rightarrow> d | None \<Rightarrow> evict_buf),
                         if cnt then n\<lparr>nc_write_misses := nc_write_misses n + 1\<rparr> else n)))
       (\<lambda>(latency, hit_where, eviction, evict_address, evict_buf, n).
     sret (latency, hit_where, eviction, evict_address, evict_buf,
           if cnt then n\<lparr>nc_writes := nc_writes n + 1\<rparr> else n)))"

subsection \<open>Lemmas\<close>

lemma read_line_out:
  assumes "read_line uri info s w off (Some d) (length d) u = Inr (out, info', s')"
  shows "\<exists>d'. out = Some d' \<and> length d' = length d"
  using assms by (auto simp: read_line_def memcpy_out_def split: option.splits if_splits)

lemma inject_base: "inject cb c addr i w off n t = Inr c' \<Longrightarrow> c_base c' = c_base c"
  by (auto simp: inject_def Let_def upd_set_def split: option.splits)

lemma accessSingleLine_out:
  assumes "accessSingleLine c addr ty buf n t u = Inr (p, out, c')"
  shows "c_base c' = c_base c" and "buf = Some d \<Longrightarrow> length d = n \<Longrightarrow> \<exists>d'. out = Some d' \<and> length d' = n"
proof -
  obtain tag i off where sp: "splitAddress_offset (c_base c) addr = Inr (tag, i, off)" "unat i < length (m_sets c)"
    using assms by (auto simp: accessSingleLine_def)
  have "c_base c' = c_base c \<and> (\<forall>d. buf = Some d \<and> length d = n \<longrightarrow> (\<exists>d'. out = Some d' \<and> length d' = n))"
  proof (cases "find_line (m_sets c ! unat i) tag")
    case None
    with assms sp show ?thesis
      by (auto simp: accessSingleLine_def)
  next
    case (Some w)
    show ?thesis
    proof (cases ty)
      case LOAD
      with assms sp Some show ?thesis
        by (auto simp: accessSingleLine_def upd_set_def dest!: read_line_out dest: inject_base)
    next
      case STORE
      with assms sp Some show ?thesis
        by (auto simp: accessSingleLine_def upd_set_def dest!: inject_base)
    qed
  qed
  then show "c_base c' = c_base c" and "buf = Some d \<Longrightarrow> length d = n \<Longrightarrow> \<exists>d'. out = Some d' \<and> length d' = n"
    by auto
qed

lemma insertAt_evict:
  assumes "insertAt s i b fb ei (Some eb) = Inr (ev, s')" and "length eb = m_blocksize s"
  shows "\<exists>d. evict_buff ev = Some d \<and> length d = m_blocksize s"
  using assms by (auto simp: insertAt_def memcpy_out_def Let_def split: if_splits option.splits)

lemma after_insert_base: "after_insert c addr tag i t = Inr c' \<Longrightarrow> c_base c' = c_base c"
  by (auto simp: after_insert_def split: option.splits dest: inject_base)

lemma insertSingleLine_evict:
  assumes "insertSingleLine c addr fb ei (Some eb) t False = Inr (ev, ea, c')" and "cache_wf c"
    and "length eb = unat (cb_blocksize (c_base c))"
  shows "c_base c' = c_base c" and "\<exists>d. evict_buff ev = Some d \<and> length d = length eb"
proof -
  obtain tag i idx info s s' where sp: "splitAddress (c_base c) addr = Inr (tag, i)" "unat i < length (m_sets c)"
    and g: "getReplacementIndex (m_set_info c) (m_sets c ! unat i) = Inr (idx, info, s)"
    and ins: "insertAt s idx (CacheBlockInfo_create\<lparr>m_tag := tag\<rparr>) fb ei (Some eb) = Inr (ev, s')"
    and af: "after_insert ((upd_set c (unat i) s')\<lparr>m_set_info := info\<rparr>) addr tag i t = Inr c'"
    using assms(1) by (auto simp: insertSingleLine_def set_insert_def Let_def)
  show "c_base c' = c_base c"
    using after_insert_base [OF af] by (simp add: upd_set_def)
  have ok: "set_ok (c_base c) (unat i) (m_sets c ! unat i)"
    using assms(2) sp(2) by (simp add: cache_wf_def)
  then have "0 < m_associativity (m_sets c ! unat i)"
    by (simp add: set_ok_def set_wf_def)
  then have "s = moveToMRU idx (m_sets c ! unat i)"
    using g by (rule getReplacementIndex_range)
  then have "m_blocksize s = m_blocksize (m_sets c ! unat i)"
    using moveToMRU_frame [of idx "m_sets c ! unat i"] by auto
  also have "\<dots> = length eb"
    using ok assms(3) by (simp add: set_ok_def)
  finally show "\<exists>d. evict_buff ev = Some d \<and> length d = length eb"
    using insertAt_evict [OF ins] by simp
qed

lemma peekSingleLine_private:
  assumes "cache_wf c" and "splitAddress (c_base c) addr = Inr (t, i)"
  shows "peekSingleLine c addr False False = Inr (map_option (\<lambda>w. (unat i, w)) (find_line (m_sets c ! unat i) t), c)"
  using assms(2) cache_wf_set(2) [OF assms] by (auto simp: peekSingleLine_def split: option.split)

lemma cache_map_find:
  assumes "cache_wf c" and "splitAddress (c_base c) addr = Inr (t, i)" and "t \<noteq> - 1"
  shows "cache_map c t = map_option (\<lambda>w. m_cache_block_info_array (m_sets c ! unat i) ! w) (find_line (m_sets c ! unat i) t)"
  unfolding cache_wf_set(5) [OF assms(1,2)] using assms(3) by (simp add: contents_def)

lemma upd_line_map:
  assumes "cache_wf c" and "splitAddress (c_base c) addr = Inr (t, i)" and "t \<noteq> - 1"
    and "find_line (m_sets c ! unat i) t = Some w" and "\<And>b. m_tag (f b) = m_tag b"
  shows "cache_wf (upd_line c (unat i) w f)"
    and "\<exists>b. cache_map c t = Some b \<and> cache_map (upd_line c (unat i) w f) = (cache_map c)(t \<mapsto> f b)"
    and "c_base (upd_line c (unat i) w f) = c_base c"
proof -
  note s = cache_wf_set [OF assms(1,2)]
  let ?s = "m_sets c ! unat i"
  note w = find_line_SomeD [OF assms(4)]
  note l = line_tag_set_ok [where f = f, OF s(3) w(1) assms(5), folded upd_way_def]
  have tag: "m_tag (m_cache_block_info_array ?s ! w) = t"
    using w by simp
  show "cache_wf (upd_line c (unat i) w f)"
    unfolding upd_line_def by (rule cache_wf_upd [OF assms(1) l(1)]) (use s(6) in simp)
  have m: "cache_map c t = Some (m_cache_block_info_array ?s ! w)"
    using cache_map_find [OF assms(1-3)] assms(4) by simp
  have "cache_map (upd_line c (unat i) w f) = (cache_map c)(t \<mapsto> f (m_cache_block_info_array ?s ! w))"
  proof
    fix u
    have "contents (upd_way ?s w f) = (contents ?s)(t \<mapsto> f (m_cache_block_info_array ?s ! w))"
      using l(2) tag assms(3) by (simp add: isValid_def)
    then show "cache_map (upd_line c (unat i) w f) u = ((cache_map c)(t \<mapsto> f (m_cache_block_info_array ?s ! w))) u"
      unfolding upd_line_def cache_map_upd [OF s(1)] using s(4) by (auto simp: cache_map_def)
  qed
  with m show "\<exists>b. cache_map c t = Some b \<and> cache_map (upd_line c (unat i) w f) = (cache_map c)(t \<mapsto> f b)"
    by blast
  show "c_base (upd_line c (unat i) w f) = c_base c"
    by (simp add: upd_line_def)
qed

subsection \<open>The slice as a map from tags to lines\<close>

definition nuca_wf :: "NucaCache \<Rightarrow> bool" where
  "nuca_wf n \<longleftrightarrow> cache_wf (nc_cache n) \<and> nc_block_size n = cb_blocksize (c_base (nc_cache n)) \<and>
     (nc_queue_model n \<noteq> None \<longrightarrow> nc_data_array_bandwidth n \<noteq> 0)"

definition nuca_tag :: "NucaCache \<Rightarrow> IntPtr \<Rightarrow> IntPtr" where
  "nuca_tag n address = drop_bit (unat (cb_log_blocksize (c_base (nc_cache n)))) address"

definition nuca_map :: "NucaCache \<Rightarrow> IntPtr \<rightharpoonup> cache_block_info" where
  "nuca_map n = cache_map (nc_cache n)"

definition block_address :: "NucaCache \<Rightarrow> IntPtr \<Rightarrow> bool" where
  \<comment> \<open>the address of a block, other than the one whose tag marks a free line\<close>
  "block_address n address \<longleftrightarrow> address AND ucast (nc_block_size n - 1) = 0 \<and> nuca_tag n address \<noteq> - 1"

definition nuca_next :: "NucaCache \<Rightarrow> NucaCache \<Rightarrow> bool" where
  \<comment> \<open>what every operation keeps\<close>
  "nuca_next n n' \<longleftrightarrow> nuca_wf n' \<and> c_base (nc_cache n') = c_base (nc_cache n) \<and> nc_block_size n' = nc_block_size n"

lemma nuca_next_address: "nuca_next n n' \<Longrightarrow> block_address n' = block_address n \<and> nuca_tag n' = nuca_tag n"
  by (intro conjI ext) (simp_all add: nuca_next_def block_address_def nuca_tag_def)

lemma nuca_next_trans: "nuca_next n n' \<Longrightarrow> nuca_next n' n'' \<Longrightarrow> nuca_next n n''"
  by (simp add: nuca_next_def)

lemma bw_getRoundedLatency_ok: "bw \<noteq> 0 \<Longrightarrow> \<exists>t. bw_getRoundedLatency bw b = Inr t"
  by (simp add: bw_getRoundedLatency_def Let_def udiv_def)

lemma block_address_split:
  assumes "nuca_wf n" and "block_address n address"
  obtains i where "splitAddress (c_base (nc_cache n)) address = Inr (nuca_tag n address, i)"
    and "splitAddress_offset (c_base (nc_cache n)) address = Inr (nuca_tag n address, i, 0)"
proof -
  have "CacheBase_wf (c_base (nc_cache n))"
    using assms(1) by (simp add: nuca_wf_def cache_wf_def)
  then obtain i where i: "splitAddress (c_base (nc_cache n)) address = Inr (nuca_tag n address, i)"
    unfolding nuca_tag_def by (rule splitAddress_ok)
  moreover have "address AND ucast (cb_blocksize (c_base (nc_cache n)) - 1) = 0"
    using assms by (simp add: block_address_def nuca_wf_def)
  ultimately have "splitAddress_offset (c_base (nc_cache n)) address = Inr (nuca_tag n address, i, 0)"
    by (simp add: splitAddress_offset_def)
  with i show ?thesis
    by (rule that)
qed

lemma quiet_accessDataArray:
  assumes "nuca_wf n" and "perf_valid s perf"
  shows "quiet stop (accessDataArray n t perf) (\<lambda>(_, n'). \<exists>q. n' = n\<lparr>nc_queue_model := q\<rparr> \<and> nuca_wf n') s"
proof -
  have n: "n\<lparr>nc_queue_model := nc_queue_model n\<rparr> = n"
    by (cases n) simp
  show ?thesis
    unfolding accessDataArray_def
  proof (intro quiet_sseq quiet_env assms(2), rule quiet_sbind)
    fix s1
    assume "same_env s s1"
    then have pv: "perf_valid s1 perf"
      using assms(2) by simp
    show "quiet stop (case nc_queue_model n of
              Some qm \<Rightarrow>
                sbind (slift (bw_getRoundedLatency (nc_data_array_bandwidth n) (ucast (8 * nc_block_size n)))) (\<lambda>processing_time.
                case computeQueueDelay qm t processing_time (nc_core_id n) of (d, qm) \<Rightarrow>
                let queue_delay = processing_time + d in
                sseq (perf_updateTime perf (t + processing_time) T_NUCA_BUS) (
                sseq (perf_updateTime perf (t + queue_delay) T_NUCA_QUEUE) (
                sret (queue_delay, n\<lparr>nc_queue_model := Some qm\<rparr>))))
            | None \<Rightarrow> sret (0, n)) (\<lambda>(_, n'). \<exists>q. n' = n\<lparr>nc_queue_model := q\<rparr> \<and> nuca_wf n') s1"
    proof (cases "nc_queue_model n")
      case None
      have "\<exists>q. n = n\<lparr>nc_queue_model := q\<rparr> \<and> nuca_wf n"
        using assms(1) n by (intro exI [of _ "nc_queue_model n"]) simp
      then show ?thesis
        unfolding None option.case by (intro quiet_sret) simp
    next
      case (Some qm)
      then have bw: "nc_data_array_bandwidth n \<noteq> 0"
        using assms(1) by (simp add: nuca_wf_def)
      have q: "nuca_wf (n\<lparr>nc_queue_model := q\<rparr>)" for q
        using assms(1) bw by (simp add: nuca_wf_def)
      obtain pt where pt: "bw_getRoundedLatency (nc_data_array_bandwidth n) (ucast (8 * nc_block_size n)) = Inr pt"
        using bw_getRoundedLatency_ok [OF bw] by blast
      obtain d qm' where "computeQueueDelay qm t pt (nc_core_id n) = (d, qm')"
        by fastforce
      then show ?thesis
        unfolding Some pt option.case
        by (intro quiet_sbind [OF quiet_slift [where P = "\<lambda>x. x = pt"]])
          (auto simp: Let_def pv q intro!: quiet_sret quiet_sseq quiet_env)
    qed
    show "quiet stop (case x of (queue_delay, n) \<Rightarrow>
            sseq (perf_updateTime perf (t + queue_delay + nc_data_access_time n) T_NUCA_DATA)
              (sret (queue_delay + nc_data_access_time n, n)))
          (\<lambda>(_, n'). \<exists>q. n' = n\<lparr>nc_queue_model := q\<rparr> \<and> nuca_wf n') s2"
      if s2: "same_env s1 s2" and x: "case x of (_, n') \<Rightarrow> \<exists>q. n' = n\<lparr>nc_queue_model := q\<rparr> \<and> nuca_wf n'" for x s2
    proof -
      obtain d q where "x = (d, n\<lparr>nc_queue_model := q\<rparr>)" "nuca_wf (n\<lparr>nc_queue_model := q\<rparr>)"
        using x by auto
      then show ?thesis
        using s2 pv by (auto intro!: quiet_sret quiet_sseq quiet_env)
    qed
  qed
qed

lemma nuca_next_cache:
  assumes "nuca_wf n" and "cache_wf c" and "c_base c = c_base (nc_cache n)"
  shows "nuca_next n (n\<lparr>nc_cache := c\<rparr>)" "nuca_map (n\<lparr>nc_cache := c\<rparr>) = cache_map c"
  using assms by (simp_all add: nuca_next_def nuca_wf_def nuca_map_def)

lemma nuca_count [simp]:
  "nuca_next n (n'\<lparr>nc_reads := a\<rparr>) = nuca_next n n'" "nuca_map (n'\<lparr>nc_reads := a\<rparr>) = nuca_map n'"
  "nuca_next n (n'\<lparr>nc_writes := a\<rparr>) = nuca_next n n'" "nuca_map (n'\<lparr>nc_writes := a\<rparr>) = nuca_map n'"
  "nuca_next n (n'\<lparr>nc_read_misses := a\<rparr>) = nuca_next n n'" "nuca_map (n'\<lparr>nc_read_misses := a\<rparr>) = nuca_map n'"
  "nuca_next n (n'\<lparr>nc_write_misses := a\<rparr>) = nuca_next n n'" "nuca_map (n'\<lparr>nc_write_misses := a\<rparr>) = nuca_map n'"
  "nuca_map (n'\<lparr>nc_queue_model := q\<rparr>) = nuca_map n'"
  by (simp_all add: nuca_next_def nuca_wf_def nuca_map_def)

lemma nuca_next_queue: "nuca_next n n' \<Longrightarrow> nuca_wf (n'\<lparr>nc_queue_model := q\<rparr>) \<Longrightarrow> nuca_next n (n'\<lparr>nc_queue_model := q\<rparr>)"
  by (simp add: nuca_next_def)

lemma nuca_next_wf: "nuca_next n n' \<Longrightarrow> nuca_wf n'"
  by (simp add: nuca_next_def)

lemma nuca_next_refl: "nuca_wf n \<Longrightarrow> nuca_next n n"
  by (simp add: nuca_next_def)

lemma nuca_access:
  assumes "nuca_wf n" and "block_address n address" and "cache_wf c" and "c_base c = c_base (nc_cache n)"
    and "case buf of None \<Rightarrow> True | Some d \<Rightarrow> length d = unat (nc_block_size n)"
  obtains p out c' where "accessSingleLine c address ty buf (unat (nc_block_size n)) t True = Inr (p, out, c')"
    and "nuca_next n (n\<lparr>nc_cache := c'\<rparr>)" and "nuca_map (n\<lparr>nc_cache := c'\<rparr>) = cache_map c"
    and "\<forall>d. buf = Some d \<longrightarrow> (\<exists>d'. out = Some d' \<and> length d' = length d)"
proof -
  obtain i where sp: "splitAddress_offset (c_base c) address = Inr (nuca_tag n address, i, 0)"
    unfolding assms(4) using assms(1,2) by (rule block_address_split)
  have bs: "unat (nc_block_size n) = unat (cb_blocksize (c_base c))" "cb_blocksize (c_base c) \<noteq> 0"
    using assms(1,3,4) by (simp_all add: nuca_wf_def cache_wf_def CacheBase_wf_def)
  have t: "nuca_tag n address \<noteq> - 1"
    using assms(2) by (simp add: block_address_def)
  have "0 < unat (nc_block_size n)" "unat (0 :: u32) + unat (nc_block_size n) \<le> unat (cb_blocksize (c_base c))"
    using bs by (simp_all add: unat_gt_0)
  moreover have "case buf of None \<Rightarrow> True | Some d \<Rightarrow> unat (nc_block_size n) \<le> length d"
    using assms(5) by (simp split: option.splits)
  ultimately obtain p out c' where a: "accessSingleLine c address ty buf (unat (nc_block_size n)) t True = Inr (p, out, c')"
      "cache_map c' = cache_map c" "cache_wf c'"
    using accessSingleLine_step [OF assms(3) sp t, of "unat (nc_block_size n)" buf ty "t" True] by blast
  note o = accessSingleLine_out [OF a(1)]
  note c = nuca_next_cache [OF assms(1) a(3) trans [OF o(1) assms(4)]]
  show ?thesis
    by (rule that [OF a(1) c(1)]) (use c(2) a(2) o(2) assms(5) in auto)
qed

definition nuca_read_post :: "NucaCache \<Rightarrow> IntPtr \<Rightarrow> u8 list \<Rightarrow> SubsecondTime \<times> where_t \<times> u8 list \<times> NucaCache \<Rightarrow> bool" where
  "nuca_read_post n address buf = (\<lambda>(_, hit_where, buf', n').
     nuca_next n n' \<and> nuca_map n' = nuca_map n \<and> length buf' = length buf \<and>
     hit_where = (if nuca_map n (nuca_tag n address) = None then HW_MISS else HW_NUCA_CACHE))"

lemma quiet_nuca_read:
  assumes "nuca_wf n" and "block_address n address" and "perf_valid s perf" and "length buf = unat (nc_block_size n)"
  shows "quiet stop (nuca_read n address buf t perf cnt) (nuca_read_post n address buf) s"
proof -
  obtain i where sp: "splitAddress (c_base (nc_cache n)) address = Inr (nuca_tag n address, i)"
    using assms(1,2) by (rule block_address_split)
  have wf: "cache_wf (nc_cache n)" and t: "nuca_tag n address \<noteq> - 1"
    using assms(1,2) by (simp_all add: nuca_wf_def block_address_def)
  note pk = peekSingleLine_private [OF wf sp(1)] and f = cache_map_find [OF wf sp(1) t, folded nuca_map_def]
  have n: "n\<lparr>nc_cache := nc_cache n\<rparr> = n"
    by (cases n) simp
  show ?thesis
  proof (cases "find_line (m_sets (nc_cache n) ! unat i) (nuca_tag n address)")
    case None
    show ?thesis
      unfolding nuca_read_def pk None option.map Let_def
      by (intro quiet_sseq quiet_env assms(3), rule quiet_sbind [OF quiet_slift [where P = "\<lambda>x. x = (None, nc_cache n)"]])
        (use assms(1,3) None f in \<open>auto intro!: quiet_sseq quiet_env quiet_sret
           quiet_sbind [OF quiet_sret [where P = "nuca_read_post n address buf"]]
           simp: n nuca_read_post_def nuca_next_refl split: prod.split\<close>)
  next
    case (Some w)
    have acc: "quiet stop (sbind (slift (accessSingleLine (nc_cache n) address LOAD (Some buf) (unat (nc_block_size n)) now True)) (\<lambda>(_, out, c).
                let n = n\<lparr>nc_cache := c\<rparr> in
                sbind (accessDataArray n now perf) (\<lambda>(l, n).
                sret (latency + l, HW_NUCA_CACHE, (case out of Some d \<Rightarrow> d | None \<Rightarrow> buf), n))))
       (nuca_read_post n address buf) s'" if pv: "perf_valid s' perf" for now latency s'
    proof -
      have "case Some buf of None \<Rightarrow> True | Some d \<Rightarrow> length d = unat (nc_block_size n)"
        using assms(4) by simp
      then obtain p out c' where a: "accessSingleLine (nc_cache n) address LOAD (Some buf) (unat (nc_block_size n)) now True = Inr (p, out, c')"
          "nuca_next n (n\<lparr>nc_cache := c'\<rparr>)" "nuca_map (n\<lparr>nc_cache := c'\<rparr>) = nuca_map n"
          "\<forall>d. Some buf = Some d \<longrightarrow> (\<exists>d'. out = Some d' \<and> length d' = length d)"
        unfolding nuca_map_def [of n] by (rule nuca_access [OF assms(1,2) wf refl])
      show ?thesis
        unfolding a(1)
        by (rule quiet_sbind [OF quiet_slift [where P = "\<lambda>x. x = (p, out, c')"]])
         (use a(2-4) Some f pv in \<open>auto simp: nuca_read_post_def Let_def nuca_next_queue
           intro!: quiet_sbind [OF quiet_accessDataArray [OF nuca_next_wf [OF a(2)]]] quiet_sret\<close>)
    qed
    show ?thesis
      unfolding nuca_read_def pk Some option.map Let_def
      by (intro quiet_sseq quiet_env assms(3), rule quiet_sbind [OF quiet_slift [where P = "\<lambda>x. x = (Some (unat i, w), nc_cache n)"]])
        (use assms(1,3) in \<open>auto intro!: quiet_sseq quiet_env quiet_sret quiet_sbind [OF acc [unfolded Let_def]]
           simp: n nuca_read_post_def split: prod.split\<close>)
  qed
qed

lemma insertSingleLine_private:
  assumes "cache_wf c" and "splitAddress (c_base c) addr = Inr (t, i)" and "t \<noteq> - 1" and "cache_map c t = None"
    and "case fb of None \<Rightarrow> True | Some buf \<Rightarrow> unat (cb_blocksize (c_base c)) \<le> length buf"
  obtains ev evict_addr c' where "insertSingleLine c addr fb ei eb time False = Inr (ev, evict_addr, c')"
    and "cache_map c' = (if eviction ev then (cache_map c)(m_tag (evict_block_info ev) := None) else cache_map c)
                     (t \<mapsto> CacheBlockInfo_create\<lparr>m_tag := t\<rparr>)"
    and "eviction ev \<longrightarrow> cache_map c (m_tag (evict_block_info ev)) = Some (evict_block_info ev)"
    and "evict_addr = tagToAddress (c_base c) (m_tag (evict_block_info ev))" and "cache_wf c'"
proof (rule exE [OF insertSingleLine_map [OF assms, of False ei eb time]], simp)
qed (elim exE conjE, rule that)

definition nuca_write_post ::
    "NucaCache \<Rightarrow> IntPtr \<Rightarrow> bool \<Rightarrow> IntPtr \<Rightarrow> u8 list \<Rightarrow>
     SubsecondTime \<times> where_t \<times> bool \<times> IntPtr \<times> u8 list \<times> NucaCache \<Rightarrow> bool" where
  "nuca_write_post n address eviction0 evict_address0 evict_buf = (\<lambda>(_, hit_where, eviction, evict_address, evict_buf', n').
     nuca_next n n' \<and> length evict_buf' = length evict_buf \<and>
     (case nuca_map n (nuca_tag n address) of
        Some b \<Rightarrow> hit_where = HW_NUCA_CACHE \<and> eviction = eviction0 \<and> evict_address = evict_address0 \<and>
          nuca_map n' = (nuca_map n)(nuca_tag n address \<mapsto> b\<lparr>m_cstate := MODIFIED\<rparr>)
      | None \<Rightarrow> hit_where = HW_MISS \<and>
          (\<exists>victim. (\<forall>v. victim = Some v \<longrightarrow> nuca_map n (m_tag v) = Some v) \<and>
             nuca_map n' = (case victim of None \<Rightarrow> nuca_map n | Some v \<Rightarrow> (nuca_map n)(m_tag v := None))
                (nuca_tag n address \<mapsto> CacheBlockInfo_create\<lparr>m_tag := nuca_tag n address\<rparr>) \<and>
             (eviction \<longleftrightarrow> (\<exists>v. victim = Some v \<and> m_cstate v = MODIFIED)) \<and>
             (\<forall>v. victim = Some v \<longrightarrow> evict_address = tagToAddress (c_base (nc_cache n)) (m_tag v)))))"

lemma nuca_write_post_count [simp]:
  "nuca_write_post n address e0 ea0 eb (l, hw, e, ea, eb', n'\<lparr>nc_writes := a\<rparr>) = nuca_write_post n address e0 ea0 eb (l, hw, e, ea, eb', n')"
  "nuca_write_post n address e0 ea0 eb (l, hw, e, ea, eb', n'\<lparr>nc_write_misses := a\<rparr>) = nuca_write_post n address e0 ea0 eb (l, hw, e, ea, eb', n')"
  by (simp_all add: nuca_write_post_def split: option.split)

lemma quiet_nuca_write:
  assumes "nuca_wf n" and "block_address n address" and "length evict_buf = unat (nc_block_size n)"
    and "case data_buf of None \<Rightarrow> True | Some d \<Rightarrow> length d = unat (nc_block_size n)"
  shows "quiet stop (nuca_write n address data_buf e0 ea0 evict_buf t cnt) (nuca_write_post n address e0 ea0 evict_buf) s"
proof -
  obtain i where sp: "splitAddress (c_base (nc_cache n)) address = Inr (nuca_tag n address, i)"
    using assms(1,2) by (rule block_address_split)
  have wf: "cache_wf (nc_cache n)" and t: "nuca_tag n address \<noteq> - 1"
    and bs: "unat (nc_block_size n) = unat (cb_blocksize (c_base (nc_cache n)))"
    using assms(1,2) by (simp_all add: nuca_wf_def block_address_def)
  note pk = peekSingleLine_private [OF wf sp] and f = cache_map_find [OF wf sp t, folded nuca_map_def]
  have n: "n\<lparr>nc_cache := nc_cache n\<rparr> = n"
    by (cases n) simp
  let ?P = "nuca_write_post n address e0 ea0 evict_buf"
  show ?thesis
  proof (cases "find_line (m_sets (nc_cache n) ! unat i) (nuca_tag n address)")
    case None
    then have new: "cache_map (nc_cache n) (nuca_tag n address) = None"
      using f by (simp add: nuca_map_def)
    have fb: "case data_buf of None \<Rightarrow> True | Some buf \<Rightarrow> unat (cb_blocksize (c_base (nc_cache n))) \<le> length buf"
      using assms(4) bs by (simp split: option.splits)
    define now where "now = t + nc_tags_access_time n"
    obtain ev ea c' where ins: "insertSingleLine (nc_cache n) address data_buf CacheBlockInfo_create (Some evict_buf) now False = Inr (ev, ea, c')"
      and m: "cache_map c' = (if eviction ev then (cache_map (nc_cache n))(m_tag (evict_block_info ev) := None) else cache_map (nc_cache n))
                     (nuca_tag n address \<mapsto> CacheBlockInfo_create\<lparr>m_tag := nuca_tag n address\<rparr>)"
      and v: "eviction ev \<longrightarrow> cache_map (nc_cache n) (m_tag (evict_block_info ev)) = Some (evict_block_info ev)"
      and ea: "ea = tagToAddress (c_base (nc_cache n)) (m_tag (evict_block_info ev))" and c: "cache_wf c'"
      using wf sp t new fb by (rule insertSingleLine_private)
    note e = insertSingleLine_evict [OF ins wf assms(3) [unfolded bs]]
    note c' = nuca_next_cache [OF assms(1) c e(1)]
    have "?P (l, HW_MISS, eviction ev \<and> m_cstate (evict_block_info ev) = MODIFIED, ea,
        case evict_buff ev of Some d \<Rightarrow> d | None \<Rightarrow> evict_buf, n\<lparr>nc_cache := c'\<rparr>)" for l
      using c' e(2) f None
      by (auto simp: nuca_write_post_def m ea v nuca_map_def
          intro!: exI [of _ "if eviction ev then Some (evict_block_info ev) else None"])
    then have post: "?P (l, HW_MISS, eviction ev \<and> m_cstate (evict_block_info ev) = MODIFIED, ea,
        case evict_buff ev of Some d \<Rightarrow> d | None \<Rightarrow> evict_buf,
        if cnt then n\<lparr>nc_cache := c', nc_write_misses := a\<rparr> else n\<lparr>nc_cache := c'\<rparr>)" for l a
      by simp
    show ?thesis
      using post by (auto simp: nuca_write_def pk None ins [unfolded now_def] n Let_def intro!: quiet_sret)
  next
    case (Some w)
    let ?c = "upd_line (nc_cache n) (unat i) w (\<lambda>b. b\<lparr>m_cstate := MODIFIED\<rparr>)"
    have u: "cache_wf ?c" "c_base ?c = c_base (nc_cache n)"
      by (rule upd_line_map [OF wf sp t Some], simp)+
    obtain b where b: "nuca_map n (nuca_tag n address) = Some b"
      and ub: "cache_map ?c = (nuca_map n)(nuca_tag n address \<mapsto> b\<lparr>m_cstate := MODIFIED\<rparr>)"
      using upd_line_map(2) [OF wf sp t Some, of "\<lambda>b. b\<lparr>m_cstate := MODIFIED\<rparr>"] unfolding nuca_map_def by auto
    define time where "time = t + nc_tags_access_time n"
    obtain p out c' where a: "accessSingleLine ?c address STORE data_buf (unat (nc_block_size n)) time True = Inr (p, out, c')"
        "nuca_next n (n\<lparr>nc_cache := c'\<rparr>)" "nuca_map (n\<lparr>nc_cache := c'\<rparr>) = cache_map ?c"
      by (rule nuca_access [OF assms(1,2) u assms(4)])
    have post: "?P (l, HW_NUCA_CACHE, e0, ea0, evict_buf, n\<lparr>nc_cache := c', nc_queue_model := q\<rparr>)"
      if "nuca_wf (n\<lparr>nc_cache := c', nc_queue_model := q\<rparr>)" for l q
      using nuca_next_queue [OF a(2) that] a(3) b ub by (simp add: nuca_write_post_def)
    have pv: "perf_valid s None"
      by (simp add: perf_valid_def)
    show ?thesis
      using post
      by (auto simp: nuca_write_def pk Some a(1) [unfolded time_def] n Let_def sbind_assoc
          intro!: quiet_sret quiet_sbind [OF quiet_accessDataArray [OF nuca_next_wf [OF a(2)] pv]])
  qed
qed

text \<open>
  C40. A NUCA slice is a map from tags to lines. On a well-formed slice and the address of a block, a
  read always returns, leaves the map alone, and reports a hit exactly if the map has the tag. A
  write always returns and leaves the block in the map: a hit marks its line modified and does not
  touch the two eviction results of the caller, a miss replaces at most one line, which was in the
  map, and reports an eviction exactly if that line was modified. Neither changes anything else but
  the times of the request.
\<close>
theorem nuca_refines_map:
  assumes "nuca_wf n" and "block_address n address" and "perf_valid s perf"
    and "length buf = unat (nc_block_size n)" and "length evict_buf = unat (nc_block_size n)"
    and "case data_buf of None \<Rightarrow> True | Some d \<Rightarrow> length d = unat (nc_block_size n)"
  shows "quiet False (nuca_read n address buf t perf cnt) (nuca_read_post n address buf) s \<and>
    quiet False (nuca_write n address data_buf e0 ea0 evict_buf t cnt) (nuca_write_post n address e0 ea0 evict_buf) s"
  using quiet_nuca_read [OF assms(1-4)] quiet_nuca_write [OF assms(1,2,5,6)] by blast

definition example_nuca :: NucaCache where
  "example_nuca = \<lparr>nc_core_id = 0, nc_block_size = 64, nc_data_access_time = 8, nc_tags_access_time = 3,
     nc_data_array_bandwidth = 0, nc_cache = example_cache, nc_queue_model = None,
     nc_reads = 0, nc_writes = 0, nc_read_misses = 0, nc_write_misses = 0\<rparr>"

definition example_env :: mem_env where
  "example_env = \<lparr>env_core_id = 0, env_spm = ShmemPerfModel_new, env_perfs = st_empty, env_bufs = st_empty,
     env_sizeof_msg = 64, env_net = []\<rparr>"

lemma example_nuca_facts:
  "nuca_wf example_nuca" "block_address example_nuca 0x1040" "nuca_tag example_nuca 0x1040 = 0x41" "nuca_map example_nuca = Map.empty"
  by (simp_all add: nuca_wf_def example_nuca_def example_cache_facts block_address_def nuca_tag_def nuca_map_def example_base_def)

theorem nuca_refines_map_witness:
  "\<exists>l ea eb n' s'. nuca_write example_nuca 0x1040 (Some (replicate 64 7)) True 0 (replicate 64 0) 0 True example_env =
      Inr ((l, HW_MISS, False, ea, eb, n'), s') \<and> nuca_map n' 0x41 \<noteq> None \<and> nuca_wf n'"
proof -
  have "quiet False (nuca_write example_nuca 0x1040 (Some (replicate 64 7)) True 0 (replicate 64 0) 0 True)
      (nuca_write_post example_nuca 0x1040 True 0 (replicate 64 0)) example_env"
    using nuca_refines_map [OF example_nuca_facts(1,2), of example_env None "replicate 64 0" "replicate 64 0"
        "Some (replicate 64 7)" 0 True True 0]
    by (simp add: perf_valid_def example_nuca_def)
  then show ?thesis
    by (auto simp: quiet_def nuca_write_post_def example_nuca_facts nuca_next_def split: sum.splits option.splits)
qed

end
