(* ===== verification/DirCntlr.thy ===== *)
theory DirCntlr
  imports ReqQueue DirectoryMap NucaCache
begin

section \<open>The directory controller\<close>

text \<open>
  \<^verbatim>\<open>pr_l1_pr_l2_dram_directory_msi/dram_directory_cntlr.{h,cc}\<close>: the controller at a tag directory
  that serialises the requests for each block, asks the caches that hold it to invalidate, flush
  or write back their copies, and answers with data from a cache, from the NUCA slice or from DRAM.

  One definition per member function, over the state \<open>dir_cntlr\<close>. A \<open>ShmemReq*\<close> is a number in the
  store of requests, a \<open>DirectoryEntry*\<close> a number in the directory's heap, a \<open>Byte*\<close> a number in the
  store of buffers; a local array is a buffer that lives as long as the array is in scope. The
  functions that call \<open>processNextReqFromL2Cache\<close>, which calls them in turn, take it as the argument
  \<open>next\<close>; the recursion is closed at the end with fuel, one unit per call. What uninitialised local
  variables contain is part of the state.
\<close>

record dir_cntlr = mem_env +
  dc_home :: AddressHomeLookup \<comment> \<open>\<open>m_dram_controller_home_lookup\<close>\<close>
  dc_dir :: DramDirectoryCache
  dc_queue :: "nat req_queue_map"
  dc_reqs :: "ShmemReq store"
  dc_nuca :: "NucaCache option"
  dc_core_id :: core_id_t
  dc_block_size :: u32
  dc_access_time :: SubsecondTime
  dc_protocol :: coherency_protocol
  dc_evict :: "dstate_t \<Rightarrow> u64"
  dc_forward :: u64
  dc_forward_failed :: u64
  dc_junk_where :: where_t
  dc_junk_eviction :: bool
  dc_junk_address :: IntPtr
  dc_junk_byte :: "nat \<Rightarrow> u8"

type_synonym 'a dcm = "(dir_cntlr, 'a) sm"

definition parse_protocol :: "string \<Rightarrow> coherency_protocol res" where
  "parse_protocol protocol =
     (if protocol = ''msi'' then Inr MSI
      else if protocol = ''mesi'' then Inr MESI
      else if protocol = ''mesif'' then Inr MESIF
      else Inl LogError)"

definition DStateString :: "dstate_t \<Rightarrow> char" where
  "DStateString state =
     (case state of
        D_UNCACHED \<Rightarrow> CHR ''U'' | D_SHARED \<Rightarrow> CHR ''S'' | D_EXCLUSIVE \<Rightarrow> CHR ''E''
      | D_OWNED \<Rightarrow> CHR ''O'' | D_MODIFIED \<Rightarrow> CHR ''M'')"

definition DramDirectoryCntlr_new ::
    "mem_env \<Rightarrow> dir_cntlr \<Rightarrow> core_id_t \<Rightarrow> AddressHomeLookup \<Rightarrow> NucaCache option \<Rightarrow> u32 \<Rightarrow> u32 \<Rightarrow> u32 \<Rightarrow> u32 \<Rightarrow> u32 \<Rightarrow>
     string \<Rightarrow> SubsecondTime \<Rightarrow> core_id_t \<Rightarrow> (nat \<Rightarrow> u32) \<Rightarrow> u64 option \<Rightarrow> string \<Rightarrow> dir_cntlr res" where
  \<comment> \<open>\<open>junk\<close> and the arguments of \<open>DramDirectoryCache_new\<close> of that name are uninitialised memory; the
     configured software trap penalty and protocol come last\<close>
  "DramDirectoryCntlr_new env junk core_id dram_controller_home_lookup nuca_cache total_entries associativity cache_block_size
     max_num_sharers max_hw_sharers directory_type access_time junk_core junk_ptrs trap_ns protocol =
     rbind (DramDirectoryCache_new junk_core junk_ptrs directory_type total_entries associativity cache_block_size
       max_hw_sharers max_num_sharers trap_ns) (\<lambda>dir.
     rbind (parse_protocol protocol) (\<lambda>m_protocol.
     Inr \<lparr>env_core_id = env_core_id env, env_spm = env_spm env, env_perfs = env_perfs env, env_bufs = env_bufs env,
          env_sizeof_msg = env_sizeof_msg env, env_net = env_net env,
          dc_home = dram_controller_home_lookup, dc_dir = dir, dc_queue = Map.empty, dc_reqs = st_empty,
          dc_nuca = nuca_cache, dc_core_id = core_id, dc_block_size = cache_block_size, dc_access_time = access_time,
          dc_protocol = m_protocol,
          dc_evict = (\<lambda>state. if state \<noteq> D_UNCACHED then 0 else dc_evict junk state), dc_forward = 0, dc_forward_failed = 0,
          dc_junk_where = dc_junk_where junk, dc_junk_eviction = dc_junk_eviction junk,
          dc_junk_address = dc_junk_address junk, dc_junk_byte = dc_junk_byte junk\<rparr>))"

subsection \<open>The objects the controller holds\<close>

definition q_size :: "IntPtr \<Rightarrow> u32 dcm" where
  "q_size address = sget (\<lambda>s. size_rq address (dc_queue s))"

definition q_front :: "IntPtr \<Rightarrow> nat dcm" where
  "q_front address = sbind (sget (\<lambda>s. front address (dc_queue s))) slift"

definition q_enqueue :: "IntPtr \<Rightarrow> nat \<Rightarrow> unit dcm" where
  "q_enqueue address p = smod (\<lambda>s. s\<lparr>dc_queue := enqueue address p (dc_queue s)\<rparr>)"

definition q_dequeue :: "IntPtr \<Rightarrow> nat dcm" where
  "q_dequeue address =
     sbind (sget (\<lambda>s. dequeue address (dc_queue s))) (\<lambda>r.
     sbind (slift r) (\<lambda>(p, q).
     sseq (smod (\<lambda>s. s\<lparr>dc_queue := q\<rparr>)) (sret p)))"

definition get_req :: "nat \<Rightarrow> ShmemReq dcm" where
  "get_req p = sbind (sget dc_reqs) (\<lambda>st. slift (st_get st p))"

definition upd_req :: "nat \<Rightarrow> (ShmemReq \<Rightarrow> ShmemReq) \<Rightarrow> unit dcm" where
  "upd_req p f = sbind (get_req p) (\<lambda>r. smod (\<lambda>s. s\<lparr>dc_reqs := st_put p (f r) (dc_reqs s)\<rparr>))"

definition new_req :: "ShmemMsg \<Rightarrow> SubsecondTime \<Rightarrow> nat dcm" where
  \<comment> \<open>\<open>new ShmemReq(&msg, time)\<close>\<close>
  "new_req msg time =
     sbind (sget (\<lambda>s. ShmemReq_new (dc_junk_where s) msg time)) (\<lambda>r.
     sbind (slift r) (\<lambda>r.
     sbind (sget (\<lambda>s. st_new r (dc_reqs s))) (\<lambda>(p, st).
     sseq (smod (\<lambda>s. s\<lparr>dc_reqs := st\<rparr>)) (sret p))))"

definition delete_req :: "nat \<Rightarrow> unit dcm" where
  "delete_req p = sbind (get_req p) (\<lambda>_. smod (\<lambda>s. s\<lparr>dc_reqs := st_delete p (dc_reqs s)\<rparr>))"

definition get_entry :: "entry_ptr \<Rightarrow> DirectoryEntry dcm" where
  "get_entry p = sbind (sget dc_dir) (\<lambda>c. slift (deref_entry (m_directory c) p))"

definition put_entry :: "entry_ptr \<Rightarrow> DirectoryEntry \<Rightarrow> unit dcm" where
  "put_entry p e = smod (\<lambda>s. s\<lparr>dc_dir := (dc_dir s)\<lparr>m_directory := upd_entry (m_directory (dc_dir s)) p e\<rparr>\<rparr>)"

definition upd_dir_entry :: "entry_ptr \<Rightarrow> (DirectoryEntry \<Rightarrow> DirectoryEntry res) \<Rightarrow> unit dcm" where
  \<comment> \<open>a call that changes the entry\<close>
  "upd_dir_entry p f = sbind (get_entry p) (\<lambda>e. sbind (slift (f e)) (put_entry p))"

definition setDState :: "entry_ptr \<Rightarrow> dstate_t \<Rightarrow> unit dcm" where
  "setDState p st = upd_dir_entry p (\<lambda>e. Inr (e\<lparr>m_dstate := st\<rparr>))"

definition setForwarder :: "entry_ptr \<Rightarrow> core_id_t \<Rightarrow> unit dcm" where
  "setForwarder p i = upd_dir_entry p (\<lambda>e. Inr (e\<lparr>m_forwarder_id := i\<rparr>))"

definition entry_addSharer :: "entry_ptr \<Rightarrow> core_id_t \<Rightarrow> bool dcm" where
  \<comment> \<open>\<open>addSharer(i, getMaxHwSharers())\<close>\<close>
  "entry_addSharer p i =
     sbind (get_entry p) (\<lambda>e.
     sbind (sget (\<lambda>s. m_use_max_hw_sharers (m_directory (dc_dir s)))) (\<lambda>mx.
     sbind (slift (addSharer e i mx)) (\<lambda>(b, e). sseq (put_entry p e) (sret b))))"

definition lookup :: "IntPtr \<Rightarrow> bool \<Rightarrow> entry_ptr option dcm" where
  \<comment> \<open>\<open>m_dram_directory_cache->getDirectoryEntry(address, modeled)\<close>\<close>
  "lookup address modeled =
     sbind (sget (\<lambda>s. getDirectoryEntry (dc_access_time s) (dc_dir s) address modeled)) (\<lambda>r.
     sbind (slift r) (\<lambda>(p, ts, c).
     sseq (smod (\<lambda>s. s\<lparr>dc_dir := c\<rparr>)) (
     sseq (sfor (\<lambda>t. incrElapsedTime t SIM_THREAD) ts) (
     sret p))))"

definition lookup_some :: "IntPtr \<Rightarrow> entry_ptr dcm" where
  \<comment> \<open>the lookup followed by \<open>assert(directory_entry)\<close>\<close>
  "lookup_some address =
     sbind (lookup address False) (\<lambda>p. case p of None \<Rightarrow> sthrow AssertFailed | Some p \<Rightarrow> sret p)"

definition dram_node :: "IntPtr \<Rightarrow> core_id_t dcm" where
  "dram_node address = sbind (sget (\<lambda>s. getHome (dc_home s) address)) slift"

definition with_buf :: "u8 list \<Rightarrow> (nat \<Rightarrow> unit dcm) \<Rightarrow> unit dcm" where
  \<comment> \<open>a local array in scope of \<open>k\<close>\<close>
  "with_buf data k = sbind (new_buf data) (\<lambda>p. sseq (k p) (free_buf p))"

definition updateShmemPerf :: "ShmemMsg \<Rightarrow> shmem_times_type_t \<Rightarrow> unit dcm" where
  "updateShmemPerf shmem_msg reason =
     sbind (now SIM_THREAD) (\<lambda>t. perf_updateTime (m_perf shmem_msg) t reason)"

definition updateShmemPerf_req :: "nat \<Rightarrow> shmem_times_type_t \<Rightarrow> unit dcm" where
  "updateShmemPerf_req shmem_req reason =
     sbind (get_req shmem_req) (\<lambda>r. updateShmemPerf (m_shmem_msg r) reason)"

subsection \<open>Data to the NUCA slice and to DRAM\<close>

definition sendDataToNUCA :: "IntPtr \<Rightarrow> core_id_t \<Rightarrow> nat option \<Rightarrow> SubsecondTime \<Rightarrow> bool \<Rightarrow> unit dcm" where
  "sendDataToNUCA address requester data_buf time cnt =
     sbind (sget dc_nuca) (\<lambda>nuca.
     case nuca of
       None \<Rightarrow> sret ()
     | Some n \<Rightarrow>
         sbind (sget (\<lambda>s. map (dc_junk_byte s) [0..<unat (dc_block_size s)])) (\<lambda>evict_buf.
         sbind (sget dc_junk_eviction) (\<lambda>eviction.
         sbind (sget dc_junk_address) (\<lambda>evict_address.
         sbind (read_buf data_buf) (\<lambda>data.
         sbind (now SIM_THREAD) (\<lambda>t.
         sbind (nuca_write n address data eviction evict_address evict_buf t cnt) (\<lambda>(_, _, eviction, evict_address, evict_buf, n).
         sseq (smod (\<lambda>s. s\<lparr>dc_nuca := Some n\<rparr>)) (
         if eviction
         then sbind (dram_node evict_address) (\<lambda>dram_node.
              sbind (sget dc_core_id) (\<lambda>core_id.
              sbind (sget dc_block_size) (\<lambda>block_size.
              with_buf evict_buf (\<lambda>p.
                sendMsg DRAM_WRITE_REQ TAG_DIR DRAM core_id dram_node evict_address (Some p) block_size HW_UNKNOWN
                  None SIM_THREAD))))
         else sret ()))))))))"

definition sendDataToDram :: "IntPtr \<Rightarrow> core_id_t \<Rightarrow> nat option \<Rightarrow> SubsecondTime \<Rightarrow> unit dcm" where
  "sendDataToDram address requester data_buf time =
     sbind (sget dc_nuca) (\<lambda>nuca.
     if nuca \<noteq> None then sendDataToNUCA address requester data_buf time True
     else
       sbind (dram_node address) (\<lambda>dram_node.
       sbind (sget dc_block_size) (\<lambda>block_size.
       sendMsg DRAM_WRITE_REQ TAG_DIR DRAM requester dram_node address data_buf block_size HW_UNKNOWN None SIM_THREAD)))"

subsection \<open>Answering a request\<close>

definition read_nuca ::
    "(IntPtr \<Rightarrow> unit dcm) \<Rightarrow> msg_t \<Rightarrow> core_id_t \<Rightarrow> IntPtr \<Rightarrow> ShmemMsg \<Rightarrow> bool dcm" where
  \<comment> \<open>the block \<open>if (m_nuca_cache)\<close> of \<open>retrieveDataAndSendToL2Cache\<close>; the result says whether it returned\<close>
  "read_nuca next reply_msg_type receiver address orig_shmem_msg =
     sbind (sget dc_nuca) (\<lambda>nuca.
     case nuca of
       None \<Rightarrow> sret False
     | Some n \<Rightarrow>
         sbind (sget (\<lambda>s. map (dc_junk_byte s) [0..<unat (dc_block_size s)])) (\<lambda>nuca_data_buf.
         sbind (now SIM_THREAD) (\<lambda>t.
         sbind (nuca_read n address nuca_data_buf t (m_perf orig_shmem_msg) True) (\<lambda>(nuca_latency, hit_where, nuca_data_buf, n).
         sseq (smod (\<lambda>s. s\<lparr>dc_nuca := Some n\<rparr>)) (
         sseq (incrElapsedTime nuca_latency SIM_THREAD) (
         if hit_where \<noteq> HW_MISS
         then sbind (sget dc_block_size) (\<lambda>block_size.
              sseq (with_buf nuca_data_buf (\<lambda>p.
                sseq (sendMsg reply_msg_type TAG_DIR L2_CACHE receiver receiver address (Some p) block_size HW_NUCA_CACHE
                  (m_perf orig_shmem_msg) SIM_THREAD) (
                next address)))
              (sret True))
         else sret False))))))"

definition fetch_data :: "core_id_t \<Rightarrow> IntPtr \<Rightarrow> entry_ptr \<Rightarrow> ShmemMsg \<Rightarrow> unit dcm" where
  \<comment> \<open>the end of \<open>retrieveDataAndSendToL2Cache\<close>: asks the forwarder, or DRAM, for the data\<close>
  "fetch_data receiver address directory_entry orig_shmem_msg =
     sbind (q_size address) (\<lambda>size.
     sseq (sassert (size > 0)) (
     sbind (q_front address) (\<lambda>shmem_req.
     sbind (sget dc_protocol) (\<lambda>protocol.
     sbind (get_req shmem_req) (\<lambda>r.
     sbind (get_entry directory_entry) (\<lambda>e.
     if protocol = MESIF \<and> m_forwarding_from r = INVALID_CORE_ID \<and> m_dstate e = D_SHARED \<and>
        m_forwarder_id e \<noteq> INVALID_CORE_ID
     then
       let forwarder = m_forwarder_id e in
       sseq (upd_req shmem_req (\<lambda>r. r\<lparr>m_forwarding_from := forwarder\<rparr>)) (
       sendMsg WB_REQ TAG_DIR L2_CACHE receiver forwarder address None 0 HW_UNKNOWN (m_perf (m_shmem_msg r)) SIM_THREAD)
     else
       sseq (upd_req shmem_req (\<lambda>r. r\<lparr>m_wait_for_data := True\<rparr>)) (
       sbind (dram_node address) (\<lambda>dram_node.
       sendMsg DRAM_READ_REQ TAG_DIR DRAM receiver dram_node address None 0 HW_UNKNOWN (m_perf orig_shmem_msg)
         SIM_THREAD))))))))"

definition retrieveDataAndSendToL2Cache ::
    "(IntPtr \<Rightarrow> unit dcm) \<Rightarrow> msg_t \<Rightarrow> core_id_t \<Rightarrow> IntPtr \<Rightarrow> nat option \<Rightarrow> ShmemMsg \<Rightarrow> unit dcm" where
  "retrieveDataAndSendToL2Cache next reply_msg_type receiver address cached_data_buf orig_shmem_msg =
     sbind (lookup_some address) (\<lambda>directory_entry.
     if cached_data_buf \<noteq> None
     then
       sseq (setForwarder directory_entry receiver) (
       sbind (sget dc_block_size) (\<lambda>block_size.
       sseq (sendMsg reply_msg_type TAG_DIR L2_CACHE receiver receiver address cached_data_buf block_size HW_CACHE_REMOTE
               (m_perf orig_shmem_msg) SIM_THREAD) (
       next address)))
     else
       sbind (read_nuca next reply_msg_type receiver address orig_shmem_msg) (\<lambda>returned.
       if returned then sret () else fetch_data receiver address directory_entry orig_shmem_msg))"

subsection \<open>Replacing a directory entry\<close>

definition inv_sharers ::
    "core_id_t \<Rightarrow> IntPtr \<Rightarrow> nat option \<Rightarrow> bool \<times> core_id_t list \<Rightarrow> unit dcm" where
  \<comment> \<open>invalidates all sharers; only the first message, and no broadcast, carries the request's \<open>perf\<close>\<close>
  "inv_sharers requester address perf sharers =
     (if fst sharers
      then broadcastMsg INV_REQ TAG_DIR L2_CACHE requester address None 0 None SIM_THREAD
      else sfor (\<lambda>(i, sharer).
             sendMsg INV_REQ TAG_DIR L2_CACHE requester sharer address None 0 HW_UNKNOWN
               (if i = 0 then perf else None) SIM_THREAD)
             (enumerate 0 (snd sharers)))"

definition processNullifyReq :: "(IntPtr \<Rightarrow> unit dcm) \<Rightarrow> nat \<Rightarrow> unit dcm" where
  "processNullifyReq next shmem_req =
     sbind (get_req shmem_req) (\<lambda>r.
     let address = m_msg_address (m_shmem_msg r); requester = m_requester (m_shmem_msg r) in
     sbind (lookup_some address) (\<lambda>directory_entry.
     sbind (get_entry directory_entry) (\<lambda>e.
     if m_dstate e = D_EXCLUSIVE \<or> m_dstate e = D_MODIFIED
     then sendMsg FLUSH_REQ TAG_DIR L2_CACHE requester (m_owner_id e) address None 0 HW_UNKNOWN None SIM_THREAD
     else if m_dstate e = D_SHARED
     then inv_sharers requester address None (getSharersList e)
     else if m_dstate e = D_UNCACHED
     then
       sbind (sget (\<lambda>s. invalidateDirectoryEntry (dc_dir s) address)) (\<lambda>c.
       sbind (slift c) (\<lambda>c.
       sseq (smod (\<lambda>s. s\<lparr>dc_dir := c\<rparr>)) (
       next address)))
     else sthrow LogError)))"

fun pick_candidate ::
    "Directory \<Rightarrow> nat req_queue_map \<Rightarrow> entry_ptr option \<Rightarrow> entry_ptr list \<Rightarrow> entry_ptr option res" where
  \<comment> \<open>the loop over the candidates: the first with the fewest sharers among those without requests\<close>
  "pick_candidate d q replacement_candidate [] = Inr replacement_candidate"
| "pick_candidate d q replacement_candidate (p # ps) =
     rbind (deref_entry d p) (\<lambda>e.
     rbind (case replacement_candidate of
              None \<Rightarrow> Inr True
            | Some c \<Rightarrow> rbind (deref_entry d c) (\<lambda>ec. Inr (getNumSharers ec > getNumSharers e))) (\<lambda>better.
     pick_candidate d q (if better \<and> size_rq (de_address e) q = 0 then Some p else replacement_candidate) ps))"

definition processDirectoryEntryAllocationReq :: "(IntPtr \<Rightarrow> unit dcm) \<Rightarrow> nat \<Rightarrow> entry_ptr dcm" where
  "processDirectoryEntryAllocationReq next shmem_req =
     sbind (get_req shmem_req) (\<lambda>r.
     let address = m_msg_address (m_shmem_msg r); requester = m_requester (m_shmem_msg r) in
     sbind (now SIM_THREAD) (\<lambda>msg_time.
     sbind (sget (\<lambda>s. getReplacementCandidates (dc_dir s) address)) (\<lambda>g.
     sbind (slift g) (\<lambda>(replacement_candidate_list, c).
     sseq (smod (\<lambda>s. s\<lparr>dc_dir := c\<rparr>)) (
     sbind (sget (\<lambda>s. pick_candidate (m_directory c) (dc_queue s) None replacement_candidate_list)) (\<lambda>pc.
     sbind (slift pc) (\<lambda>replacement_candidate.
     case replacement_candidate of
       None \<Rightarrow> sthrow AssertFailed
     | Some p \<Rightarrow>
         sbind (get_entry p) (\<lambda>e.
         let curr_dstate = m_dstate e; replaced_address = de_address e in
         sseq (smod (\<lambda>s. s\<lparr>dc_evict := (dc_evict s)(curr_dstate := dc_evict s curr_dstate + 1)\<rparr>)) (
         sbind (sget (\<lambda>s. replaceDirectoryEntry (dc_access_time s) (dc_dir s) replaced_address address True)) (\<lambda>rr.
         sbind (slift rr) (\<lambda>(directory_entry, t, c).
         sseq (smod (\<lambda>s. s\<lparr>dc_dir := c\<rparr>)) (
         sseq (incrElapsedTime t SIM_THREAD) (
         sbind (new_req (ShmemMsg_new NULLIFY_REQ TAG_DIR TAG_DIR requester replaced_address None 0 None) msg_time) (\<lambda>nullify_req.
         sseq (q_enqueue replaced_address nullify_req) (
         sbind (q_size replaced_address) (\<lambda>size.
         sseq (sassert (size = 1)) (
         sseq (processNullifyReq next nullify_req) (
         sret directory_entry))))))))))))))))))"

subsection \<open>Requests from the caches\<close>

definition entry_for :: "(IntPtr \<Rightarrow> unit dcm) \<Rightarrow> nat \<Rightarrow> IntPtr \<Rightarrow> entry_ptr dcm" where
  \<comment> \<open>the entry of the address, allocated if there is none\<close>
  "entry_for next shmem_req address =
     sbind (lookup address False) (\<lambda>p.
     case p of None \<Rightarrow> processDirectoryEntryAllocationReq next shmem_req | Some p \<Rightarrow> sret p)"

definition take_ownership :: "entry_ptr \<Rightarrow> core_id_t \<Rightarrow> dstate_t \<Rightarrow> unit dcm" where
  \<comment> \<open>an uncached block gets its first holder\<close>
  "take_ownership p requester st =
     sbind (entry_addSharer p requester) (\<lambda>add_result.
     sseq (sassert add_result) (
     sseq (upd_dir_entry p (\<lambda>e. setOwner e requester)) (
     setDState p st)))"

definition processExReqFromL2Cache :: "(IntPtr \<Rightarrow> unit dcm) \<Rightarrow> nat \<Rightarrow> nat option \<Rightarrow> unit dcm" where
  "processExReqFromL2Cache next shmem_req cached_data_buf =
     sbind (get_req shmem_req) (\<lambda>r.
     let msg = m_shmem_msg r; address = m_msg_address msg; requester = m_requester msg in
     sseq (updateShmemPerf_req shmem_req T_UNKNOWN) (
     sbind (entry_for next shmem_req address) (\<lambda>directory_entry.
     sbind (get_entry directory_entry) (\<lambda>e.
     sseq (updateShmemPerf_req shmem_req TD_ACCESS) (
     if m_dstate e = D_EXCLUSIVE \<or> m_dstate e = D_MODIFIED
     then
       sseq (sassert (cached_data_buf = None)) (
       sendMsg FLUSH_REQ TAG_DIR L2_CACHE requester (m_owner_id e) address None 0 HW_UNKNOWN (m_perf msg) SIM_THREAD)
     else if m_dstate e = D_SHARED
     then
       sseq (sassert (cached_data_buf = None)) (
       inv_sharers requester address (m_perf msg) (getSharersList e))
     else if m_dstate e = D_UNCACHED
     then
       sseq (take_ownership directory_entry requester D_MODIFIED) (
       retrieveDataAndSendToL2Cache next EX_REP requester address cached_data_buf msg)
     else sthrow LogError)))))"

definition processShReqFromL2Cache :: "(IntPtr \<Rightarrow> unit dcm) \<Rightarrow> nat \<Rightarrow> nat option \<Rightarrow> unit dcm" where
  "processShReqFromL2Cache next shmem_req cached_data_buf =
     sbind (get_req shmem_req) (\<lambda>r.
     let msg = m_shmem_msg r; address = m_msg_address msg; requester = m_requester msg in
     sseq (updateShmemPerf_req shmem_req T_UNKNOWN) (
     sbind (entry_for next shmem_req address) (\<lambda>directory_entry.
     sbind (get_entry directory_entry) (\<lambda>e.
     sseq (updateShmemPerf_req shmem_req TD_ACCESS) (
     if m_dstate e = D_EXCLUSIVE
     then
       sseq (sassert (requester \<noteq> m_owner_id e)) (
       sseq (sassert (cached_data_buf = None)) (
       sendMsg WB_REQ TAG_DIR L2_CACHE requester (m_owner_id e) address None 0 HW_UNKNOWN (m_perf msg) SIM_THREAD))
     else if m_dstate e = D_MODIFIED
     then
       sseq (sassert (cached_data_buf = None)) (
       sendMsg WB_REQ TAG_DIR L2_CACHE requester (m_owner_id e) address None 0 HW_UNKNOWN (m_perf msg) SIM_THREAD)
     else if m_dstate e = D_SHARED
     then
       sbind (slift (hasSharer e requester)) (\<lambda>has_sharer.
       if has_sharer
       then
         sseq (smod (\<lambda>s. s\<lparr>dc_forward := dc_forward s + 1\<rparr>)) (
         sseq (if cached_data_buf = None then smod (\<lambda>s. s\<lparr>dc_forward_failed := dc_forward_failed s + 1\<rparr>) else sret ()) (
         retrieveDataAndSendToL2Cache next SH_REP requester address cached_data_buf msg))
       else
         sbind (entry_addSharer directory_entry requester) (\<lambda>add_result.
         if \<not> add_result
         then
           sbind (get_entry directory_entry) (\<lambda>e.
           sbind (slift (getOneSharer e)) (\<lambda>(sharer_id, e).
           sseq (put_entry directory_entry e) (
           sendMsg INV_REQ TAG_DIR L2_CACHE requester sharer_id address None 0 HW_UNKNOWN (m_perf msg) SIM_THREAD)))
         else
           retrieveDataAndSendToL2Cache next SH_REP requester address cached_data_buf msg))
     else if m_dstate e = D_UNCACHED
     then
       sbind (sget dc_protocol) (\<lambda>protocol.
       if protocol = MSI
       then
         sseq (take_ownership directory_entry requester D_SHARED) (
         retrieveDataAndSendToL2Cache next SH_REP requester address cached_data_buf msg)
       else
         sseq (take_ownership directory_entry requester D_EXCLUSIVE) (
         retrieveDataAndSendToL2Cache next EX_REP requester address cached_data_buf msg))
     else sthrow LogError)))))"

fun inv_others :: "core_id_t \<Rightarrow> IntPtr \<Rightarrow> nat option \<Rightarrow> bool \<Rightarrow> bool \<Rightarrow> nat \<Rightarrow> core_id_t list \<Rightarrow> unit dcm" where
  \<comment> \<open>the loop of an upgrade over the sharers from the \<open>i\<close>-th on\<close>
  "inv_others requester address perf requesterHasCopy shmem_perf_sent i [] = sret ()"
| "inv_others requester address perf requesterHasCopy shmem_perf_sent i (sharer # sharers) =
     (if sharer \<noteq> requester
      then
        sseq (sendMsg (if \<not> requesterHasCopy \<and> i = 0 then FLUSH_REQ else INV_REQ) TAG_DIR L2_CACHE requester sharer address
                None 0 HW_UNKNOWN (if \<not> shmem_perf_sent then perf else None) SIM_THREAD) (
        inv_others requester address perf requesterHasCopy True (Suc i) sharers)
      else inv_others requester address perf requesterHasCopy shmem_perf_sent (Suc i) sharers)"

definition processUpgradeReqFromL2Cache :: "(IntPtr \<Rightarrow> unit dcm) \<Rightarrow> nat \<Rightarrow> nat option \<Rightarrow> unit dcm" where
  "processUpgradeReqFromL2Cache next shmem_req cached_data_buf =
     sbind (get_req shmem_req) (\<lambda>r.
     let msg = m_shmem_msg r; address = m_msg_address msg; requester = m_requester msg in
     sseq (updateShmemPerf_req shmem_req T_UNKNOWN) (
     sbind (entry_for next shmem_req address) (\<lambda>directory_entry.
     sbind (get_entry directory_entry) (\<lambda>e.
     let sharers = getSharersList e in
     sseq (updateShmemPerf msg TD_ACCESS) (
     if m_dstate e = D_EXCLUSIVE \<or> m_dstate e = D_MODIFIED
     then
       sbind (slift (nth_res (snd sharers) 0)) (\<lambda>sharer0.
       if sharer0 = requester
       then
         sseq (sassert (m_owner_id e = requester)) (
         sseq (sendMsg UPGRADE_REP TAG_DIR L2_CACHE requester requester address None 0 HW_UNKNOWN (m_perf msg) SIM_THREAD) (
         sseq (setDState directory_entry D_MODIFIED) (
         next address)))
       else
         sendMsg FLUSH_REQ TAG_DIR L2_CACHE requester (m_owner_id e) address None 0 HW_UNKNOWN (m_perf msg) SIM_THREAD)
     else if m_dstate e = D_SHARED
     then
       (if snd sharers = [requester]
        then
          sseq (upd_dir_entry directory_entry (\<lambda>e. setOwner e requester)) (
          sseq (setDState directory_entry D_MODIFIED) (
          sseq (sendMsg UPGRADE_REP TAG_DIR L2_CACHE requester requester address None 0 HW_UNKNOWN (m_perf msg) SIM_THREAD) (
          next address)))
        else
          sbind (slift (hasSharer e requester)) (\<lambda>requesterHasCopy.
          if fst sharers
          then broadcastMsg INV_REQ TAG_DIR L2_CACHE requester address None 0 None SIM_THREAD
          else inv_others requester address (m_perf msg) requesterHasCopy False 0 (snd sharers)))
     else if m_dstate e = D_UNCACHED
     then
       sseq (sassert (snd sharers = [])) (
       sseq (take_ownership directory_entry requester D_MODIFIED) (
       let cached_data_buf = (if cached_data_buf = None then m_data_buf msg else cached_data_buf) in
       retrieveDataAndSendToL2Cache next EX_REP requester address cached_data_buf msg))
     else sthrow LogError)))))"

primrec processNextReqFromL2Cache :: "nat \<Rightarrow> IntPtr \<Rightarrow> unit dcm" where
  "processNextReqFromL2Cache 0 = (\<lambda>address. sthrow OutOfFuel)"
| "processNextReqFromL2Cache (Suc fuel) = (\<lambda>address.
     sbind (q_size address) (\<lambda>size.
     sseq (sassert (size \<ge> 1)) (
     sbind (q_dequeue address) (\<lambda>completed_shmem_req.
     sseq (delete_req completed_shmem_req) (
     sbind (sget (\<lambda>s. empty_rq address (dc_queue s))) (\<lambda>is_empty.
     if is_empty then sret ()
     else
       sbind (q_front address) (\<lambda>shmem_req.
       sbind (get_req shmem_req) (\<lambda>r.
       sseq (setElapsedTime SIM_THREAD (m_req_time r)) (
       let ty = m_msg_type (m_shmem_msg r) in
       if ty = EX_REQ then processExReqFromL2Cache (processNextReqFromL2Cache fuel) shmem_req None
       else if ty = SH_REQ then processShReqFromL2Cache (processNextReqFromL2Cache fuel) shmem_req None
       else if ty = UPGRADE_REQ then processUpgradeReqFromL2Cache (processNextReqFromL2Cache fuel) shmem_req None
       else sthrow LogError)))))))))"

subsection \<open>Replies\<close>

definition reply_for :: "msg_t \<Rightarrow> dstate_t \<Rightarrow> msg_t res" where
  \<comment> \<open>\<open>reply_msg_type\<close> of \<open>processDRAMReply\<close>\<close>
  "reply_for req_type curr_dstate =
     (case req_type of
        SH_REQ \<Rightarrow>
          rbind (ensure AssertFailed (curr_dstate = D_SHARED \<or> curr_dstate = D_EXCLUSIVE)) (\<lambda>_.
          Inr (if curr_dstate = D_EXCLUSIVE then EX_REP else SH_REP))
      | EX_REQ \<Rightarrow> rbind (ensure AssertFailed (curr_dstate = D_MODIFIED)) (\<lambda>_. Inr EX_REP)
      | UPGRADE_REQ \<Rightarrow> Inr EX_REP
      | _ \<Rightarrow> Inl LogError)"

definition processDRAMReply :: "nat \<Rightarrow> core_id_t \<Rightarrow> ShmemMsg \<Rightarrow> unit dcm" where
  "processDRAMReply fuel sender shmem_msg =
     (let address = m_msg_address shmem_msg in
      sbind (q_size address) (\<lambda>size.
      sseq (sassert (size \<ge> 1)) (
      sbind (q_front address) (\<lambda>shmem_req.
      sseq (updateShmemPerf_req shmem_req T_UNKNOWN) (
      sbind (lookup_some address) (\<lambda>directory_entry.
      sbind (get_entry directory_entry) (\<lambda>e.
      sseq (updateShmemPerf_req shmem_req TD_ACCESS) (
      sbind (get_req shmem_req) (\<lambda>r.
      let msg = m_shmem_msg r in
      sbind (slift (reply_for (m_msg_type msg) (m_dstate e))) (\<lambda>reply_msg_type.
      let hit_where = (if m_where shmem_msg = HW_DRAM
                       then if sender = m_requester shmem_msg then HW_DRAM_LOCAL else HW_DRAM_REMOTE
                       else m_where shmem_msg) in
      sbind (sget dc_block_size) (\<lambda>block_size.
      sseq (sendMsg reply_msg_type TAG_DIR L2_CACHE (m_requester msg) (m_requester msg) address
              (m_data_buf shmem_msg) block_size hit_where (m_perf msg) SIM_THREAD) (
      sbind (now SIM_THREAD) (\<lambda>t.
      sseq (sendDataToNUCA address (m_requester msg) (m_data_buf shmem_msg) t False) (
      processNextReqFromL2Cache fuel address))))))))))))))"

definition inv_removed :: "core_id_t \<Rightarrow> DirectoryEntry \<Rightarrow> DirectoryEntry res" where
  \<comment> \<open>what an \<open>INV_REP\<close> does to the entry\<close>
  "inv_removed sender e =
     rbind (removeSharer e sender False) (\<lambda>e.
     let e = (if m_forwarder_id e = sender then e\<lparr>m_forwarder_id := INVALID_CORE_ID\<rparr> else e) in
     Inr (if getNumSharers e = 0 then e\<lparr>m_dstate := D_UNCACHED\<rparr> else e))"

definition processInvRepFromL2Cache :: "nat \<Rightarrow> core_id_t \<Rightarrow> ShmemMsg \<Rightarrow> unit dcm" where
  "processInvRepFromL2Cache fuel sender shmem_msg =
     (let address = m_msg_address shmem_msg; next = processNextReqFromL2Cache fuel in
      sbind (lookup_some address) (\<lambda>directory_entry.
      sbind (get_entry directory_entry) (\<lambda>e.
      sseq (sassert (m_dstate e = D_SHARED \<or> m_dstate e = D_EXCLUSIVE)) (
      sseq (upd_dir_entry directory_entry (inv_removed sender)) (
      sbind (q_size address) (\<lambda>size.
      if size > 0
      then
        sbind (q_front address) (\<lambda>shmem_req.
        sbind (now SIM_THREAD) (\<lambda>t.
        sseq (upd_req shmem_req (\<lambda>r. req_updateTime r t)) (
        sbind (get_req shmem_req) (\<lambda>r.
        sseq (updateElapsedTime (m_req_time r) SIM_THREAD) (
        sbind (get_entry directory_entry) (\<lambda>e.
        let ty = m_msg_type (m_shmem_msg r) in
        if ty = EX_REQ
        then
          if m_dstate e = D_UNCACHED
          then
            sseq (updateShmemPerf_req shmem_req INV_IMBALANCE) (
            processExReqFromL2Cache next shmem_req None)
          else sret ()
        else if ty = UPGRADE_REQ
        then
          if getNumSharers e = 1
          then
            sbind (slift (hasSharer e (m_requester (m_shmem_msg r)))) (\<lambda>has_sharer.
            if has_sharer
            then
              sseq (updateShmemPerf_req shmem_req INV_IMBALANCE) (
              processUpgradeReqFromL2Cache next shmem_req None)
            else sret ())
          else if getNumSharers e = 0
          then
            sseq (setDState directory_entry D_UNCACHED) (
            sseq (updateShmemPerf_req shmem_req INV_IMBALANCE) (
            processUpgradeReqFromL2Cache next shmem_req None))
          else sret ()
        else if ty = SH_REQ
        then
          if m_wait_for_data r then sret ()
          else if isForwarding r \<and> sender \<noteq> m_forwarding_from r then sret ()
          else
            sseq (updateShmemPerf_req shmem_req INV_IMBALANCE) (
            processShReqFromL2Cache next shmem_req None)
        else
          if m_dstate e = D_UNCACHED
          then
            sseq (updateShmemPerf_req shmem_req INV_IMBALANCE) (
            processNullifyReq next shmem_req)
          else sret ()))))))
      else sret ()))))))"

definition flush_removed :: "core_id_t \<Rightarrow> DirectoryEntry \<Rightarrow> DirectoryEntry res" where
  \<comment> \<open>what a \<open>FLUSH_REP\<close> does to the entry\<close>
  "flush_removed sender e =
     rbind (hasSharer e sender) (\<lambda>has_sharer.
     rbind (ensure AssertFailed has_sharer) (\<lambda>_.
     rbind (removeSharer e sender False) (\<lambda>e.
     rbind (setOwner (e\<lparr>m_forwarder_id := INVALID_CORE_ID\<rparr>) INVALID_CORE_ID) (\<lambda>e.
     if getNumSharers e = 0 then Inr (e\<lparr>m_dstate := D_UNCACHED\<rparr>)
     else rbind (ensure AssertFailed (m_dstate e = D_SHARED)) (\<lambda>_. Inr e)))))"

definition processFlushRepFromL2Cache :: "nat \<Rightarrow> core_id_t \<Rightarrow> ShmemMsg \<Rightarrow> unit dcm" where
  "processFlushRepFromL2Cache fuel sender shmem_msg =
     (let address = m_msg_address shmem_msg; next = processNextReqFromL2Cache fuel in
      sbind (now SIM_THREAD) (\<lambda>t.
      sbind (lookup_some address) (\<lambda>directory_entry.
      sseq (upd_dir_entry directory_entry (flush_removed sender)) (
      sbind (q_size address) (\<lambda>size.
      if size \<noteq> 0
      then
        sbind (q_front address) (\<lambda>shmem_req.
        sseq (upd_req shmem_req (\<lambda>r. req_updateTime r t)) (
        sbind (get_req shmem_req) (\<lambda>r.
        sseq (updateElapsedTime (m_req_time r) SIM_THREAD) (
        sseq (perf_updateTime (m_perf (m_shmem_msg r)) t T_UNKNOWN) (
        sseq (updateShmemPerf_req shmem_req TD_ACCESS) (
        let ty = m_msg_type (m_shmem_msg r) in
        if ty = EX_REQ then processExReqFromL2Cache next shmem_req (m_data_buf shmem_msg)
        else if ty = SH_REQ
        then
          sseq (sendDataToDram address (m_requester shmem_msg) (m_data_buf shmem_msg) t) (
          processShReqFromL2Cache next shmem_req (m_data_buf shmem_msg))
        else if ty = UPGRADE_REQ
        then
          sbind (get_entry directory_entry) (\<lambda>e.
          if getNumSharers e = 0
          then
            sseq (setDState directory_entry D_UNCACHED) (
            processUpgradeReqFromL2Cache next shmem_req (m_data_buf shmem_msg))
          else
            upd_req shmem_req (\<lambda>r. r\<lparr>m_shmem_msg := (m_shmem_msg r)\<lparr>m_data_buf := m_data_buf shmem_msg\<rparr>\<rparr>))
        else
          sseq (sendDataToDram address (m_requester shmem_msg) (m_data_buf shmem_msg) t) (
          processNullifyReq next shmem_req)))))))
      else sendDataToDram address (m_requester shmem_msg) (m_data_buf shmem_msg) t)))))"

definition processWbRepFromL2Cache :: "nat \<Rightarrow> core_id_t \<Rightarrow> ShmemMsg \<Rightarrow> unit dcm" where
  "processWbRepFromL2Cache fuel sender shmem_msg =
     (let address = m_msg_address shmem_msg in
      sbind (now SIM_THREAD) (\<lambda>t.
      sbind (lookup_some address) (\<lambda>directory_entry.
      sbind (get_entry directory_entry) (\<lambda>e.
      sbind (slift (hasSharer e sender)) (\<lambda>has_sharer.
      sseq (sassert has_sharer) (
      sseq (upd_dir_entry directory_entry (\<lambda>e. setOwner e INVALID_CORE_ID)) (
      sseq (setDState directory_entry D_SHARED) (
      sbind (q_size address) (\<lambda>size.
      if size \<noteq> 0
      then
        sbind (q_front address) (\<lambda>shmem_req.
        sseq (upd_req shmem_req (\<lambda>r. req_updateTime r t)) (
        sbind (get_req shmem_req) (\<lambda>r.
        sseq (updateElapsedTime (m_req_time r) SIM_THREAD) (
        sseq (perf_updateTime (m_perf (m_shmem_msg r)) t T_UNKNOWN) (
        sseq (updateShmemPerf_req shmem_req TD_ACCESS) (
        sseq (sassert (m_msg_type (m_shmem_msg r) = SH_REQ)) (
        processShReqFromL2Cache (processNextReqFromL2Cache fuel) shmem_req (m_data_buf shmem_msg))))))))
      else sthrow LogError)))))))))"

subsection \<open>Messages\<close>

definition handleMsgFromL2Cache :: "nat \<Rightarrow> core_id_t \<Rightarrow> ShmemMsg \<Rightarrow> unit dcm" where
  "handleMsgFromL2Cache fuel sender shmem_msg =
     (let shmem_msg_type = m_msg_type shmem_msg; address = m_msg_address shmem_msg;
          next = processNextReqFromL2Cache fuel;
          request = (\<lambda>msg_time process.
            sbind (new_req shmem_msg msg_time) (\<lambda>shmem_req.
            sseq (q_enqueue address shmem_req) (
            sbind (q_size address) (\<lambda>size.
            if size = 1 then process next shmem_req None else sret ())))) in
      sbind (now SIM_THREAD) (\<lambda>msg_time.
      sbind (lookup address True) (\<lambda>_.
      sseq (updateShmemPerf shmem_msg TD_ACCESS) (
      if shmem_msg_type = EX_REQ then request msg_time processExReqFromL2Cache
      else if shmem_msg_type = SH_REQ then request msg_time processShReqFromL2Cache
      else if shmem_msg_type = INV_REP then processInvRepFromL2Cache fuel sender shmem_msg
      else if shmem_msg_type = FLUSH_REP then processFlushRepFromL2Cache fuel sender shmem_msg
      else if shmem_msg_type = WB_REP then processWbRepFromL2Cache fuel sender shmem_msg
      else if shmem_msg_type = UPGRADE_REQ then request msg_time processUpgradeReqFromL2Cache
      else sthrow LogError))))"

definition handleMsgFromDRAM :: "nat \<Rightarrow> core_id_t \<Rightarrow> ShmemMsg \<Rightarrow> unit dcm" where
  "handleMsgFromDRAM fuel sender shmem_msg =
     (if m_msg_type shmem_msg = DRAM_READ_REP then processDRAMReply fuel sender shmem_msg else sthrow LogError)"

end
