(* ===== verification/DirCntlrInv.thy ===== *)
theory DirCntlrInv
  imports DirCntlr
begin

section \<open>The invariant of the directory controller\<close>

text \<open>
  What holds of \<open>dir_cntlr\<close> states between messages, and that every message keeps it.
\<close>

subsection \<open>Well-formed states\<close>

definition sharers_len :: "DramDirectoryCache \<Rightarrow> nat" where
  "sharers_len c = length (m_sharers (new_entry (m_directory c)))"

definition entry_ok :: "nat \<Rightarrow> DirectoryEntry \<Rightarrow> bool" where
  \<comment> \<open>the state of an entry agrees with its sharers; a modified or exclusive block has one holder, its owner\<close>
  "entry_ok n e \<longleftrightarrow> length (m_sharers e) = n \<and>
     (case m_dstate e of
        D_UNCACHED \<Rightarrow> sharer_set e = {}
      | D_SHARED \<Rightarrow> sharer_set e \<noteq> {}
      | D_OWNED \<Rightarrow> False
      | D_MODIFIED \<Rightarrow> sharer_set e = {m_owner_id e}
      | D_EXCLUSIVE \<Rightarrow> sharer_set e = {m_owner_id e})"

definition core_ok :: "dir_cntlr \<Rightarrow> core_id_t \<Rightarrow> bool" where
  "core_ok s i \<longleftrightarrow> 0 \<le> i \<and> nat i < sharers_len (dc_dir s)"

definition addr_ok :: "dir_cntlr \<Rightarrow> IntPtr \<Rightarrow> bool" where
  "addr_ok s a \<longleftrightarrow> a \<noteq> INVALID_ADDRESS \<and> (case dc_nuca s of None \<Rightarrow> True | Some n \<Rightarrow> block_address n a)"

definition req_ok :: "dir_cntlr \<Rightarrow> IntPtr \<Rightarrow> ShmemReq \<Rightarrow> bool" where
  "req_ok s a r \<longleftrightarrow> m_msg_address (m_shmem_msg r) = a \<and> core_ok s (m_requester (m_shmem_msg r)) \<and>
     perf_valid s (m_perf (m_shmem_msg r)) \<and> m_data_buf (m_shmem_msg r) = None"

definition queues_ok :: "dir_cntlr \<Rightarrow> bool" where
  "queues_ok s \<longleftrightarrow>
     (\<forall>a xs. dc_queue s a = Some xs \<longrightarrow> xs \<noteq> [] \<and> distinct xs \<and> length xs < 2 ^ 32 \<and> addr_ok s a \<and>
        (\<forall>p \<in> set xs. \<exists>r. st_map (dc_reqs s) p = Some r \<and> req_ok s a r)) \<and>
     (\<forall>a b xs ys. dc_queue s a = Some xs \<longrightarrow> dc_queue s b = Some ys \<longrightarrow> a \<noteq> b \<longrightarrow> set xs \<inter> set ys = {})"

definition dir_ok :: "dir_cntlr \<Rightarrow> bool" where
  "dir_ok s \<longleftrightarrow> ddc_wf (dc_dir s) \<and> sharers_len (dc_dir s) < 2 ^ 32 \<and>
     (\<forall>a e. dir_map (dc_dir s) a = Some e \<longrightarrow> entry_ok (sharers_len (dc_dir s)) e \<and> addr_ok s a)"

definition home_ok :: "AddressHomeLookup \<Rightarrow> bool" where
  "home_ok h \<longleftrightarrow> m_total_modules h \<noteq> 0 \<and> unat (m_total_modules h) \<le> length (m_core_list h)"

definition nuca_ok :: "dir_cntlr \<Rightarrow> bool" where
  "nuca_ok s \<longleftrightarrow> (case dc_nuca s of None \<Rightarrow> True | Some n \<Rightarrow> nuca_wf n \<and> nc_block_size n = dc_block_size s)"

definition dc_inv :: "dir_cntlr \<Rightarrow> bool" where
  "dc_inv s \<longleftrightarrow> dir_ok s \<and> queues_ok s \<and> env_wf s \<and> store_wf (dc_reqs s) \<and> home_ok (dc_home s) \<and> nuca_ok s"

definition frame :: "dir_cntlr \<Rightarrow> dir_cntlr \<Rightarrow> bool" where
  \<comment> \<open>what no step changes: the configuration, the objects others hold, and the buffers in use\<close>
  "frame s s' \<longleftrightarrow> dc_home s' = dc_home s \<and> dc_block_size s' = dc_block_size s \<and> sharers_len (dc_dir s') = sharers_len (dc_dir s) \<and>
     (case dc_nuca s of None \<Rightarrow> dc_nuca s' = None | Some n \<Rightarrow> \<exists>n'. dc_nuca s' = Some n' \<and> (n' = n \<or> nuca_next n n')) \<and>
     dom (st_map (env_perfs s')) = dom (st_map (env_perfs s)) \<and>
     (\<forall>p x. st_map (env_bufs s) p = Some x \<longrightarrow> st_map (env_bufs s') p = Some x)"

lemma frame_refl [simp]: "frame s s"
  by (simp add: frame_def split: option.split)

lemma frame_trans [trans]:
  assumes "frame s t" and "frame t u"
  shows "frame s u"
  using assms nuca_next_trans by (fastforce simp: frame_def split: option.splits)

lemma frame_ok:
  assumes "frame s s'"
  shows "core_ok s' = core_ok s" "addr_ok s' = addr_ok s" "perf_valid s' = perf_valid s"
    and "buf_valid s b n \<Longrightarrow> buf_valid s' b n" and "req_ok s' = req_ok s"
proof -
  show c: "core_ok s' = core_ok s" and p: "perf_valid s' = perf_valid s"
    using assms by (auto simp: frame_def core_ok_def perf_valid_def fun_eq_iff domIff set_eq_iff split: option.splits)
  show "addr_ok s' = addr_ok s"
    using assms nuca_next_address by (fastforce simp: frame_def addr_ok_def fun_eq_iff split: option.splits)
  show "buf_valid s b n \<Longrightarrow> buf_valid s' b n"
    using assms by (auto simp: frame_def buf_valid_def split: option.splits)
  show "req_ok s' = req_ok s"
    by (simp add: fun_eq_iff req_ok_def c p)
qed

lemma same_env_frame:
  assumes "same_env s s'"
  shows "dc_dir s' = dc_dir s" "dc_queue s' = dc_queue s" "dc_reqs s' = dc_reqs s" "dc_nuca s' = dc_nuca s"
    "dc_block_size s' = dc_block_size s" "dc_home s' = dc_home s" "env_bufs s' = env_bufs s" "dc_protocol s' = dc_protocol s"
    "dom (st_map (env_perfs s')) = dom (st_map (env_perfs s))" "frame s s'"
proof -
  obtain spm perfs net where s': "s' = s\<lparr>env_spm := spm, env_perfs := perfs, env_net := env_net s @ net\<rparr>"
      "dom (st_map perfs) = dom (st_map (env_perfs s))"
    using assms by (auto simp: same_env_def)
  show "dc_dir s' = dc_dir s" "dc_queue s' = dc_queue s" "dc_reqs s' = dc_reqs s" "dc_nuca s' = dc_nuca s"
    "dc_block_size s' = dc_block_size s" "dc_home s' = dc_home s" "env_bufs s' = env_bufs s" "dc_protocol s' = dc_protocol s"
    "dom (st_map (env_perfs s')) = dom (st_map (env_perfs s))"
    by (simp_all add: s')
  then show "frame s s'"
    by (simp add: frame_def split: option.split)
qed

lemma dc_invD:
  assumes "dc_inv s"
  shows "dir_ok s" "queues_ok s" "env_wf s" "store_wf (dc_reqs s)" "home_ok (dc_home s)" "nuca_ok s"
  using assms by (simp_all add: dc_inv_def)

lemma dc_invI:
  assumes "dc_inv s" and "frame s s'" and "dir_ok s'" and "queues_ok s'" and "env_wf s'" and "store_wf (dc_reqs s')" and "nuca_ok s'"
  shows "dc_inv s'"
  using assms by (simp add: dc_inv_def frame_def)

lemma dir_ok_frame: "dir_ok s \<Longrightarrow> frame s s' \<Longrightarrow> dc_dir s' = dc_dir s \<Longrightarrow> dir_ok s'"
  unfolding dir_ok_def by (simp add: frame_ok(2))

lemma queues_ok_frame: "queues_ok s \<Longrightarrow> frame s s' \<Longrightarrow> dc_queue s' = dc_queue s \<Longrightarrow> dc_reqs s' = dc_reqs s \<Longrightarrow> queues_ok s'"
  unfolding queues_ok_def by (simp add: frame_ok(2,5))

lemma nuca_ok_same: "nuca_ok s \<Longrightarrow> dc_nuca s' = dc_nuca s \<Longrightarrow> dc_block_size s' = dc_block_size s \<Longrightarrow> nuca_ok s'"
  by (simp add: nuca_ok_def split: option.splits)

lemma same_env_inv:
  assumes "same_env s s'" and "dc_inv s"
  shows "dc_inv s'"
proof -
  note f = same_env_frame [OF assms(1)] and i = dc_invD [OF assms(2)]
  show ?thesis
    using dir_ok_frame [OF i(1) f(10)] queues_ok_frame [OF i(2) f(10)] nuca_ok_same [OF i(6)] same_env_wf [OF assms(1) i(3)] i(4) f
    by (intro dc_invI [OF assms(2) f(10)]) simp_all
qed

subsection \<open>Steps that leave the queues alone\<close>

definition same_reqs :: "dir_cntlr \<Rightarrow> dir_cntlr \<Rightarrow> bool" where
  "same_reqs s s' \<longleftrightarrow> frame s s' \<and> dc_queue s' = dc_queue s \<and> dc_reqs s' = dc_reqs s \<and> env_bufs s' = env_bufs s"

lemma same_reqs_refl [simp]: "same_reqs s s"
  by (simp add: same_reqs_def)

lemma same_reqs_trans [trans]: "same_reqs s t \<Longrightarrow> same_reqs t u \<Longrightarrow> same_reqs s u"
  using frame_trans by (auto simp: same_reqs_def)

lemma same_env_reqs: "same_env s s' \<Longrightarrow> same_reqs s s'"
  by (simp add: same_reqs_def same_env_frame)

definition entry_of :: "dir_cntlr \<Rightarrow> IntPtr \<Rightarrow> entry_ptr \<Rightarrow> DirectoryEntry \<Rightarrow> bool" where
  "entry_of s a p e \<longleftrightarrow> a \<noteq> INVALID_ADDRESS \<and> dir_find (dc_dir s) a = Some p \<and> d_heap (m_directory (dc_dir s)) p = Some e"

lemma entry_of_dir: "dc_dir s' = dc_dir s \<Longrightarrow> entry_of s' = entry_of s"
  by (simp add: fun_eq_iff entry_of_def)

lemma entry_of_map: "entry_of s a p e \<Longrightarrow> dir_map (dc_dir s) a = Some e"
  by (simp add: entry_of_def dir_map_def)

lemma entry_of_ok:
  assumes "dc_inv s" and "entry_of s a p e"
  shows "entry_ok (sharers_len (dc_dir s)) e" "addr_ok s a" "de_address e = a" "length (m_sharers e) < 2 ^ 32"
    "core_ok s i \<Longrightarrow> core_in e i" "p \<in> set (live_list (dc_dir s))"
proof -
  have d: "dir_ok s" and wf: "ddc_wf (dc_dir s)"
    using assms(1) by (simp_all add: dc_inv_def dir_ok_def)
  show ok: "entry_ok (sharers_len (dc_dir s)) e" and "addr_ok s a"
    using d entry_of_map [OF assms(2)] by (simp_all add: dir_ok_def)
  show "p \<in> set (live_list (dc_dir s))" and "de_address e = a"
    using assms(2) dir_find_Some [OF wf, of a p] by (auto simp: entry_of_def entry_addr_def)
  show "length (m_sharers e) < 2 ^ 32" "core_ok s i \<Longrightarrow> core_in e i"
    using ok d by (simp_all add: entry_ok_def dir_ok_def core_ok_def core_in_def)
qed

lemma inv_quiet:
  assumes "quiet stop m P s" and "dc_inv s" and "\<And>x s'. dc_inv s' \<Longrightarrow> same_env s s' \<Longrightarrow> P x \<Longrightarrow> Q x s'"
  shows "wp m Q s"
  using assms(1) by (rule quiet_wp) (rule assms(3), erule same_env_inv [OF _ assms(2)])

lemma quiet_times: "quiet True (sfor (\<lambda>t. incrElapsedTime t th) ts) (\<lambda>_. True) s"
proof (induction ts arbitrary: s)
  case Nil
  show ?case
    by (simp add: quiet_sret)
next
  case (Cons t ts)
  show ?case
    unfolding sfor.simps by (rule quiet_sseq [OF quiet_env(3) Cons.IH])
qed

lemma new_entry_ok: "entry_ok (sharers_len c) ((new_entry (m_directory c))\<lparr>de_address := a\<rparr>)"
  by (simp add: entry_ok_def sharers_len_def)

lemma set_dir_inv:
  assumes "dc_inv s" and "ddc_wf c" and "sharers_len c = sharers_len (dc_dir s)"
    and "\<And>a e. dir_map c a = Some e \<Longrightarrow> entry_ok (sharers_len c) e \<and> addr_ok s a"
  shows "dc_inv (s\<lparr>dc_dir := c\<rparr>)" "same_reqs s (s\<lparr>dc_dir := c\<rparr>)"
proof -
  note i = dc_invD [OF assms(1)]
  have f: "frame s (s\<lparr>dc_dir := c\<rparr>)"
    using assms(3) by (simp add: frame_def split: option.split)
  show "same_reqs s (s\<lparr>dc_dir := c\<rparr>)"
    using f by (simp add: same_reqs_def)
  have "dir_ok (s\<lparr>dc_dir := c\<rparr>)"
    unfolding dir_ok_def frame_ok(2) [OF f] using assms(2-4) i(1) by (simp add: dir_ok_def)
  moreover have "queues_ok (s\<lparr>dc_dir := c\<rparr>)"
    by (rule queues_ok_frame [OF i(2) f]) simp_all
  moreover have "nuca_ok (s\<lparr>dc_dir := c\<rparr>)"
    by (rule nuca_ok_same [OF i(6)]) simp_all
  ultimately show "dc_inv (s\<lparr>dc_dir := c\<rparr>)"
    using i(3,4) by (intro dc_invI [OF assms(1) f]) (simp_all add: env_wf_def)
qed

lemma keep_entries:
  assumes "dc_inv s" and "ddc_wf c" and "set (live_list (dc_dir s)) \<subseteq> set (live_list c)"
    and "\<forall>p e. d_heap (m_directory (dc_dir s)) p = Some e \<and> de_address e \<noteq> INVALID_ADDRESS \<longrightarrow> d_heap (m_directory c) p = Some e"
    and "entry_of s b q e"
  shows "entry_of (s\<lparr>dc_dir := c\<rparr>) b q e"
proof -
  have wf: "ddc_wf (dc_dir s)"
    using assms(1) by (simp add: dc_inv_def dir_ok_def)
  note k = entry_of_ok [OF assms(1,5)]
  have b: "b \<noteq> INVALID_ADDRESS" "dir_find (dc_dir s) b = Some q" "d_heap (m_directory (dc_dir s)) q = Some e"
    using assms(5) by (simp_all add: entry_of_def)
  have h: "d_heap (m_directory c) q = Some e"
    using assms(4) b k(3) by blast
  have "dir_find c b = Some q"
    by (rule dir_find_keep [OF wf assms(2) b(1,2)]) (use assms(3) k(6) h b(3) in auto)
  with b(1) h show ?thesis
    by (simp add: entry_of_def)
qed

lemma wp_lookup:
  assumes inv: "dc_inv s" and a: "addr_ok s a"
    and Q: "\<And>p s'. dc_inv s' \<Longrightarrow> same_reqs s s' \<Longrightarrow> (\<And>b q e. entry_of s b q e \<Longrightarrow> entry_of s' b q e) \<Longrightarrow>
      dir_find (dc_dir s') a = p \<Longrightarrow>
      (case p of None \<Rightarrow> set_full (dc_dir s') (set_of (dc_dir s') a)
        | Some q \<Rightarrow> \<exists>e. entry_of s' a q e \<and> (dir_map (dc_dir s) a = Some e \<or> sharer_set e = {})) \<Longrightarrow> Q p s'"
  shows "wp (lookup a modeled) Q s"
proof -
  have wf: "ddc_wf (dc_dir s)" and ai: "a \<noteq> INVALID_ADDRESS"
    using inv a by (simp_all add: dc_inv_def dir_ok_def addr_ok_def)
  obtain r t c where g: "getDirectoryEntry (dc_access_time s) (dc_dir s) a modeled = Inr (r, t, c)" and wf': "ddc_wf c"
    and sc: "same_consts (dc_dir s) c" and f: "dir_find c a = r"
    and keep: "\<forall>p e. d_heap (m_directory (dc_dir s)) p = Some e \<and> de_address e \<noteq> INVALID_ADDRESS \<longrightarrow> d_heap (m_directory c) p = Some e"
    and r: "case r of
        None \<Rightarrow> dir_map (dc_dir s) a = None \<and> dir_map c = dir_map (dc_dir s) \<and> set_full (dc_dir s) (set_of (dc_dir s) a) \<and> set_full c (set_of (dc_dir s) a)
      | Some p \<Rightarrow> (if dir_map (dc_dir s) a = None
                   then \<not> set_full (dc_dir s) (set_of (dc_dir s) a) \<and>
                     dir_map c = (dir_map (dc_dir s))(a \<mapsto> (new_entry (m_directory (dc_dir s)))\<lparr>de_address := a\<rparr>)
                   else dir_map c = dir_map (dc_dir s))"
    and live: "set (live_list (dc_dir s)) \<subseteq> set (live_list c)"
    using getDirectoryEntry_spec [OF wf ai, of "dc_access_time s" modeled] by (elim exE conjE) (rule that)
  have ne: "new_entry (m_directory c) = new_entry (m_directory (dc_dir s))" and so: "set_of c = set_of (dc_dir s)"
    using sc same_consts_set_of [OF sc] by (simp_all add: same_consts_def)
  have n: "sharers_len c = sharers_len (dc_dir s)"
    by (simp add: sharers_len_def ne del: new_entry_fields)
  have m: "dir_map c b = Some e \<Longrightarrow> entry_ok (sharers_len c) e \<and> addr_ok s b" for b e
    using r dc_invD(1) [OF inv] a new_entry_ok [of "dc_dir s" a]
    by (auto simp: dir_ok_def n split: option.splits if_splits)
  note s1 = set_dir_inv [OF inv wf' n m]
  have at: "case r of None \<Rightarrow> set_full c (set_of c a)
    | Some q \<Rightarrow> \<exists>e. entry_of (s\<lparr>dc_dir := c\<rparr>) a q e \<and> (dir_map (dc_dir s) a = Some e \<or> sharer_set e = {})"
  proof (cases r)
    case None
    then show ?thesis
      using r by (simp add: so)
  next
    case (Some q)
    then have "dir_find c a = Some q"
      using f by simp
    moreover from this obtain e where "d_heap (m_directory c) q = Some e"
      using dir_find_Some [OF wf' ai] live_in_heap [OF wf'] by blast
    ultimately have e: "entry_of (s\<lparr>dc_dir := c\<rparr>) a q e"
      using ai unfolding entry_of_def by simp
    moreover have "dir_map (dc_dir s) a = Some e \<or> sharer_set e = {}"
      using r Some entry_of_map [OF e] by (auto split: if_splits)
    ultimately show ?thesis
      using Some by auto
  qed
  have "wp (sfor (\<lambda>t. incrElapsedTime t SIM_THREAD) t) (\<lambda>_. Q r) (s\<lparr>dc_dir := c\<rparr>)"
  proof (rule inv_quiet [OF quiet_times s1(1)])
    fix s'
    assume s': "dc_inv s'" "same_env (s\<lparr>dc_dir := c\<rparr>) s'"
    note d = same_env_frame(1) [OF s'(2)]
    show "Q r s'"
      using Q [OF s'(1) same_reqs_trans [OF s1(2) same_env_reqs [OF s'(2)]], of r] keep_entries [OF inv wf' live keep] at f
      by (auto simp: entry_of_dir [OF d] d split: option.splits)
  qed
  then show ?thesis
    by (simp add: lookup_def wp g)
qed

lemma wp_lookup_some:
  assumes "dc_inv s" and "addr_ok s a"
    and "\<And>p e s'. dc_inv s' \<Longrightarrow> same_reqs s s' \<Longrightarrow> (\<And>b q e. entry_of s b q e \<Longrightarrow> entry_of s' b q e) \<Longrightarrow> entry_of s' a p e \<Longrightarrow>
      dir_map (dc_dir s) a = Some e \<or> sharer_set e = {} \<Longrightarrow> Q p s'"
  shows "wp (lookup_some a) Q s"
  unfolding lookup_some_def wp_sbind
  by (rule wp_lookup [OF assms(1,2)]) (auto simp: wp split: option.splits intro: assms(3))

subsection \<open>Changing an entry\<close>

abbreviation heap_of :: "dir_cntlr \<Rightarrow> entry_ptr \<rightharpoonup> DirectoryEntry" where
  "heap_of s \<equiv> d_heap (m_directory (dc_dir s))"

definition set_entry :: "entry_ptr \<Rightarrow> DirectoryEntry \<Rightarrow> dir_cntlr \<Rightarrow> dir_cntlr" where
  "set_entry p e s = s\<lparr>dc_dir := (dc_dir s)\<lparr>m_directory := upd_entry (m_directory (dc_dir s)) p e\<rparr>\<rparr>"

lemma set_entry_simps [simp]:
  "set_entry p e2 (set_entry p e1 s) = set_entry p e2 s" "heap_of (set_entry p e s) = (heap_of s)(p \<mapsto> e)"
  "m_use_max_hw_sharers (m_directory (dc_dir (set_entry p e s))) = m_use_max_hw_sharers (m_directory (dc_dir s))"
  by (simp_all add: set_entry_def upd_entry_def)

lemma wp_get_entry [wp]:
  "wp (get_entry p) Q = (\<lambda>s. case heap_of s p of None \<Rightarrow> False | Some e \<Rightarrow> Q e s)"
  by (simp add: fun_eq_iff get_entry_def wp deref_entry_def split: option.split)

lemma wp_put_entry [wp]: "wp (put_entry p e) Q = (\<lambda>s. Q () (set_entry p e s))"
  by (simp add: fun_eq_iff put_entry_def wp set_entry_def)

lemma wp_upd_dir_entry [wp]:
  "wp (upd_dir_entry p f) Q = (\<lambda>s.
     case heap_of s p of None \<Rightarrow> False | Some e \<Rightarrow> (case f e of Inl err \<Rightarrow> stops err | Inr e' \<Rightarrow> Q () (set_entry p e' s)))"
  by (simp add: fun_eq_iff upd_dir_entry_def wp split: option.split sum.split)

lemma wp_setDState [wp]:
  "wp (setDState p st) Q = (\<lambda>s.
     case heap_of s p of None \<Rightarrow> False | Some e \<Rightarrow> Q () (set_entry p (e\<lparr>m_dstate := st\<rparr>) s))"
  by (simp add: fun_eq_iff setDState_def wp split: option.split)

lemma wp_setForwarder [wp]:
  "wp (setForwarder p i) Q = (\<lambda>s.
     case heap_of s p of None \<Rightarrow> False | Some e \<Rightarrow> Q () (set_entry p (e\<lparr>m_forwarder_id := i\<rparr>) s))"
  by (simp add: fun_eq_iff setForwarder_def wp split: option.split)

lemma entry_of_heap: "entry_of s a p e \<Longrightarrow> heap_of s p = Some e"
  by (simp add: entry_of_def)

lemma set_entry_inv:
  assumes inv: "dc_inv s" and e: "entry_of s a p e" and e': "entry_ok (sharers_len (dc_dir s)) e'" "de_address e' = a"
  shows "dc_inv (set_entry p e' s)" "same_reqs s (set_entry p e' s)" "entry_of (set_entry p e' s) a p e'"
    and "\<And>b q x. b \<noteq> a \<Longrightarrow> entry_of s b q x \<Longrightarrow> entry_of (set_entry p e' s) b q x"
proof -
  let ?c = "(dc_dir s)\<lparr>m_directory := upd_entry (m_directory (dc_dir s)) p e'\<rparr>"
  have wf: "ddc_wf (dc_dir s)"
    using inv by (simp add: dc_inv_def dir_ok_def)
  note k = entry_of_ok [OF inv e]
  have ai: "a \<noteq> INVALID_ADDRESS" and h: "heap_of s p = Some e"
    using e by (simp_all add: entry_of_def)
  have wf': "ddc_wf ?c"
    by (rule upd_entry_wf [OF wf k(6) h]) (use e'(2) ai k(3) in auto)
  have ea: "entry_addr (m_directory ?c) = entry_addr (m_directory (dc_dir s))"
    using h e'(2) k(3) by (auto simp: fun_eq_iff entry_addr_def upd_entry_def)
  have fnd: "dir_find ?c = dir_find (dc_dir s)"
    unfolding fun_eq_iff dir_find_def ea by (simp add: live_list_def)
  have hp: "d_heap (m_directory ?c) = (heap_of s)(p \<mapsto> e')"
    by (simp add: upd_entry_def)
  have n: "sharers_len ?c = sharers_len (dc_dir s)"
    by (simp add: sharers_len_def)
  have uniq: "b = a" if "dir_find (dc_dir s) b = Some p" "b \<noteq> INVALID_ADDRESS" for b
    using that dir_find_Some [OF wf, of b p] h k(3) by (simp add: entry_addr_def)
  have m: "entry_ok (sharers_len ?c) x \<and> addr_ok s b" if "dir_map ?c b = Some x" for b x
  proof (cases "b = a")
    case True
    with that e' ai e have "x = e'"
      by (simp add: dir_map_def fnd entry_of_def)
    with True e'(1) k(2) show ?thesis
      by (simp add: n)
  next
    case False
    then have "dir_map (dc_dir s) b = Some x"
      using that uniq [of b] by (auto simp: dir_map_def fnd hp split: if_splits option.splits)
    then show ?thesis
      using dc_invD(1) [OF inv] by (simp add: dir_ok_def n)
  qed
  show "dc_inv (set_entry p e' s)" "same_reqs s (set_entry p e' s)"
    using set_dir_inv [OF inv wf' n m] by (simp_all only: set_entry_def)
  show "entry_of (set_entry p e' s) a p e'"
    using e by (simp add: entry_of_def set_entry_def fnd hp)
  show "entry_of (set_entry p e' s) b q x" if "b \<noteq> a" "entry_of s b q x" for b q x
    using that uniq [of b] by (auto simp: entry_of_def set_entry_def fnd hp)
qed

lemma entry_ok_update [simp]:
  "entry_ok n (e\<lparr>m_forwarder_id := i\<rparr>) = entry_ok n e" "entry_ok n (e\<lparr>de_scheme := sch\<rparr>) = entry_ok n e"
  by (simp_all add: entry_ok_def split: dstate_t.split)

lemma wp_take_ownership:
  assumes inv: "dc_inv s" and e: "entry_of s a p e" "m_dstate e = D_UNCACHED" and i: "core_ok s i"
    and st: "st \<in> {D_SHARED, D_MODIFIED, D_EXCLUSIVE}"
    and Q: "\<And>e'. entry_ok (sharers_len (dc_dir s)) e' \<Longrightarrow> de_address e' = a \<Longrightarrow> Q () (set_entry p e' s)"
  shows "wp (take_ownership p i st) Q s"
proof -
  note k = entry_of_ok [OF inv e(1)]
  have ci: "core_in e i"
    using k(5) i by blast
  have em: "sharer_set e = {}"
    using k(1) e(2) by (simp add: entry_ok_def)
  let ?mx = "m_use_max_hw_sharers (m_directory (dc_dir s))"
  have h: "heap_of s p = Some e"
    using e(1) by (rule entry_of_heap)
  show ?thesis
  proof (cases "addSharer e i ?mx")
    case (Inl err)
    then have "stops err"
      using addSharer_spec [OF ci k(4), of ?mx] by (auto split: if_splits entry_scheme.splits)
    with Inl show ?thesis
      by (simp add: take_ownership_def entry_addSharer_def wp h)
  next
    case (Inr r)
    then obtain b e1 where r: "addSharer e i ?mx = Inr (b, e1)"
      by (cases r) simp
    note c = addSharer_correct [OF r ci k(4)]
    show ?thesis
    proof (cases b)
      case False
      with r show ?thesis
        by (simp add: take_ownership_def entry_addSharer_def wp h)
    next
      case True
      have s1: "sharer_set e1 = {i}"
        using c(3) True em by simp
      have c1: "core_in e1 i"
        using s1 by (simp add: sharer_set_core_in)
      have own: "setOwner e1 i = Inr (e1\<lparr>m_owner_id := i\<rparr>)"
        using setOwner_spec(1) [OF c1] s1 by simp
      have "entry_ok (sharers_len (dc_dir s)) (e1\<lparr>m_owner_id := i, m_dstate := st\<rparr>)"
        using c(2) s1 st k(1) by (auto simp: entry_ok_def same_entry_def)
      moreover have "de_address (e1\<lparr>m_owner_id := i, m_dstate := st\<rparr>) = a"
        using c(2) k(3) by (simp add: same_entry_def)
      ultimately have "Q () (set_entry p (e1\<lparr>m_owner_id := i, m_dstate := st\<rparr>) s)"
        by (rule Q)
      with r True own show ?thesis
        by (simp add: take_ownership_def entry_addSharer_def wp h)
    qed
  qed
qed

subsection \<open>Requests\<close>

definition set_req :: "nat \<Rightarrow> ShmemReq \<Rightarrow> dir_cntlr \<Rightarrow> dir_cntlr" where
  "set_req p r s = s\<lparr>dc_reqs := st_put p r (dc_reqs s)\<rparr>"

lemma wp_get_req [wp]: "wp (get_req p) Q = (\<lambda>s. case st_map (dc_reqs s) p of None \<Rightarrow> False | Some r \<Rightarrow> Q r s)"
  by (simp add: fun_eq_iff get_req_def wp st_get_def split: option.split)

lemma wp_upd_req [wp]:
  "wp (upd_req p f) Q = (\<lambda>s. case st_map (dc_reqs s) p of None \<Rightarrow> False | Some r \<Rightarrow> Q () (set_req p (f r) s))"
  by (simp add: fun_eq_iff upd_req_def wp set_req_def split: option.split)

definition req_of :: "dir_cntlr \<Rightarrow> IntPtr \<Rightarrow> nat list \<Rightarrow> nat \<Rightarrow> ShmemReq \<Rightarrow> bool" where
  "req_of s a xs p r \<longleftrightarrow> dc_queue s a = Some xs \<and> p \<in> set xs \<and> st_map (dc_reqs s) p = Some r"

lemma req_of_ok:
  assumes "dc_inv s" and "req_of s a xs p r"
  shows "m_msg_address (m_shmem_msg r) = a" "core_ok s (m_requester (m_shmem_msg r))" "perf_valid s (m_perf (m_shmem_msg r))"
    "m_data_buf (m_shmem_msg r) = None" "addr_ok s a" "st_map (dc_reqs s) p = Some r" "xs \<noteq> []" "length xs < 2 ^ 32" "req_ok s a r"
  using assms unfolding dc_inv_def queues_ok_def req_of_def req_ok_def by fastforce+

lemma set_req_inv:
  assumes inv: "dc_inv s" and p: "req_of s a xs p r" and ok: "req_ok s a r'"
  shows "dc_inv (set_req p r' s)" "frame s (set_req p r' s)" "req_of (set_req p r' s) a xs p r'"
    "dc_queue (set_req p r' s) = dc_queue s" "dc_dir (set_req p r' s) = dc_dir s" "env_bufs (set_req p r' s) = env_bufs s"
proof -
  let ?s = "set_req p r' s"
  note i = dc_invD [OF inv]
  show f: "frame s ?s"
    by (simp add: frame_def set_req_def split: option.split)
  show "dc_queue ?s = dc_queue s" and d: "dc_dir ?s = dc_dir s" and "env_bufs ?s = env_bufs s"
    by (simp_all add: set_req_def)
  show "req_of ?s a xs p r'"
    using p by (simp add: req_of_def set_req_def)
  have only: "b = a" if "dc_queue s b = Some ys" "p \<in> set ys" for b ys
    using i(2) that p unfolding queues_ok_def req_of_def by blast
  have "queues_ok ?s"
    unfolding queues_ok_def frame_ok(2,5) [OF f]
  proof (intro conjI allI impI ballI)
    fix b ys q
    assume b: "dc_queue ?s b = Some ys" and q: "q \<in> set ys"
    have "\<exists>r. st_map (dc_reqs s) q = Some r \<and> req_ok s b r"
      using i(2) b q unfolding queues_ok_def by (simp add: set_req_def)
    with only [of b ys] b q ok show "\<exists>r. st_map (dc_reqs ?s) q = Some r \<and> req_ok s b r"
      by (auto simp: set_req_def)
  qed (use i(2) in \<open>auto simp: queues_ok_def set_req_def\<close>)
  moreover have "store_wf (dc_reqs ?s)"
    using i(4) p by (simp add: set_req_def req_of_def)
  moreover have "nuca_ok ?s"
    by (rule nuca_ok_same [OF i(6)]) (simp_all add: set_req_def)
  ultimately show "dc_inv ?s"
    using dir_ok_frame [OF i(1) f d] i(3) by (intro dc_invI [OF inv f]) (simp_all add: env_wf_def set_req_def)
qed

lemma same_reqs_req: "same_reqs s s' \<Longrightarrow> req_of s' = req_of s"
  by (simp add: fun_eq_iff req_of_def same_reqs_def)

lemma sint_le_unat: "sint (w :: u32) \<le> int (unat w)"
  by (simp add: sint_uint signed_take_bit_int_less_eq_self_iff order_trans [OF _ uint_ge_0])

lemma home_total:
  assumes "home_ok h"
  shows "case getHome h a of Inl e \<Rightarrow> stops e | Inr _ \<Rightarrow> True"
proof -
  have "nat m < length (m_core_list h)" if "0 \<le> m" "m < sint (m_total_modules h)" for m
  proof -
    have "m < int (unat (m_total_modules h))"
      using that(2) sint_le_unat [of "m_total_modules h"] by (rule less_le_trans)
    then have "nat m < unat (m_total_modules h)"
      using that(1) by (simp only: nat_less_iff)
    then show ?thesis
      using assms by (simp add: home_ok_def)
  qed
  then show ?thesis
    using assms by (auto simp: getHome_def home_ok_def Let_def ensure_def)
qed

lemma quiet_dram_node:
  assumes "dc_inv s"
  shows "quiet True (dram_node a) (\<lambda>_. True) s"
  using home_total [OF dc_invD(5) [OF assms], of a]
  by (auto simp: dram_node_def intro!: quiet_sbind [OF quiet_sget [where P = "\<lambda>r. r = getHome (dc_home s) a"]] quiet_slift)

subsection \<open>Local buffers\<close>

definition same_ctl :: "dir_cntlr \<Rightarrow> dir_cntlr \<Rightarrow> bool" where
  "same_ctl s s' \<longleftrightarrow> frame s s' \<and> dc_queue s' = dc_queue s \<and> dc_reqs s' = dc_reqs s \<and> dc_dir s' = dc_dir s"

lemma same_ctl_refl [simp]: "same_ctl s s"
  by (simp add: same_ctl_def)

lemma same_ctl_trans [trans]: "same_ctl s t \<Longrightarrow> same_ctl t u \<Longrightarrow> same_ctl s u"
  using frame_trans by (auto simp: same_ctl_def)

lemma same_env_ctl: "same_env s s' \<Longrightarrow> same_ctl s s'"
  by (simp add: same_ctl_def same_env_frame)

lemma same_ctl_inv:
  assumes "dc_inv s" and "same_ctl s s'" and "env_wf s'" and "nuca_ok s'"
  shows "dc_inv s'"
proof -
  note i = dc_invD [OF assms(1)]
  show ?thesis
    using assms dir_ok_frame [OF i(1), of s'] queues_ok_frame [OF i(2), of s'] i(4)
    by (intro dc_invI [OF assms(1)]) (simp_all add: same_ctl_def)
qed

lemma bufs_irrelevant1 [simp]:
  "addr_ok (s\<lparr>env_bufs := b\<rparr>) = addr_ok s" "core_ok (s\<lparr>env_bufs := b\<rparr>) = core_ok s" "perf_valid (s\<lparr>env_bufs := b\<rparr>) = perf_valid s"
  by (auto simp: fun_eq_iff addr_ok_def core_ok_def perf_valid_def split: option.splits)

lemma bufs_irrelevant2 [simp]: "req_ok (s\<lparr>env_bufs := b\<rparr>) = req_ok s"
  by (simp add: fun_eq_iff req_ok_def)

lemma bufs_irrelevant [simp]:
  "dir_ok (s\<lparr>env_bufs := b\<rparr>) = dir_ok s" "queues_ok (s\<lparr>env_bufs := b\<rparr>) = queues_ok s" "nuca_ok (s\<lparr>env_bufs := b\<rparr>) = nuca_ok s"
  by (simp_all add: dir_ok_def queues_ok_def nuca_ok_def split: option.split)

lemma wp_with_buf:
  assumes inv: "dc_inv s"
    and k: "\<And>p s1. dc_inv s1 \<Longrightarrow> same_ctl s s1 \<Longrightarrow> dc_nuca s1 = dc_nuca s \<Longrightarrow> st_map (env_bufs s1) p = Some d \<Longrightarrow>
      wp (k p) (\<lambda>_ s2. dc_inv s2 \<and> frame s1 s2 \<and> R s2) s1"
    and R: "\<And>s2 st. R s2 \<Longrightarrow> R (s2\<lparr>env_bufs := st\<rparr>)"
  shows "wp (with_buf d k) (\<lambda>_ s'. dc_inv s' \<and> frame s s' \<and> R s') s"
proof -
  let ?p = "st_next (env_bufs s)"
  define s1 where "s1 = s\<lparr>env_bufs := snd (st_new d (env_bufs s))\<rparr>"
  have wf: "store_wf (env_bufs s)" and ew: "env_wf s"
    using inv by (simp_all add: dc_inv_def env_wf_def)
  have b1: "st_map (env_bufs s1) = (st_map (env_bufs s))(?p \<mapsto> d)"
    by (simp add: s1_def st_new_def)
  have c1: "same_ctl s s1"
    using store_wf_next [OF wf] by (auto simp: same_ctl_def frame_def s1_def st_new_def split: option.split)
  have i1: "dc_inv s1"
    by (rule same_ctl_inv [OF inv c1])
      (use ew nuca_ok_same [OF dc_invD(6) [OF inv], of s1] in \<open>simp_all add: env_wf_def s1_def\<close>)
  have "wp (k ?p) (\<lambda>_ s2. dc_inv s2 \<and> frame s1 s2 \<and> R s2) s1"
    by (rule k [OF i1 c1]) (simp add: s1_def, simp add: b1)
  moreover have "dc_inv (s2\<lparr>env_bufs := st_delete ?p (env_bufs s2)\<rparr>) \<and> frame s (s2\<lparr>env_bufs := st_delete ?p (env_bufs s2)\<rparr>) \<and>
      R (s2\<lparr>env_bufs := st_delete ?p (env_bufs s2)\<rparr>)" if s2: "dc_inv s2 \<and> frame s1 s2 \<and> R s2" for s2
  proof -
    let ?s = "s2\<lparr>env_bufs := st_delete ?p (env_bufs s2)\<rparr>"
    have f: "frame s ?s"
    proof -
      have f2: "frame s s2"
        using c1 s2 frame_trans by (auto simp: same_ctl_def)
      have "q \<noteq> ?p" if "st_map (env_bufs s) q = Some x" for q x
        using store_wf_next [OF wf] that by auto
      with f2 show ?thesis
        by (simp add: frame_def split: option.splits)
    qed
    with s2 R show ?thesis
      by (simp add: dc_inv_def env_wf_def)
  qed
  ultimately show ?thesis
    by (auto simp: with_buf_def new_buf_def free_buf_def wp s1_def st_new_def intro: wp_mono)
qed

subsection \<open>Data to the NUCA slice and to DRAM\<close>

definition data_ok :: "dir_cntlr \<Rightarrow> nat option \<Rightarrow> bool" where
  "data_ok s buf \<longleftrightarrow>
     (case buf of None \<Rightarrow> True | Some p \<Rightarrow> \<exists>x. st_map (env_bufs s) p = Some x \<and> length x = unat (dc_block_size s))"

lemma data_ok_frame: "frame s s' \<Longrightarrow> data_ok s buf \<Longrightarrow> data_ok s' buf"
  by (auto simp: data_ok_def frame_def split: option.splits)

lemma data_ok_buf: "data_ok s buf \<Longrightarrow> buf_valid s buf (dc_block_size s)"
  by (auto simp: data_ok_def buf_valid_def split: option.splits)

lemma set_nuca_inv:
  assumes inv: "dc_inv s" and n: "dc_nuca s = Some n" "nuca_next n n'"
  shows "dc_inv (s\<lparr>dc_nuca := Some n'\<rparr>)" "same_ctl s (s\<lparr>dc_nuca := Some n'\<rparr>)"
proof -
  show c: "same_ctl s (s\<lparr>dc_nuca := Some n'\<rparr>)"
    using n by (simp add: same_ctl_def frame_def)
  have "nuca_ok (s\<lparr>dc_nuca := Some n'\<rparr>)"
    using dc_invD(6) [OF inv] n by (simp add: nuca_ok_def nuca_next_def)
  then show "dc_inv (s\<lparr>dc_nuca := Some n'\<rparr>)"
    using dc_invD(3) [OF inv] by (intro same_ctl_inv [OF inv c]) (simp_all add: env_wf_def)
qed

lemma wp_read_buf:
  "data_ok s buf \<Longrightarrow> (\<And>d. (case d of None \<Rightarrow> True | Some x \<Rightarrow> length x = unat (dc_block_size s)) \<Longrightarrow> Q d s) \<Longrightarrow> wp (read_buf buf) Q s"
  by (auto simp: read_buf_def data_ok_def wp split: option.splits)

lemma wp_send_new_buf:
  assumes "dc_inv s" and "unat n \<le> length d" and "\<And>s'. dc_inv s' \<Longrightarrow> same_ctl s s' \<Longrightarrow> Q () s'"
  shows "wp (with_buf d (\<lambda>p. sendMsg ty sc rc requester receiver address (Some p) n hw None t)) Q s"
proof -
  have "wp (with_buf d (\<lambda>p. sendMsg ty sc rc requester receiver address (Some p) n hw None t))
      (\<lambda>_ s'. dc_inv s' \<and> frame s s' \<and> dc_queue s' = dc_queue s \<and> dc_reqs s' = dc_reqs s \<and> dc_dir s' = dc_dir s) s"
  proof (rule wp_with_buf [OF assms(1)])
    fix p s1
    assume s1: "dc_inv s1" "same_ctl s s1" "st_map (env_bufs s1) p = Some d"
    have "perf_valid s1 None" "buf_valid s1 (Some p) n"
      using s1(3) assms(2) by (simp_all add: perf_valid_def buf_valid_def)
    from quiet_env(6) [OF this]
    show "wp (sendMsg ty sc rc requester receiver address (Some p) n hw None t)
        (\<lambda>_ s2. dc_inv s2 \<and> frame s1 s2 \<and> dc_queue s2 = dc_queue s \<and> dc_reqs s2 = dc_reqs s \<and> dc_dir s2 = dc_dir s) s1"
      by (rule inv_quiet [OF _ s1(1)]) (use s1(2) in \<open>simp add: same_env_frame same_ctl_def\<close>)
  qed simp
  then show ?thesis
    by (rule wp_mono) (simp add: assms(3) same_ctl_def)
qed

lemma wp_write_evicted:
  assumes inv: "dc_inv s" and l: "unat (dc_block_size s) \<le> length eb" and Q: "\<And>s'. dc_inv s' \<Longrightarrow> same_ctl s s' \<Longrightarrow> Q () s'"
  shows "wp (if ev
         then sbind (dram_node ea) (\<lambda>dram_node.
              sbind (sget dc_core_id) (\<lambda>core_id.
              sbind (sget dc_block_size) (\<lambda>block_size.
              with_buf eb (\<lambda>p.
                sendMsg DRAM_WRITE_REQ TAG_DIR DRAM core_id dram_node ea (Some p) block_size HW_UNKNOWN
                  None SIM_THREAD))))
         else sret ()) Q s"
proof (cases ev)
  case True
  have "wp (dram_node ea) (\<lambda>x s'. wp (with_buf eb (\<lambda>p. sendMsg DRAM_WRITE_REQ TAG_DIR DRAM (dc_core_id s') x ea
      (Some p) (dc_block_size s') HW_UNKNOWN None SIM_THREAD)) Q s') s"
  proof (rule inv_quiet [OF quiet_dram_node [OF inv] inv])
    fix x s'
    assume s': "dc_inv s'" "same_env s s'"
    have "unat (dc_block_size s') \<le> length eb"
      using same_env_frame(5) [OF s'(2)] l by simp
    then show "wp (with_buf eb (\<lambda>p. sendMsg DRAM_WRITE_REQ TAG_DIR DRAM (dc_core_id s') x ea (Some p) (dc_block_size s')
        HW_UNKNOWN None SIM_THREAD)) Q s'"
      by (rule wp_send_new_buf [OF s'(1)]) (rule Q, assumption, rule same_ctl_trans [OF same_env_ctl [OF s'(2)]])
  qed
  with True show ?thesis
    by (simp add: wp)
qed (use Q [OF inv] in \<open>simp add: wp\<close>)

lemma wp_sendDataToNUCA:
  assumes inv: "dc_inv s" and a: "addr_ok s address" and d: "data_ok s data_buf"
    and Q: "\<And>s'. dc_inv s' \<Longrightarrow> same_ctl s s' \<Longrightarrow> Q () s'"
  shows "wp (sendDataToNUCA address requester data_buf t cnt) Q s"
proof (cases "dc_nuca s")
  case None
  then show ?thesis
    using Q [OF inv] by (simp add: sendDataToNUCA_def wp)
next
  case (Some n)
  have n: "nuca_wf n" "nc_block_size n = dc_block_size s" "block_address n address"
    using dc_invD(6) [OF inv] a Some by (simp_all add: nuca_ok_def addr_ok_def)
  let ?eb = "map (dc_junk_byte s) [0..<unat (dc_block_size s)]"
  have l: "length ?eb = unat (nc_block_size n)"
    by (simp add: n(2))
  show ?thesis
    unfolding sendDataToNUCA_def wp_sbind wp_sget Some option.case
  proof (rule wp_read_buf [OF d], unfold wp_now wp_sseq wp_smod)
    fix x :: "u8 list option"
    assume "case x of None \<Rightarrow> True | Some x \<Rightarrow> length x = unat (dc_block_size s)"
    then have x: "case x of None \<Rightarrow> True | Some x \<Rightarrow> length x = unat (nc_block_size n)"
      by (simp only: n(2))
    show "wp (nuca_write n address x (dc_junk_eviction s) (dc_junk_address s) ?eb (m_elapsed_time (env_spm s) SIM_THREAD) cnt)
       (\<lambda>r. wp (case r of (_, _, ev, ea, eb, n) \<Rightarrow> sseq (smod (\<lambda>s. s\<lparr>dc_nuca := Some n\<rparr>)) (
         if ev
         then sbind (dram_node ea) (\<lambda>dram_node.
              sbind (sget dc_core_id) (\<lambda>core_id.
              sbind (sget dc_block_size) (\<lambda>block_size.
              with_buf eb (\<lambda>p.
                sendMsg DRAM_WRITE_REQ TAG_DIR DRAM core_id dram_node ea (Some p) block_size HW_UNKNOWN
                  None SIM_THREAD))))
         else sret ())) Q) s"
    proof (rule inv_quiet [OF quiet_nuca_write [OF n(1,3) l x] inv])
      fix r s1
      assume s1: "dc_inv s1" "same_env s s1" and post: "nuca_write_post n address (dc_junk_eviction s) (dc_junk_address s) ?eb r"
      obtain l hw ev ea eb n' where r: "r = (l, hw, ev, ea, eb, n')"
        by (cases r) auto
      have n': "nuca_next n n'" "length eb = unat (dc_block_size s)"
        using post by (simp_all add: r nuca_write_post_def)
      have "dc_nuca s1 = Some n" and bs: "dc_block_size s1 = dc_block_size s"
        using same_env_frame [OF s1(2)] Some by simp_all
      note s2 = set_nuca_inv [OF s1(1) this(1) n'(1)]
      note c2 = same_ctl_trans [OF same_env_ctl [OF s1(2)] s2(2)]
      show "wp (case r of (_, _, ev, ea, eb, n) \<Rightarrow> sseq (smod (\<lambda>s. s\<lparr>dc_nuca := Some n\<rparr>)) (
         if ev
         then sbind (dram_node ea) (\<lambda>dram_node.
              sbind (sget dc_core_id) (\<lambda>core_id.
              sbind (sget dc_block_size) (\<lambda>block_size.
              with_buf eb (\<lambda>p.
                sendMsg DRAM_WRITE_REQ TAG_DIR DRAM core_id dram_node ea (Some p) block_size HW_UNKNOWN
                  None SIM_THREAD))))
         else sret ())) Q s1"
        unfolding r prod.case wp_sseq wp_smod
        by (rule wp_write_evicted [OF s2(1)]) (simp add: bs n'(2), rule Q, assumption, erule same_ctl_trans [OF c2])
    qed
  qed
qed

lemma wp_sendDataToDram:
  assumes inv: "dc_inv s" and a: "addr_ok s address" and d: "data_ok s data_buf"
    and Q: "\<And>s'. dc_inv s' \<Longrightarrow> same_ctl s s' \<Longrightarrow> Q () s'"
  shows "wp (sendDataToDram address requester data_buf t) Q s"
proof (cases "dc_nuca s")
  case None
  have "wp (dram_node address) (\<lambda>x s'. wp (sendMsg DRAM_WRITE_REQ TAG_DIR DRAM requester x address data_buf (dc_block_size s')
      HW_UNKNOWN None SIM_THREAD) Q s') s"
  proof (rule inv_quiet [OF quiet_dram_node [OF inv] inv])
    fix x s'
    assume s': "dc_inv s'" "same_env s s'"
    have "buf_valid s' data_buf (dc_block_size s')" "perf_valid s' None"
      using data_ok_buf [OF data_ok_frame [OF same_env_frame(10) [OF s'(2)] d]] by (simp_all add: perf_valid_def)
    from quiet_env(6) [OF this(2,1)]
    show "wp (sendMsg DRAM_WRITE_REQ TAG_DIR DRAM requester x address data_buf (dc_block_size s') HW_UNKNOWN None SIM_THREAD) Q s'"
      by (rule inv_quiet [OF _ s'(1)]) (simp add: Q same_ctl_trans [OF same_env_ctl [OF s'(2)] same_env_ctl])
  qed
  with None show ?thesis
    by (simp add: sendDataToDram_def wp)
next
  case (Some n)
  then show ?thesis
    using wp_sendDataToNUCA [where Q = Q, OF inv a d Q] by (simp add: sendDataToDram_def wp)
qed

end
