(* ===== verification/DirCntlrStep.thy ===== *)
theory DirCntlrStep
  imports DirCntlrInv
begin

section \<open>The steps of the directory controller keep its invariant\<close>

text \<open>
  Weakest preconditions of the controller's functions, from answering one request to working through a queue. \<open>kept s\<close>
  is their postcondition: the invariant, and what \<open>frame\<close> says did not change since \<open>s\<close>.
\<close>

subsection \<open>Answering a request\<close>

text \<open>
  \<open>next_ok next k\<close>: what the functions below rely on of \<open>next\<close>. It ends a queue with a single request,
  and keeps the invariant on every queue of at most \<open>k\<close> requests.
\<close>

definition popped :: "IntPtr \<Rightarrow> nat \<Rightarrow> nat list \<Rightarrow> dir_cntlr \<Rightarrow> dir_cntlr" where
  \<comment> \<open>the request at the front of a queue completes, \<open>xs\<close> remain\<close>
  "popped a p xs s =
     s\<lparr>dc_queue := (dc_queue s)(a := if xs = [] then None else Some xs), dc_reqs := st_delete p (dc_reqs s)\<rparr>"

abbreviation kept :: "dir_cntlr \<Rightarrow> 'x \<Rightarrow> dir_cntlr \<Rightarrow> bool" where
  "kept s \<equiv> \<lambda>_ s'. dc_inv s' \<and> frame s s'"

definition next_ok :: "(IntPtr \<Rightarrow> unit dcm) \<Rightarrow> nat \<Rightarrow> bool" where
  "next_ok next k \<longleftrightarrow>
     (\<forall>s a p r. dc_queue s a = Some [p] \<longrightarrow> st_map (dc_reqs s) p = Some r \<longrightarrow> next a s = Inr ((), popped a p [] s)) \<and>
     (\<forall>s a xs. dc_inv s \<longrightarrow> dc_queue s a = Some xs \<longrightarrow> length xs \<le> k \<longrightarrow> wp (next a) (kept s) s)"

lemma kept_mono: "wp m (kept t) s \<Longrightarrow> frame s0 t \<Longrightarrow> wp m (kept s0) s"
  by (erule wp_mono) (use frame_trans in blast)

lemma wp_last: "quiet True m (\<lambda>_. True) s \<Longrightarrow> dc_inv s \<Longrightarrow> frame s0 s \<Longrightarrow> wp m (kept s0) s"
  by (erule inv_quiet, assumption) (auto intro: frame_trans same_env_frame(10))

lemma wp_next:
  assumes "next_ok next k" and "dc_inv s" and "dc_queue s a = Some xs" and "length xs \<le> k" and "frame s0 s"
  shows "wp (next a) (kept s0) s"
  using assms by (intro kept_mono [OF _ assms(5)]) (simp add: next_ok_def)

lemma wp_q_size [wp]: "wp (q_size a) Q = (\<lambda>s. Q (size_rq a (dc_queue s)) s)"
  by (simp add: q_size_def wp)

lemma wp_q_front: "dc_queue s a = Some xs \<Longrightarrow> xs \<noteq> [] \<Longrightarrow> Q (hd xs) s \<Longrightarrow> wp (q_front a) Q s"
  by (cases xs) (simp_all add: q_front_def wp front_def)

lemma req_of_hd:
  assumes "dc_inv s" and "dc_queue s a = Some xs"
  obtains r where "req_of s a xs (hd xs) r" "xs \<noteq> []"
proof -
  have x: "xs \<noteq> []" "\<forall>p \<in> set xs. \<exists>r. st_map (dc_reqs s) p = Some r"
    using dc_invD(2) [OF assms(1)] assms(2) unfolding queues_ok_def by (blast, blast)
  moreover obtain r where "st_map (dc_reqs s) (hd xs) = Some r"
    using x by fastforce
  ultimately show ?thesis
    using assms(2) by (intro that [of r]) (simp_all add: req_of_def)
qed

lemma wp_read_nuca:
  assumes nx: "next_ok next k" and inv: "dc_inv s" and q: "dc_queue s a = Some xs" "length xs \<le> k"
    and a: "addr_ok s a" and p: "perf_valid s (m_perf msg)"
  shows "wp (read_nuca next ty receiver a msg) (\<lambda>b s'. dc_inv s' \<and> frame s s' \<and> (\<not> b \<longrightarrow> same_ctl s s')) s"
proof (cases "dc_nuca s")
  case None
  then show ?thesis
    using inv by (simp add: read_nuca_def wp)
next
  case (Some n)
  have n: "nuca_wf n" "nc_block_size n = dc_block_size s" "block_address n a"
    using dc_invD(6) [OF inv] a Some by (simp_all add: nuca_ok_def addr_ok_def)
  let ?buf = "map (dc_junk_byte s) [0..<unat (dc_block_size s)]"
  have l: "length ?buf = unat (nc_block_size n)"
    by (simp add: n(2))
  let ?Q = "\<lambda>b s'. dc_inv s' \<and> frame s s' \<and> (\<not> b \<longrightarrow> same_ctl s s')"
  show ?thesis
    unfolding read_nuca_def wp_sbind wp_sget Some option.case wp_now
  proof (rule inv_quiet [OF quiet_nuca_read [OF n(1,3) p l] inv], goal_cases)
    case s1: (1 r s1)
    obtain lat hw b n' where r: "r = (lat, hw, b, n')"
      by (cases r) auto
    have n': "nuca_next n n'" "length b = unat (dc_block_size s)"
      using s1(3) by (simp_all add: r nuca_read_post_def)
    have "dc_nuca s1 = Some n"
      using same_env_frame(4) [OF s1(2)] Some by simp
    note s2 = set_nuca_inv [OF s1(1) this n'(1)]
    let ?s2 = "s1\<lparr>dc_nuca := Some n'\<rparr>"
    have c2: "same_ctl s ?s2"
      using same_env_ctl [OF s1(2)] s2(2) by (rule same_ctl_trans)
    show ?case
      unfolding r prod.case wp_sseq wp_smod
    proof (rule inv_quiet [OF quiet_env(3) s2(1)], goal_cases)
      case s3: (1 _ s3)
      have c3: "same_ctl s s3"
        using c2 same_env_ctl [OF s3(2)] by (rule same_ctl_trans)
      have bs: "dc_block_size s3 = dc_block_size s"
        using c3 by (simp add: same_ctl_def frame_def)
      have "wp (with_buf b (\<lambda>p. sseq (sendMsg ty TAG_DIR L2_CACHE receiver receiver a (Some p) (dc_block_size s3) HW_NUCA_CACHE
                  (m_perf msg) SIM_THREAD) (next a))) (\<lambda>_ s'. dc_inv s' \<and> frame s3 s' \<and> True) s3"
      proof (rule wp_with_buf [OF s3(1)], goal_cases)
        case s4: (1 p' s4)
        have c4: "same_ctl s s4"
          using c3 s4(2) by (rule same_ctl_trans)
        then have f4: "frame s s4" and q4: "dc_queue s4 a = Some xs"
          using q(1) by (simp_all add: same_ctl_def)
        have "buf_valid s4 (Some p') (dc_block_size s3)"
          using s4(4) n'(2) bs by (simp add: buf_valid_def)
        moreover have "perf_valid s4 (m_perf msg)"
          using p frame_ok(3) [OF f4] by simp
        ultimately show ?case
          unfolding wp_sseq simp_thms
          by (intro inv_quiet [OF quiet_env(6) s4(1)])
            (auto simp: same_env_frame q4 intro!: wp_next [OF nx _ _ q(2)])
      qed simp
      then show ?case
        using s3(1) c3 frame_trans [of s s3] by (auto simp: wp same_ctl_def elim!: wp_mono)
    qed
  qed
qed

lemma wp_fetch_data:
  assumes inv: "dc_inv s" and q: "dc_queue s a = Some xs" and h: "heap_of s de = Some e" and p: "perf_valid s (m_perf msg)"
  shows "wp (fetch_data receiver a de msg) (kept s) s"
proof -
  obtain r where r: "req_of s a xs (hd xs) r" "xs \<noteq> []"
    using req_of_hd [OF inv q] by blast
  note rk = req_of_ok [OF inv r(1)]
  have upd: "wp m (kept s) (set_req (hd xs) r' s)"
    if "req_ok s a r'" "\<And>s3. dc_inv s3 \<Longrightarrow> perf_valid s3 = perf_valid s \<Longrightarrow> quiet True m (\<lambda>_. True) s3" for m r'
  proof -
    note u = set_req_inv [OF inv r(1) that(1)]
    show ?thesis
      by (rule wp_last [OF that(2) u(1)]) (use u(1,2) frame_ok(3) in auto)
  qed
  have rr: "req_ok s a (r\<lparr>m_forwarding_from := i\<rparr>)" "req_ok s a (r\<lparr>m_wait_for_data := True\<rparr>)" for i
    using rk(9) by (simp_all add: req_ok_def)
  have dram: "wp (sbind (dram_node a) (\<lambda>n. sendMsg DRAM_READ_REQ TAG_DIR DRAM receiver n a None 0 HW_UNKNOWN (m_perf msg) SIM_THREAD))
      (kept s) (set_req (hd xs) (r\<lparr>m_wait_for_data := True\<rparr>) s)"
    by (rule upd [OF rr(2)]) (auto simp: buf_valid_def p intro!: quiet_sbind [OF quiet_dram_node] quiet_env(6))
  have fwd: "wp (sendMsg WB_REQ TAG_DIR L2_CACHE receiver i a None 0 HW_UNKNOWN (m_perf (m_shmem_msg r)) SIM_THREAD)
      (kept s) (set_req (hd xs) (r\<lparr>m_forwarding_from := i\<rparr>) s)" for i
    by (rule upd [OF rr(1)]) (auto simp: buf_valid_def rk(3) intro!: quiet_env(6))
  show ?thesis
    unfolding fetch_data_def wp_sbind wp_sseq wp_q_size wp_sassert
    using rk(6) h dram fwd by (auto simp: wp Let_def intro!: wp_q_front [OF q r(2)])
qed

lemma wp_retrieve:
  assumes nx: "next_ok next k" and inv: "dc_inv s" and q: "dc_queue s a = Some xs" "length xs \<le> k"
    and d: "data_ok s buf" and p: "perf_valid s (m_perf msg)"
  shows "wp (retrieveDataAndSendToL2Cache next ty receiver a buf msg) (kept s) s"
proof -
  have a: "addr_ok s a"
    using dc_invD(2) [OF inv] q(1) by (simp add: queues_ok_def)
  show ?thesis
    unfolding retrieveDataAndSendToL2Cache_def wp_sbind
  proof (rule wp_lookup_some [OF inv a], goal_cases)
    case s1: (1 de e s1)
    note k1 = entry_of_ok [OF s1(1,4)] and h = entry_of_heap [OF s1(4)]
    have f1: "frame s s1" and q1: "dc_queue s1 a = Some xs"
      using s1(2) q(1) by (simp_all add: same_reqs_def)
    have m: "addr_ok s1 a" "perf_valid s1 (m_perf msg)"
      using a p frame_ok [OF f1] by simp_all
    let ?s = "set_entry de (e\<lparr>m_forwarder_id := receiver\<rparr>) s1"
    have s2: "dc_inv ?s" "same_reqs s1 ?s"
      using set_entry_inv(1,2) [OF s1(1,4), of "e\<lparr>m_forwarder_id := receiver\<rparr>"] k1 by simp_all
    have f2: "frame s ?s" and q2: "dc_queue ?s a = Some xs"
      using s2(2) f1 q1 frame_trans by (auto simp: same_reqs_def)
    have cached: "wp (sendMsg ty TAG_DIR L2_CACHE receiver receiver a buf (dc_block_size ?s) HW_CACHE_REMOTE (m_perf msg) SIM_THREAD)
        (\<lambda>_. wp (next a) (kept s)) ?s"
    proof (rule inv_quiet [OF quiet_env(6) s2(1)])
      show "perf_valid ?s (m_perf msg)" "buf_valid ?s buf (dc_block_size ?s)"
        using p frame_ok(3) [OF f2] data_ok_buf [OF data_ok_frame [OF f2 d]] by simp_all
      fix s3
      assume "dc_inv s3" "same_env ?s s3"
      then show "wp (next a) (kept s) s3"
        by (intro wp_next [OF nx _ _ q(2)]) (simp_all add: same_env_frame q2 frame_trans [OF f2])
    qed
    have "wp (read_nuca next ty receiver a msg) (\<lambda>returned. wp (if returned then sret () else fetch_data receiver a de msg) (kept s)) s1"
    proof (rule wp_mono [OF wp_read_nuca [OF nx s1(1) q1 q(2) m]])
      fix b s3
      assume s3: "dc_inv s3 \<and> frame s1 s3 \<and> (\<not> b \<longrightarrow> same_ctl s1 s3)"
      then have f3: "frame s s3"
        using frame_trans [OF f1] by blast
      have "wp (fetch_data receiver a de msg) (kept s) s3" if "\<not> b"
        by (rule kept_mono [OF wp_fetch_data f3])
          (use s3 that q1 h p frame_ok(3) [OF f3] in \<open>simp_all add: same_ctl_def\<close>)
      then show "wp (if b then sret () else fetch_data receiver a de msg) (kept s) s3"
        using s3 f3 by (simp add: wp)
    qed
    with cached h show ?case
      by (simp add: wp)
  qed
qed

subsection \<open>The queues\<close>

lemma queueD:
  assumes "dc_inv s" and "dc_queue s a = Some xs"
  shows "xs \<noteq> []" "distinct xs" "length xs < 2 ^ 32" "addr_ok s a" "p \<in> set xs \<Longrightarrow> \<exists>r. st_map (dc_reqs s) p = Some r \<and> req_ok s a r"
    "dc_queue s b = Some ys \<Longrightarrow> a \<noteq> b \<Longrightarrow> set xs \<inter> set ys = {}"
  using dc_invD(2) [OF assms(1)] assms(2) unfolding queues_ok_def by blast+

lemma set_queue_inv:
  assumes inv: "dc_inv s" and st: "store_wf st" and a: "xs \<noteq> [] \<Longrightarrow> addr_ok s a"
    and xs: "distinct xs" "length xs < 2 ^ 32" "\<And>p. p \<in> set xs \<Longrightarrow> \<exists>r. st_map st p = Some r \<and> req_ok s a r"
    and others: "\<And>b ys p. dc_queue s b = Some ys \<Longrightarrow> b \<noteq> a \<Longrightarrow> p \<in> set ys \<Longrightarrow> p \<notin> set xs \<and> st_map st p = st_map (dc_reqs s) p"
    and s': "s' = s\<lparr>dc_queue := (dc_queue s)(a := if xs = [] then None else Some xs), dc_reqs := st\<rparr>"
  shows "dc_inv s'" "frame s s'" "dc_dir s' = dc_dir s" "env_bufs s' = env_bufs s"
proof -
  note i = dc_invD [OF inv]
  show f: "frame s s'" and d: "dc_dir s' = dc_dir s" and "env_bufs s' = env_bufs s"
    by (simp_all add: s' frame_def split: option.split)
  have q: "dc_queue s' b = Some ys \<longleftrightarrow> (if b = a then ys = xs \<and> xs \<noteq> [] else dc_queue s b = Some ys)" for b ys
    by (auto simp: s')
  have req: "\<exists>r. st_map (dc_reqs s') p = Some r \<and> req_ok s b r" if "dc_queue s' b = Some ys" "p \<in> set ys" for b ys p
  proof (cases "b = a")
    case True
    with that q [of a ys] have "p \<in> set xs"
      by simp
    from xs(3) [OF this] True show ?thesis
      by (simp add: s')
  next
    case False
    with that have b: "dc_queue s b = Some ys"
      by (simp add: q)
    show ?thesis
      using queueD(5) [OF inv b that(2)] others [OF b False that(2)] by (simp add: s')
  qed
  have dis: "set ys \<inter> set zs = {}" if "dc_queue s' b = Some ys" "dc_queue s' c = Some zs" "b \<noteq> c" for b c ys zs
    using that others queueD(6) [OF inv, of b ys c zs] unfolding q by (auto split: if_splits)
  have "queues_ok s'"
    unfolding queues_ok_def frame_ok(2,5) [OF f]
    using queueD(1-4) [OF inv] a xs(1,2) req dis by (auto simp: q split: if_splits)
  moreover have "nuca_ok s'"
    by (rule nuca_ok_same [OF i(6)]) (simp_all add: s')
  ultimately show "dc_inv s'"
    using dir_ok_frame [OF i(1) f d] i(3) st by (intro dc_invI [OF inv f]) (simp_all add: env_wf_def s')
qed

lemma popped_inv:
  assumes inv: "dc_inv s" and q: "dc_queue s a = Some (p # xs)"
  shows "dc_inv (popped a p xs s)" "frame s (popped a p xs s)" "dc_dir (popped a p xs s) = dc_dir s"
proof -
  note d = queueD [OF inv q]
  have o: "x \<noteq> p \<and> x \<notin> set xs" if "dc_queue s b = Some ys" "b \<noteq> a" "x \<in> set ys" for b ys x
    using d(6) [OF that(1)] that by auto
  have "store_wf (st_delete p (dc_reqs s))"
    using dc_invD(4) [OF inv] by simp
  moreover have "\<exists>r. st_map (st_delete p (dc_reqs s)) x = Some r \<and> req_ok s a r" if "x \<in> set xs" for x
    using d(2) d(5) [of x] that by (auto simp: st_delete_def)
  ultimately show "dc_inv (popped a p xs s)" "frame s (popped a p xs s)" "dc_dir (popped a p xs s) = dc_dir s"
    using set_queue_inv [OF inv, of "st_delete p (dc_reqs s)" xs a "popped a p xs s"] d(2-4) o
    by (simp_all add: popped_def)
qed

definition pushed :: "IntPtr \<Rightarrow> ShmemReq \<Rightarrow> dir_cntlr \<Rightarrow> dir_cntlr" where
  "pushed a r s =
     s\<lparr>dc_reqs := snd (st_new r (dc_reqs s)), dc_queue := enqueue a (st_next (dc_reqs s)) (dc_queue s)\<rparr>"

abbreviation rest :: "dir_cntlr \<Rightarrow> IntPtr \<Rightarrow> nat list" where
  "rest s a \<equiv> (case dc_queue s a of None \<Rightarrow> [] | Some xs \<Rightarrow> xs)"

lemma pushed_inv:
  assumes inv: "dc_inv s" and a: "addr_ok s a" and r: "req_ok s a r" and l: "length (rest s a) + 1 < 2 ^ 32"
  shows "dc_inv (pushed a r s)" "frame s (pushed a r s)" "dc_dir (pushed a r s) = dc_dir s" "env_bufs (pushed a r s) = env_bufs s"
    "dc_queue (pushed a r s) = (dc_queue s)(a \<mapsto> rest s a @ [st_next (dc_reqs s)])"
    "st_map (dc_reqs (pushed a r s)) = (st_map (dc_reqs s))(st_next (dc_reqs s) \<mapsto> r)"
proof -
  let ?p = "st_next (dc_reqs s)"
  have st: "store_wf (dc_reqs s)"
    using dc_invD(4) [OF inv] .
  have new: "st_map (dc_reqs s) ?p = None"
    using store_wf_next [OF st] by simp
  show q: "dc_queue (pushed a r s) = (dc_queue s)(a \<mapsto> rest s a @ [?p])"
    by (auto simp: pushed_def enqueue_def Let_def split: option.split)
  show m: "st_map (dc_reqs (pushed a r s)) = (st_map (dc_reqs s))(?p \<mapsto> r)"
    by (simp add: pushed_def st_new_def)
  have eq: "pushed a r s = s\<lparr>dc_queue := (dc_queue s)(a := if rest s a @ [?p] = [] then None else Some (rest s a @ [?p])),
      dc_reqs := snd (st_new r (dc_reqs s))\<rparr>"
    using q by (simp add: pushed_def)
  have old: "distinct (rest s a)" "x \<in> set (rest s a) \<Longrightarrow> \<exists>r. st_map (dc_reqs s) x = Some r \<and> req_ok s a r" for x
    using queueD(2,5) [OF inv, of a] by (cases "dc_queue s a"; simp)+
  have o: "x \<noteq> ?p \<and> x \<notin> set (rest s a)" if "dc_queue s b = Some ys" "b \<noteq> a" "x \<in> set ys" for b ys x
  proof
    show "x \<noteq> ?p"
      using queueD(5) [OF inv that(1,3)] new by auto
    show "x \<notin> set (rest s a)"
      using queueD(6) [OF inv that(1), of a] that(2,3) by (cases "dc_queue s a") auto
  qed
  have x: "distinct (rest s a @ [?p])" "length (rest s a @ [?p]) < 2 ^ 32" "store_wf (snd (st_new r (dc_reqs s)))"
    using old(1) old(2) [of ?p] new l st by (simp_all del: One_nat_def) blast
  have y: "\<exists>r'. st_map (snd (st_new r (dc_reqs s))) x = Some r' \<and> req_ok s a r'" if "x \<in> set (rest s a @ [?p])" for x
    using that old(2) [of x] r by (cases "x = ?p") (auto simp: st_new_def)
  have z: "x \<notin> set (rest s a @ [?p]) \<and> st_map (snd (st_new r (dc_reqs s))) x = st_map (dc_reqs s) x"
    if "dc_queue s b = Some ys" "b \<noteq> a" "x \<in> set ys" for b ys x
    using o [OF that] by (simp add: st_new_def)
  show "dc_inv (pushed a r s)" "frame s (pushed a r s)" "dc_dir (pushed a r s) = dc_dir s" "env_bufs (pushed a r s) = env_bufs s"
    by (rule set_queue_inv [OF inv x(3) a x(1,2) y z eq]; assumption)+
qed

subsection \<open>Invalidations\<close>

lemma quiet_sfor:
  assumes "\<And>x s'. x \<in> set xs \<Longrightarrow> same_env s s' \<Longrightarrow> quiet stop (f x) (\<lambda>_. True) s'"
  shows "quiet stop (sfor f xs) (\<lambda>_. True) s"
  using assms
proof (induction xs arbitrary: s)
  case Nil
  show ?case
    by (simp add: quiet_sret)
next
  case (Cons x xs)
  show ?case
    unfolding sfor.simps
  proof (rule quiet_sseq [OF Cons.prems])
    fix s'
    assume "same_env s s'"
    then show "quiet stop (sfor f xs) (\<lambda>_. True) s'"
      by (intro Cons.IH Cons.prems) (auto intro: same_env_trans)
  qed simp_all
qed

lemma perf_valid_None [simp]: "perf_valid s None"
  by (simp add: perf_valid_def)

lemma quiet_inv_sharers: "perf_valid s perf \<Longrightarrow> quiet True (inv_sharers requester a perf sharers) (\<lambda>_. True) s"
  by (auto simp: inv_sharers_def buf_valid_def split: if_splits intro!: quiet_env(6,7) quiet_sfor)

lemma quiet_inv_others: "perf_valid s perf \<Longrightarrow> quiet True (inv_others requester a perf copy sent i sharers) (\<lambda>_. True) s"
proof (induction sharers arbitrary: s sent i)
  case (Cons x xs)
  have "perf_valid s (if sent then None else perf)"
    using Cons.prems by (simp add: perf_valid_def)
  then show ?case
    using Cons by (auto simp: buf_valid_def intro!: quiet_sseq [OF quiet_env(6)])
qed (simp add: quiet_sret)

lemma erase_replaced_none:
  assumes "\<forall>p \<in> set ps. p \<in> dom (d_heap d) \<and> entry_addr d p \<noteq> a"
  shows "erase_replaced d a ps = Inl LogError"
  using assms
proof (induction ps)
  case (Cons p ps)
  then obtain e where "d_heap d p = Some e"
    by auto
  with Cons show ?case
    by (simp add: deref_entry_def entry_addr_def)
qed simp

lemma invalidate_inv:
  assumes inv: "dc_inv s" and e: "entry_of s v de e"
  shows "case invalidateDirectoryEntry (dc_dir s) v of Inl err \<Rightarrow> stops err
    | Inr c \<Rightarrow> dc_inv (s\<lparr>dc_dir := c\<rparr>) \<and> same_reqs s (s\<lparr>dc_dir := c\<rparr>) \<and>
        (\<forall>b q x. b \<noteq> v \<longrightarrow> entry_of s b q x \<longrightarrow> entry_of (s\<lparr>dc_dir := c\<rparr>) b q x)"
proof -
  let ?c = "dc_dir s"
  have wf: "ddc_wf ?c"
    using dc_invD(1) [OF inv] by (simp add: dir_ok_def)
  have v: "v \<noteq> INVALID_ADDRESS" "dir_find ?c v = Some de"
    using e by (simp_all add: entry_of_def)
  have at: "de \<in> set (live_list ?c)" "entry_addr (m_directory ?c) de = v"
    using v dir_find_Some [OF wf v(1)] by simp_all
  show ?thesis
  proof (cases "de \<in> set (replaced ?c)")
    case False
    have "q = de" if "q \<in> set (replaced ?c)" "entry_addr (m_directory ?c) q = v" for q
      using ddc_uniq [OF wf ddc_wf_replaced(4) [OF wf that(1)] at(1)] that(2) at(2) v(1) by simp
    then have "erase_replaced (m_directory ?c) v (replaced ?c) = Inl LogError"
      using False ddc_wf_replaced(1) [OF wf] by (intro erase_replaced_none) blast
    then show ?thesis
      by (simp add: invalidateDirectoryEntry_def)
  next
    case True
    obtain c where c: "invalidateDirectoryEntry ?c v = Inr c" "ddc_wf c" "same_consts ?c c" "dir_map c = (dir_map ?c)(v := None)"
        "\<forall>x. x \<noteq> de \<longrightarrow> d_heap (m_directory c) x = d_heap (m_directory ?c) x" "set (live_list c) = set (live_list ?c) - {de}"
      using invalidateDirectoryEntry_spec [OF wf v True] by blast
    have n: "sharers_len c = sharers_len ?c"
      using c(3) by (simp add: sharers_len_def same_consts_def)
    have m: "entry_ok (sharers_len c) x \<and> addr_ok s b" if "dir_map c b = Some x" for b x
      using that dc_invD(1) [OF inv] by (simp add: c(4) n dir_ok_def split: if_splits)
    have "entry_of (s\<lparr>dc_dir := c\<rparr>) b q x" if b: "b \<noteq> v" "entry_of s b q x" for b q x
    proof -
      have "q \<noteq> de"
        using entry_of_ok(3) [OF inv b(2)] entry_of_ok(3) [OF inv e] b entry_of_heap [OF b(2)] entry_of_heap [OF e] by auto
      moreover have "q \<in> set (live_list c)"
        using entry_of_ok(6) [OF inv b(2)] c(6) \<open>q \<noteq> de\<close> by simp
      moreover have h: "d_heap (m_directory c) q = d_heap (m_directory ?c) q"
        using c(5) \<open>q \<noteq> de\<close> by simp
      moreover have "dir_find c b = Some q"
        using dir_find_keep [OF wf c(2), of b q] b(2) \<open>q \<in> set (live_list c)\<close> h by (simp add: entry_of_def)
      ultimately show ?thesis
        using b(2) by (simp add: entry_of_def)
    qed
    with set_dir_inv [OF inv c(2) n m] c(1) show ?thesis
      by simp
  qed
qed

lemma wp_nullify:
  assumes inv: "dc_inv s" and r: "req_of s v xs p r"
    and stop: "\<And>s'. dc_inv s' \<Longrightarrow> same_reqs s s' \<Longrightarrow> (\<And>b q e. b \<noteq> v \<Longrightarrow> entry_of s b q e \<Longrightarrow> entry_of s' b q e) \<Longrightarrow> Q () s'"
    and next': "\<And>s'. dc_inv s' \<Longrightarrow> same_reqs s s' \<Longrightarrow> (\<And>b q e. b \<noteq> v \<Longrightarrow> entry_of s b q e \<Longrightarrow> entry_of s' b q e) \<Longrightarrow>
      wp (next v) Q s'"
  shows "wp (processNullifyReq next p) Q s"
proof -
  note rk = req_of_ok [OF inv r]
  show ?thesis
    unfolding processNullifyReq_def wp_sbind [of "get_req p"] wp_get_req rk(6) option.case Let_def rk(1) wp_sbind [of "lookup_some v"]
  proof (rule wp_lookup_some [OF inv rk(5)], goal_cases)
    case s1: (1 de e s1)
    have quiet: "wp m Q s1" if "quiet True m (\<lambda>_. True) s1" for m
    proof (rule inv_quiet [OF that s1(1)])
      fix x :: unit and s2
      assume s2: "dc_inv s2" "same_env s1 s2"
      have "Q () s2"
        by (rule stop [OF s2(1) same_reqs_trans [OF s1(2) same_env_reqs [OF s2(2)]]])
          (simp add: s1(3) entry_of_dir [OF same_env_frame(1) [OF s2(2)]])
      then show "Q x s2"
        by simp
    qed
    note pv = perf_valid_None [of s1]
    have bv: "buf_valid s1 None 0"
      by (simp add: buf_valid_def)
    have "case invalidateDirectoryEntry (dc_dir s1) v of Inl err \<Rightarrow> stops err | Inr c \<Rightarrow> wp (next v) Q (s1\<lparr>dc_dir := c\<rparr>)"
      using invalidate_inv [OF s1(1,4)] same_reqs_trans [OF s1(2)] s1(3)
      by (auto split: sum.splits intro!: next')
    then show ?case
      using quiet [OF quiet_env(6) [OF pv bv]] quiet [OF quiet_inv_sharers [OF pv]] entry_of_heap [OF s1(4)]
      by (auto simp: wp split: sum.splits)
  qed
qed

subsection \<open>Allocating an entry\<close>

lemma pick_candidate_correct:
  assumes "\<forall>p \<in> set ps. p \<in> dom (d_heap d)"
    and "case c of None \<Rightarrow> True | Some p \<Rightarrow> \<exists>e. d_heap d p = Some e \<and> size_rq (de_address e) q = 0"
  shows "\<exists>r. pick_candidate d q c ps = Inr r \<and>
    (case r of None \<Rightarrow> True | Some p \<Rightarrow> (c = Some p \<or> p \<in> set ps) \<and> (\<exists>e. d_heap d p = Some e \<and> size_rq (de_address e) q = 0))"
  using assms
proof (induction ps arbitrary: c)
  case (Cons p ps)
  obtain e where e: "d_heap d p = Some e"
    using Cons.prems(1) by auto
  obtain better where better: "(case c of None \<Rightarrow> Inr True
      | Some x \<Rightarrow> rbind (deref_entry d x) (\<lambda>ec. Inr (getNumSharers ec > getNumSharers e))) = Inr better"
    using Cons.prems(2) by (auto simp: deref_entry_def split: option.splits)
  let ?c = "if better \<and> size_rq (de_address e) q = 0 then Some p else c"
  have "case ?c of None \<Rightarrow> True | Some p \<Rightarrow> \<exists>e. d_heap d p = Some e \<and> size_rq (de_address e) q = 0"
    using Cons.prems(2) e by auto
  with Cons.IH [of ?c] Cons.prems(1) obtain r where r: "pick_candidate d q ?c ps = Inr r"
      "case r of None \<Rightarrow> True | Some p \<Rightarrow> (?c = Some p \<or> p \<in> set ps) \<and> (\<exists>e. d_heap d p = Some e \<and> size_rq (de_address e) q = 0)"
    by auto
  then show ?case
    using e better by (auto simp: deref_entry_def split: option.splits if_splits)
qed (auto split: option.splits)

lemma size_rq_0:
  assumes "dc_inv s" and "size_rq a (dc_queue s) = 0"
  shows "dc_queue s a = None"
proof (cases "dc_queue s a")
  case (Some xs)
  with queueD(1,3) [OF assms(1) Some] assms(2) show ?thesis
    by (simp add: size_rq_def word_unat_eq_iff unat_of_nat)
qed

lemma counters_inv:
  assumes "dc_inv s"
  shows "dc_inv (s\<lparr>dc_evict := f\<rparr>)" "same_ctl s (s\<lparr>dc_evict := f\<rparr>)" "dc_inv (s\<lparr>dc_forward := n\<rparr>)" "same_ctl s (s\<lparr>dc_forward := n\<rparr>)"
    "dc_inv (s\<lparr>dc_forward_failed := n\<rparr>)" "same_ctl s (s\<lparr>dc_forward_failed := n\<rparr>)"
proof -
  show c: "same_ctl s (s\<lparr>dc_evict := f\<rparr>)" "same_ctl s (s\<lparr>dc_forward := n\<rparr>)" "same_ctl s (s\<lparr>dc_forward_failed := n\<rparr>)"
    by (simp_all add: same_ctl_def frame_def split: option.split)
  show "dc_inv (s\<lparr>dc_evict := f\<rparr>)" "dc_inv (s\<lparr>dc_forward := n\<rparr>)" "dc_inv (s\<lparr>dc_forward_failed := n\<rparr>)"
    using same_ctl_inv [OF assms c(1)] same_ctl_inv [OF assms c(2)] same_ctl_inv [OF assms c(3)] dc_invD(3,6) [OF assms]
    by (simp_all add: env_wf_def nuca_ok_def split: option.splits)
qed

lemma wp_new_req [wp]:
  "wp (new_req msg t) Q = (\<lambda>s. m_data_buf msg = None \<longrightarrow>
     Q (st_next (dc_reqs s)) (s\<lparr>dc_reqs := snd (st_new (\<lparr>m_shmem_msg = ShmemMsg_copy (dc_junk_where s) msg, m_req_time = t,
       m_wait_for_data = False, m_forwarding_from = INVALID_CORE_ID\<rparr>) (dc_reqs s))\<rparr>))"
  by (auto simp: fun_eq_iff new_req_def ShmemReq_new_def wp st_new_def ensure_def)

lemma wp_q_enqueue [wp]: "wp (q_enqueue a p) Q = (\<lambda>s. Q () (s\<lparr>dc_queue := enqueue a p (dc_queue s)\<rparr>))"
  by (simp add: q_enqueue_def wp)

lemma pushed_unfold:
  "s\<lparr>dc_reqs := snd (st_new r (dc_reqs s)), dc_queue := enqueue a (st_next (dc_reqs s)) (dc_queue s)\<rparr> = pushed a r s"
  by (simp add: pushed_def)

lemma wp_null_victim:
  assumes nx: "next_ok next k" and inv: "dc_inv s" and v: "addr_ok s v" "v \<noteq> a" "dc_queue s v = None"
    and i: "core_ok s i" and q: "dc_queue s a = Some xs" and e: "entry_of s a de e"
    and Q: "\<And>s'. dc_inv s' \<Longrightarrow> frame s s' \<Longrightarrow> dc_queue s' a = Some xs \<Longrightarrow>
      (\<And>x. x \<in> set xs \<Longrightarrow> st_map (dc_reqs s') x = st_map (dc_reqs s) x) \<Longrightarrow> entry_of s' a de e \<Longrightarrow> Q de s'"
  shows "wp (sbind (new_req (ShmemMsg_new NULLIFY_REQ TAG_DIR TAG_DIR i v None 0 None) t) (\<lambda>nullify_req.
         sseq (q_enqueue v nullify_req) (
         sbind (q_size v) (\<lambda>size.
         sseq (sassert (size = 1)) (
         sseq (processNullifyReq next nullify_req) (
         sret de)))))) Q s"
proof -
  let ?p = "st_next (dc_reqs s)"
  define r where "r = \<lparr>m_shmem_msg = ShmemMsg_copy (dc_junk_where s) (ShmemMsg_new NULLIFY_REQ TAG_DIR TAG_DIR i v None 0 None),
     m_req_time = t, m_wait_for_data = False, m_forwarding_from = INVALID_CORE_ID\<rparr>"
  have r: "req_ok s v r"
    using i by (simp add: r_def req_ok_def ShmemMsg_copy_def ShmemMsg_new_def)
  define s1 where "s1 = pushed v r s"
  note s1 = pushed_inv [OF inv v(1) r, folded s1_def, unfolded v(3) option.case list.size append.simps, simplified]
  have q1: "dc_queue s1 v = Some [?p]" "dc_queue s1 a = Some xs" and m1: "st_map (dc_reqs s1) ?p = Some r"
    using s1(5,6) v(2) q by simp_all
  have r1: "req_of s1 v [?p] ?p r"
    using q1(1) m1 by (simp add: req_of_def)
  have old: "x \<noteq> ?p \<and> st_map (dc_reqs s1) x = st_map (dc_reqs s) x" if "x \<in> set xs" for x
    using queueD(5) [OF inv q that] store_wf_next [OF dc_invD(4) [OF inv]] s1(6) by auto
  have e1: "entry_of s1 a de e"
    using e entry_of_dir [OF s1(3)] by simp
  have "wp (processNullifyReq next ?p) (\<lambda>_. Q de) s1"
  proof (rule wp_nullify [OF s1(1) r1], goal_cases)
    case (1 s2)
    then show ?case
      using old q1(2) e1 v(2) frame_trans [OF s1(2)] by (intro Q) (simp_all add: same_reqs_def)
  next
    case s2: (2 s2)
    have q2: "dc_queue s2 v = Some [?p]" "st_map (dc_reqs s2) ?p = Some r" "dc_queue s2 a = Some xs"
      using s2(2) q1 m1 by (simp_all add: same_reqs_def)
    have nxt: "next v s2 = Inr ((), popped v ?p [] s2)"
      using nx q2(1,2) by (simp add: next_ok_def)
    note s3 = popped_inv [OF s2(1) q2(1)]
    have "Q de (popped v ?p [] s2)"
    proof (rule Q [OF s3(1)])
      show "frame s (popped v ?p [] s2)"
        using frame_trans [OF frame_trans [OF s1(2)] s3(2)] s2(2) by (simp add: same_reqs_def)
      show "dc_queue (popped v ?p [] s2) a = Some xs"
        using q2(3) v(2) by (simp add: popped_def)
      show "st_map (dc_reqs (popped v ?p [] s2)) x = st_map (dc_reqs s) x" if "x \<in> set xs" for x
        using old [OF that] s2(2) by (simp add: popped_def st_delete_def same_reqs_def)
      show "entry_of (popped v ?p [] s2) a de e"
        using s2(3) [OF _ e1] v(2) entry_of_dir [OF s3(3)] by simp
    qed
    with nxt show ?case
      by (simp add: wp_def)
  qed
  then show ?thesis
    by (simp add: wp pushed_unfold ShmemMsg_new_def s1_def r_def)
qed

lemma wp_allocate:
  assumes nx: "next_ok next k" and inv: "dc_inv s" and r: "req_of s a xs p r"
    and no: "dir_find (dc_dir s) a = None" and full: "set_full (dc_dir s) (set_of (dc_dir s) a)"
    and Q: "\<And>de e s'. dc_inv s' \<Longrightarrow> frame s s' \<Longrightarrow> dc_queue s' a = Some xs \<Longrightarrow>
      (\<And>x. x \<in> set xs \<Longrightarrow> st_map (dc_reqs s') x = st_map (dc_reqs s) x) \<Longrightarrow> entry_of s' a de e \<Longrightarrow> Q de s'"
  shows "wp (processDirectoryEntryAllocationReq next p) Q s"
proof -
  note rk = req_of_ok [OF inv r]
  have q: "dc_queue s a = Some xs"
    using r by (simp add: req_of_def)
  have wf: "ddc_wf (dc_dir s)" and a: "a \<noteq> INVALID_ADDRESS"
    using dc_invD(1) [OF inv] rk(5) by (simp_all add: dir_ok_def addr_ok_def)
  obtain ps c where c: "getReplacementCandidates (dc_dir s) a = Inr (ps, c)" "ddc_wf c" "same_consts (dc_dir s) c" "dir_map c = dir_map (dc_dir s)"
      "set_full c (set_of (dc_dir s) a)"
    and cs: "\<forall>p \<in> set ps. \<exists>e. d_heap (m_directory c) p = Some e \<and> de_address e \<noteq> INVALID_ADDRESS \<and>
        set_of (dc_dir s) (de_address e) = set_of (dc_dir s) a \<and> dir_find c (de_address e) = Some p \<and> p \<notin> set (replaced c)"
    using getReplacementCandidates_spec [OF wf a no full] by (elim exE conjE) (rule that)
  have n: "sharers_len c = sharers_len (dc_dir s)" and so: "set_of c = set_of (dc_dir s)"
    using c(3) same_consts_set_of [OF c(3)] by (simp_all add: sharers_len_def same_consts_def)
  let ?s1 = "s\<lparr>dc_dir := c\<rparr>"
  have m: "entry_ok (sharers_len c) x \<and> addr_ok s b" if "dir_map c b = Some x" for b x
    using that dc_invD(1) [OF inv] by (simp add: c(4) n dir_ok_def)
  have s1: "dc_inv ?s1" "same_reqs s ?s1"
    by (rule set_dir_inv [OF inv c(2) n m]; assumption)+
  have no1: "dir_find c a = None"
    using no dir_map_dom [OF wf a] dir_map_dom [OF c(2) a] by (simp add: c(4))
  have ps: "\<forall>p \<in> set ps. p \<in> dom (d_heap (m_directory c))"
    using cs by (auto simp: domIff)
  obtain pc where pc: "pick_candidate (m_directory c) (dc_queue s) None ps = Inr pc"
    and pcs: "case pc of None \<Rightarrow> True | Some p \<Rightarrow> (None = Some p \<or> p \<in> set ps) \<and>
      (\<exists>e. d_heap (m_directory c) p = Some e \<and> size_rq (de_address e) (dc_queue s) = 0)"
    using pick_candidate_correct [OF ps, where c = None and q = "dc_queue s", unfolded option.case, OF TrueI]
    by (elim exE conjE) (rule that)
  show ?thesis
  proof (cases pc)
    case None
    with rk(1,6) c(1) pc show ?thesis
      by (simp add: processDirectoryEntryAllocationReq_def Let_def wp)
  next
    case (Some v)
    then obtain e where e: "d_heap (m_directory c) v = Some e" "size_rq (de_address e) (dc_queue s) = 0" "v \<in> set ps"
      using pcs by auto
    let ?v = "de_address e"
    have v: "?v \<noteq> INVALID_ADDRESS" "set_of c ?v = set_of c a" "dir_find c ?v = Some v" "v \<notin> set (replaced c)"
      using bspec [OF cs e(3)] e(1) so by auto
    have va: "?v \<noteq> a"
      using no1 v(3) by auto
    have full1: "set_full c (set_of c a)"
      using c(5) by (simp add: so)
    have v1: "addr_ok ?s1 ?v"
    proof (rule entry_of_ok(2) [OF s1(1)])
      show "entry_of ?s1 ?v v e"
        unfolding entry_of_def using e(1) v(1,3) by simp
    qed
    have qv: "dc_queue s ?v = None"
      by (rule size_rq_0 [OF inv e(2)])
    obtain q' c' where c': "replaceDirectoryEntry (dc_access_time s) c ?v a True = Inr (q', dc_access_time s, c')" "ddc_wf c'"
        "same_consts c c'" "dir_map c' = (dir_map c)(a \<mapsto> (new_entry (m_directory c))\<lparr>de_address := a\<rparr>)" "dir_find c' a = Some q'"
      using replaceDirectoryEntry_spec [OF c(2) a v(1) no1 v(3,4,2) full1, of "dc_access_time s" True] by auto
    let ?s2 = "s\<lparr>dc_dir := c, dc_evict := (dc_evict s)(m_dstate e := dc_evict s (m_dstate e) + 1)\<rparr>"
    have s2: "dc_inv ?s2" "same_ctl ?s1 ?s2"
      using counters_inv(1,2) [OF s1(1)] by simp_all
    have f2: "frame s ?s2"
      using s1(2) s2(2) frame_trans by (auto simp: same_reqs_def same_ctl_def)
    have n': "sharers_len c' = sharers_len (dc_dir ?s2)"
      using c'(3) by (simp add: sharers_len_def same_consts_def)
    have m': "entry_ok (sharers_len c') x \<and> addr_ok ?s2 b" if "dir_map c' b = Some x" for b x
      using that dc_invD(1) [OF s2(1)] new_entry_ok [of c a] rk(5) frame_ok(2) [OF f2] n'
      by (auto simp: c'(4) dir_ok_def split: if_splits)
    have s3: "dc_inv (?s2\<lparr>dc_dir := c'\<rparr>)" "same_reqs ?s2 (?s2\<lparr>dc_dir := c'\<rparr>)"
      by (rule set_dir_inv [OF s2(1) c'(2) n' m']; assumption)+
    have f3: "frame s (?s2\<lparr>dc_dir := c'\<rparr>)"
      using f2 s3(2) frame_trans by (auto simp: same_reqs_def)
    obtain e' where e': "entry_of (?s2\<lparr>dc_dir := c'\<rparr>) a q' e'"
      using c'(4,5) a by (auto simp: entry_of_def dir_map_def dest!: fun_cong [of _ _ a])
    let ?m = "ShmemMsg_new NULLIFY_REQ TAG_DIR TAG_DIR (m_requester (m_shmem_msg r)) ?v None 0 None"
    have "wp (incrElapsedTime (dc_access_time s) SIM_THREAD) (\<lambda>_. wp (sbind (new_req ?m (m_elapsed_time (env_spm s) SIM_THREAD)) (\<lambda>x.
         sseq (q_enqueue ?v x) (
         sbind (q_size ?v) (\<lambda>size.
         sseq (sassert (size = 1)) (
         sseq (processNullifyReq next x) (
         sret q')))))) Q) (?s2\<lparr>dc_dir := c'\<rparr>)"
    proof (rule inv_quiet [OF quiet_env(3) s3(1)], goal_cases)
      case s4: (1 _ s4)
      note f = same_env_frame [OF s4(2)]
      have f4: "frame s s4"
        using frame_trans [OF f3 f(10)] .
      note ok = frame_ok [OF f4]
      show ?case
      proof (rule wp_null_victim [OF nx s4(1)])
        show "addr_ok s4 ?v" "core_ok s4 (m_requester (m_shmem_msg r))"
          using v1 frame_ok(2) [of s ?s1] s1(2) rk(2) ok by (simp_all add: same_reqs_def)
        show "dc_queue s4 ?v = None" "dc_queue s4 a = Some xs" "entry_of s4 a q' e'"
          using qv q e' f entry_of_dir [OF f(1)] by simp_all
        show "Q q' s'" if "dc_inv s'" "frame s4 s'" "dc_queue s' a = Some xs"
            "\<And>x. x \<in> set xs \<Longrightarrow> st_map (dc_reqs s') x = st_map (dc_reqs s4) x" "entry_of s' a q' e'" for s'
          using that frame_trans [OF f4] f(3) by (intro Q) simp_all
      qed (rule va)
    qed
    then show ?thesis
      by (simp add: processDirectoryEntryAllocationReq_def wp rk(1,6) Let_def c(1) pc Some e(1) c'(1))
  qed
qed

subsection \<open>Requests\<close>

lemma wp_entry_for:
  assumes nx: "next_ok next k" and inv: "dc_inv s" and r: "req_of s a xs p r"
    and Q: "\<And>de e s'. dc_inv s' \<Longrightarrow> frame s s' \<Longrightarrow> dc_queue s' a = Some xs \<Longrightarrow>
      (\<And>x. x \<in> set xs \<Longrightarrow> st_map (dc_reqs s') x = st_map (dc_reqs s) x) \<Longrightarrow> entry_of s' a de e \<Longrightarrow> Q de s'"
  shows "wp (entry_for next p a) Q s"
proof -
  note rk = req_of_ok [OF inv r]
  show ?thesis
    unfolding entry_for_def wp_sbind
  proof (rule wp_lookup [OF inv rk(5)], goal_cases)
    case s1: (1 de s1)
    have r1: "req_of s1 a xs p r" and q1: "dc_queue s1 a = Some xs" and m1: "dc_reqs s1 = dc_reqs s" and f1: "frame s s1"
      using r s1(2) by (simp_all add: same_reqs_def req_of_def)
    show ?case
    proof (cases de)
      case None
      have "wp (processDirectoryEntryAllocationReq next p) Q s1"
      proof (rule wp_allocate [OF nx s1(1) r1])
        show "dir_find (dc_dir s1) a = None" "set_full (dc_dir s1) (set_of (dc_dir s1) a)"
          using s1(4,5) None by simp_all
        show "Q de s'" if "dc_inv s'" "frame s1 s'" "dc_queue s' a = Some xs"
            "\<And>x. x \<in> set xs \<Longrightarrow> st_map (dc_reqs s') x = st_map (dc_reqs s1) x" "entry_of s' a de e" for de e s'
          using that frame_trans [OF f1 that(2)] m1 by (intro Q) simp_all
      qed
      with None show ?thesis
        by simp
    next
      case (Some q)
      then obtain e where "entry_of s1 a q e"
        using s1(5) by auto
      from Q [OF s1(1) f1 q1 _ this] m1 Some show ?thesis
        by (simp add: wp)
    qed
  qed
qed

lemma quiet_get_req: "st_map (dc_reqs s) p = Some r \<Longrightarrow> quiet stop (get_req p) (\<lambda>x. x = r) s"
  unfolding get_req_def
  by (rule quiet_sbind [OF quiet_sget [where P = "\<lambda>st. st = dc_reqs s"]]) (simp_all add: st_get_def quiet_sret slift_def quiet_def same_env_refl)

lemma quiet_updateShmemPerf: "perf_valid s (m_perf msg) \<Longrightarrow> quiet True (updateShmemPerf msg reason) (\<lambda>_. True) s"
  unfolding updateShmemPerf_def by (rule quiet_sbind [OF quiet_env(4)]) (simp add: quiet_env(5))

lemma quiet_updateShmemPerf_req:
  "st_map (dc_reqs s) p = Some r \<Longrightarrow> perf_valid s (m_perf (m_shmem_msg r)) \<Longrightarrow> quiet True (updateShmemPerf_req p reason) (\<lambda>_. True) s"
  unfolding updateShmemPerf_req_def by (rule quiet_sbind [OF quiet_get_req]) (auto intro: quiet_updateShmemPerf)

lemma same_env_req: "same_env s s' \<Longrightarrow> req_of s' = req_of s"
  by (rule same_reqs_req [OF same_env_reqs])

lemma wp_perf_req:
  assumes inv: "dc_inv s" and r: "req_of s a xs p r"
    and Q: "\<And>s'. dc_inv s' \<Longrightarrow> same_env s s' \<Longrightarrow> req_of s' a xs p r \<Longrightarrow> Q () s'"
  shows "wp (updateShmemPerf_req p reason) Q s" "wp (updateShmemPerf (m_shmem_msg r) reason) Q s"
  using req_of_ok [OF inv r] r
  by (auto intro!: inv_quiet [OF quiet_updateShmemPerf_req inv] inv_quiet [OF quiet_updateShmemPerf inv] Q simp: same_env_req)

lemma wp_entry:
  assumes nx: "next_ok next k" and inv: "dc_inv s" and r: "req_of s a xs p r"
    and upd: "upd = updateShmemPerf_req p TD_ACCESS \<or> upd = updateShmemPerf (m_shmem_msg r) TD_ACCESS"
    and g: "\<And>de e s'. dc_inv s' \<Longrightarrow> frame s s' \<Longrightarrow> req_of s' a xs p r \<Longrightarrow> entry_of s' a de e \<Longrightarrow> wp (g de e) Q s'"
  shows "wp (sseq (updateShmemPerf_req p T_UNKNOWN) (sbind (entry_for next p a) (\<lambda>de. sbind (get_entry de) (\<lambda>e.
    sseq upd (g de e))))) Q s"
proof -
  have "wp (sseq upd (g de e)) Q s2" if s2: "dc_inv s2" "frame s s2" "req_of s2 a xs p r" "entry_of s2 a de e" for de e s2
  proof -
    have "wp (g de e) Q s3" if "dc_inv s3" "same_env s2 s3" "req_of s3 a xs p r" for s3
      using that s2(4) entry_of_dir [OF same_env_frame(1) [OF that(2)]] frame_trans [OF s2(2) same_env_frame(10) [OF that(2)]]
      by (intro g) simp_all
    then show ?thesis
      using upd wp_perf_req [OF s2(1,3)] by (auto simp: wp)
  qed
  moreover have "wp (entry_for next p a) (\<lambda>de. wp (sbind (get_entry de) (\<lambda>e. sseq upd (g de e))) Q) s1"
    if s1: "dc_inv s1" "same_env s s1" "req_of s1 a xs p r" for s1
  proof (rule wp_entry_for [OF nx s1(1,3)], goal_cases)
    case (1 de e s')
    have "req_of s' a xs p r"
      using s1(3) 1(3,4) by (simp add: req_of_def)
    with 1 calculation [of s' de e] frame_trans [OF same_env_frame(10) [OF s1(2)] 1(2)] show ?case
      by (simp add: wp entry_of_heap)
  qed
  ultimately show ?thesis
    unfolding wp_sseq wp_sbind [of "entry_for next p a"] by (intro wp_perf_req [OF inv r]) simp_all
qed

lemma wp_send_last:
  "dc_inv s \<Longrightarrow> frame s0 s \<Longrightarrow> perf_valid s perf \<Longrightarrow> wp (sendMsg ty sc rc i j a None 0 hw perf t) (kept s0) s"
  by (rule wp_last [OF quiet_env(6)]) (simp_all add: buf_valid_def)

lemma wp_retrieve_last:
  assumes "next_ok next k" and "dc_inv s" and "frame s0 s" and "req_of s a xs p r" and "length xs \<le> k"
    and "data_ok s buf" and "perf_valid s (m_perf msg)"
  shows "wp (retrieveDataAndSendToL2Cache next ty i a buf msg) (kept s0) s"
  using assms by (intro kept_mono [OF wp_retrieve]) (simp_all add: req_of_def)

lemma wp_first_holder:
  assumes nx: "next_ok next k" and inv: "dc_inv s" and f: "frame s0 s" and r: "req_of s a xs p r" and l: "length xs \<le> k"
    and e: "entry_of s a de e" "m_dstate e = D_UNCACHED" and i: "core_ok s i" and st: "st \<in> {D_SHARED, D_MODIFIED, D_EXCLUSIVE}"
    and d: "data_ok s buf" and p: "perf_valid s (m_perf msg)"
  shows "wp (sseq (take_ownership de i st) (retrieveDataAndSendToL2Cache next ty i a buf msg)) (kept s0) s"
  unfolding wp_sseq
proof (rule wp_take_ownership [OF inv e i st], goal_cases)
  case (1 e')
  note s1 = set_entry_inv [OF inv e(1) 1]
  have f1: "frame s (set_entry de e' s)"
    using s1(2) by (simp add: same_reqs_def)
  show ?case
    using r l data_ok_frame [OF f1 d] p frame_ok(3) [OF f1] same_reqs_req [OF s1(2)] frame_trans [OF f f1]
    by (intro wp_retrieve_last [OF nx s1(1)]) simp_all
qed

lemma wp_processEx:
  assumes nx: "next_ok next k" and inv: "dc_inv s" and r: "req_of s a xs p r" and l: "length xs \<le> k" and d: "data_ok s buf"
  shows "wp (processExReqFromL2Cache next p buf) (kept s) s"
proof -
  note rk = req_of_ok [OF inv r]
  show ?thesis
    unfolding processExReqFromL2Cache_def wp_sbind [of "get_req p"] wp_get_req rk(6) option.case Let_def rk(1)
  proof (rule wp_entry [OF nx inv r], goal_cases)
    case s1: (2 de e s1)
    note r1 = req_of_ok [OF s1(1,3)] and d1 = data_ok_frame [OF s1(2) d]
    note send = wp_send_last [OF s1(1,2) r1(3)] and inv = wp_last [OF quiet_inv_sharers [OF r1(3)] s1(1,2)]
      and own = wp_first_holder [OF nx s1(1,2,3) l s1(4) _ r1(2) _ d1 r1(3)]
    show ?case
      using send inv own [of D_MODIFIED] by (auto simp: wp)
  qed simp
qed

lemma wp_addSharer:
  assumes inv: "dc_inv s" and e: "entry_of s a p e" "m_dstate e = D_SHARED" and i: "core_ok s i"
    and Q: "\<And>b e'. entry_ok (sharers_len (dc_dir s)) e' \<Longrightarrow> de_address e' = a \<Longrightarrow> (\<not> b \<Longrightarrow> e' = e) \<Longrightarrow> Q b (set_entry p e' s)"
  shows "wp (entry_addSharer p i) Q s"
proof -
  note k = entry_of_ok [OF inv e(1)] and h = entry_of_heap [OF e(1)]
  have ci: "core_in e i"
    using k(5) i by blast
  let ?mx = "m_use_max_hw_sharers (m_directory (dc_dir s))"
  show ?thesis
  proof (cases "addSharer e i ?mx")
    case (Inl err)
    then have "stops err"
      using addSharer_spec [OF ci k(4), of ?mx] by (auto split: if_splits entry_scheme.splits)
    with Inl show ?thesis
      by (simp add: entry_addSharer_def wp h)
  next
    case (Inr r)
    then obtain b e1 where r: "addSharer e i ?mx = Inr (b, e1)"
      by (cases r) simp
    note c = addSharer_correct [OF r ci k(4)]
    have "entry_ok (sharers_len (dc_dir s)) e1" "de_address e1 = a"
      using c(2,3) k(1,3) e(2) by (auto simp: entry_ok_def same_entry_def)
    with Q [of e1 b] c(4) r show ?thesis
      by (simp add: entry_addSharer_def wp h)
  qed
qed

lemma wp_processSh:
  assumes nx: "next_ok next k" and inv: "dc_inv s" and r: "req_of s a xs p r" and l: "length xs \<le> k" and d: "data_ok s buf"
  shows "wp (processShReqFromL2Cache next p buf) (kept s) s"
proof -
  note rk = req_of_ok [OF inv r]
  let ?i = "m_requester (m_shmem_msg r)" and ?m = "m_shmem_msg r"
  show ?thesis
    unfolding processShReqFromL2Cache_def wp_sbind [of "get_req p"] wp_get_req rk(6) option.case Let_def rk(1)
  proof (rule wp_entry [OF nx inv r], goal_cases)
    case s1: (2 de e s1)
    note r1 = req_of_ok [OF s1(1,3)] and d1 = data_ok_frame [OF s1(2) d] and e1 = entry_of_ok [OF s1(1,4)] and h = entry_of_heap [OF s1(4)]
    have ci: "core_in e ?i"
      using e1(5) r1(2) by blast
    note send = wp_send_last [OF s1(1,2) r1(3)] and own = wp_first_holder [OF nx s1(1,2,3) l s1(4) _ r1(2) _ d1 r1(3)]
    have again: "wp (retrieveDataAndSendToL2Cache next SH_REP ?i a buf ?m) (kept s) s2"
      if "dc_inv s2" "frame s1 s2" "dc_queue s2 = dc_queue s1" "dc_reqs s2 = dc_reqs s1" for s2
      using that s1(3) r1(3) frame_ok(3) [OF that(2)] data_ok_frame [OF that(2) d1] frame_trans [OF s1(2) that(2)]
      by (intro wp_retrieve_last [OF nx that(1) _ _ l, of _ a p r]) (simp_all add: req_of_def)
    have fwd: "wp (retrieveDataAndSendToL2Cache next SH_REP ?i a buf ?m) (kept s) (s1\<lparr>dc_forward := n\<rparr>)"
      "wp (retrieveDataAndSendToL2Cache next SH_REP ?i a buf ?m) (kept s) (s1\<lparr>dc_forward := n, dc_forward_failed := m\<rparr>)" for n m
    proof -
      note c1 = counters_inv(3,4) [OF s1(1), of n]
      note c2 = counters_inv(5,6) [OF c1(1), of m]
      show "wp (retrieveDataAndSendToL2Cache next SH_REP ?i a buf ?m) (kept s) (s1\<lparr>dc_forward := n\<rparr>)"
        using c1 by (intro again) (simp_all add: same_ctl_def)
      show "wp (retrieveDataAndSendToL2Cache next SH_REP ?i a buf ?m) (kept s) (s1\<lparr>dc_forward := n, dc_forward_failed := m\<rparr>)"
        using c2 same_ctl_trans [OF c1(2) c2(2)] by (intro again) (simp_all add: same_ctl_def)
    qed
    have add: "wp (entry_addSharer de ?i) (\<lambda>add_result. wp (
         if \<not> add_result
         then
           sbind (get_entry de) (\<lambda>e.
           sbind (slift (getOneSharer e)) (\<lambda>(sharer_id, e).
           sseq (put_entry de e) (
           sendMsg INV_REQ TAG_DIR L2_CACHE ?i sharer_id a None 0 HW_UNKNOWN (m_perf ?m) SIM_THREAD)))
         else
           retrieveDataAndSendToL2Cache next SH_REP ?i a buf ?m) (kept s)) s1" if sh: "m_dstate e = D_SHARED"
    proof (rule wp_addSharer [OF s1(1,4) sh r1(2)], goal_cases)
      case (1 b e')
      note s2 = set_entry_inv [OF s1(1,4) 1(1,2)]
      show ?case
      proof (cases b)
        case True
        with again [OF s2(1)] s2(2) show ?thesis
          by (simp add: same_reqs_def)
      next
        case False
        have "sharer_set e \<noteq> {}"
          using e1(1) sh by (simp add: entry_ok_def)
        from getOneSharer_correct [OF this e1(4)]
        obtain j sch where j: "getOneSharer e = Inr (j, e\<lparr>de_scheme := sch\<rparr>)"
          by blast
        have "entry_ok (sharers_len (dc_dir s1)) (e\<lparr>de_scheme := sch\<rparr>)" "de_address (e\<lparr>de_scheme := sch\<rparr>) = a"
          using e1 by simp_all
        note s3 = set_entry_inv [OF s1(1,4) this]
        have f3: "frame s1 (set_entry de (e\<lparr>de_scheme := sch\<rparr>) s1)"
          using s3(2) by (simp add: same_reqs_def)
        from wp_send_last [OF s3(1) frame_trans [OF s1(2) f3]] False j 1(3) r1(3) frame_ok(3) [OF f3] show ?thesis
          by (simp add: wp)
      qed
    qed
    show ?case
      using send own [of D_SHARED] own [of D_EXCLUSIVE] fwd add ci by (auto simp: wp)
  qed simp
qed

lemma wp_processUpgrade:
  assumes nx: "next_ok next k" and inv: "dc_inv s" and r: "req_of s a xs p r" and l: "length xs \<le> k" and d: "data_ok s buf"
  shows "wp (processUpgradeReqFromL2Cache next p buf) (kept s) s"
proof -
  note rk = req_of_ok [OF inv r]
  let ?i = "m_requester (m_shmem_msg r)" and ?m = "m_shmem_msg r"
  show ?thesis
    unfolding processUpgradeReqFromL2Cache_def wp_sbind [of "get_req p"] wp_get_req rk(6) option.case Let_def rk(1,4) if_cancel
  proof (rule wp_entry [OF nx inv r], goal_cases)
    case s1: (2 de e s1)
    note r1 = req_of_ok [OF s1(1,3)] and d1 = data_ok_frame [OF s1(2) d] and e1 = entry_of_ok [OF s1(1,4)] and h = entry_of_heap [OF s1(4)]
    have ci: "core_in e ?i"
      using e1(5) r1(2) by blast
    let ?l = "snd (getSharersList e)"
    note send = wp_send_last [OF s1(1,2) r1(3)] and others = wp_last [OF quiet_inv_others [OF r1(3)] s1(1,2)]
      and own = wp_first_holder [OF nx s1(1,2,3) l s1(4) _ r1(2) _ d1 r1(3)]
    have bc: "wp (broadcastMsg INV_REQ TAG_DIR L2_CACHE ?i a None 0 None SIM_THREAD) (kept s) s1"
      by (rule wp_last [OF quiet_env(7) s1(1,2)]) (simp_all add: buf_valid_def)
    have rep: "wp (sendMsg UPGRADE_REP TAG_DIR L2_CACHE ?i ?i a None 0 HW_UNKNOWN (m_perf ?m) SIM_THREAD) Q s2"
      if "dc_inv s2" "frame s1 s2" "\<And>s3. dc_inv s3 \<Longrightarrow> same_env s2 s3 \<Longrightarrow> Q () s3" for Q s2
      using that(3) r1(3) frame_ok(3) [OF that(2)] by (intro inv_quiet [OF quiet_env(6) that(1)]) (simp_all add: buf_valid_def)
    have fst: "\<exists>x. nth_res ?l 0 = Inr x" if "m_dstate e = D_EXCLUSIVE \<or> m_dstate e = D_MODIFIED"
      using e1(1) that by (auto simp: entry_ok_def sharer_set_def nth_res_def)
    have fin: "wp (next a) (kept s) s2" if "dc_inv s2" "frame s1 s2" "dc_queue s2 = dc_queue s1" "dc_reqs s2 = dc_reqs s1" for s2
      using s1(3) that frame_trans [OF s1(2) that(2)] by (intro wp_next [OF nx that(1) _ l]) (simp_all add: req_of_def)
    have upd: "dc_inv (set_entry de e' s2) \<and> frame s1 (set_entry de e' s2) \<and> dc_queue (set_entry de e' s2) = dc_queue s1 \<and>
        dc_reqs (set_entry de e' s2) = dc_reqs s1"
      if "dc_inv s2" "same_env s1 s2" "entry_ok (sharers_len (dc_dir s1)) e'" "de_address e' = a" for s2 e'
    proof -
      note g = same_env_frame [OF that(2)]
      have "entry_of s2 a de e"
        using s1(4) entry_of_dir [OF g(1)] by simp
      with set_entry_inv [OF that(1) this, of e'] that(3,4) g show ?thesis
        by (auto simp: same_reqs_def intro: frame_trans)
    qed
    have mod: "entry_ok (sharers_len (dc_dir s1)) (e\<lparr>m_dstate := D_MODIFIED\<rparr>)" "de_address (e\<lparr>m_dstate := D_MODIFIED\<rparr>) = a"
      if "m_dstate e = D_EXCLUSIVE \<or> m_dstate e = D_MODIFIED"
      using e1(1,3) that by (auto simp: entry_ok_def)
    have excl: "wp (sendMsg UPGRADE_REP TAG_DIR L2_CACHE ?i ?i a None 0 HW_UNKNOWN (m_perf ?m) SIM_THREAD)
        (\<lambda>_. wp (sseq (setDState de D_MODIFIED) (next a)) (kept s)) s1" if "m_dstate e = D_EXCLUSIVE \<or> m_dstate e = D_MODIFIED"
      using upd [OF _ _ mod [OF that]] h fin by (intro rep [OF s1(1) frame_refl]) (simp add: wp same_env_frame)
    let ?e = "e\<lparr>m_owner_id := ?i, m_dstate := D_MODIFIED\<rparr>"
    have shrd: "setOwner e ?i = Inr (e\<lparr>m_owner_id := ?i\<rparr>) \<and>
        wp (sendMsg UPGRADE_REP TAG_DIR L2_CACHE ?i ?i a None 0 HW_UNKNOWN (m_perf ?m) SIM_THREAD)
         (\<lambda>_. wp (next a) (kept s)) (set_entry de ?e s1)" if "?l = [?i]"
    proof -
      have set: "sharer_set e = {?i}"
        using that by (simp add: sharer_set_def)
      have "entry_ok (sharers_len (dc_dir s1)) ?e" "de_address ?e = a"
        using e1(1,3) set by (auto simp: entry_ok_def)
      note u = upd [OF s1(1) same_env_refl this]
      have "wp (next a) (kept s) s3" if "dc_inv s3" "same_env (set_entry de ?e s1) s3" for s3
        using u that frame_trans [OF _ same_env_frame(10) [OF that(2)]] by (intro fin) (simp_all add: same_env_frame)
      with u set setOwner_spec(1) [OF ci] show ?thesis
        by (auto intro!: rep)
    qed
    show ?case
      using send others own [of D_MODIFIED] bc fst excl shrd ci h by (auto simp: wp)
  qed simp
qed

subsection \<open>The next request\<close>

lemma wp_complete:
  assumes "dc_queue s a = Some (p # ys)" and "st_map (dc_reqs s) p = Some r"
  shows "wp (sbind (q_dequeue a) (\<lambda>x. sseq (delete_req x) m)) Q s = wp m Q (popped a p ys s)"
  using assms by (cases ys) (simp_all add: q_dequeue_def delete_req_def wp dequeue_def popped_def)

lemma processNext_one:
  assumes "dc_queue s a = Some [p]" and "st_map (dc_reqs s) p = Some r"
  shows "processNextReqFromL2Cache (Suc fuel) a s = Inr ((), popped a p [] s)"
  using assms
  by (simp add: q_size_def q_dequeue_def delete_req_def get_req_def sbind_def sseq_def sget_def smod_def slift_def sassert_def
      sret_def size_rq_def dequeue_def st_get_def empty_rq_def popped_def)

lemma wp_processNext:
  assumes nx: "n > 0 \<Longrightarrow> next_ok (processNextReqFromL2Cache n) n" and inv: "dc_inv s"
    and q: "dc_queue s a = Some xs" "length xs \<le> Suc n"
  shows "wp (processNextReqFromL2Cache (Suc n) a) (kept s) s"
proof -
  obtain p ys where xs: "xs = p # ys"
    using queueD(1) [OF inv q(1)] by (cases xs) auto
  obtain r where r: "st_map (dc_reqs s) p = Some r"
    using queueD(5) [OF inv q(1), of p] xs by auto
  note s1 = popped_inv [OF inv q(1) [unfolded xs]]
  let ?s = "popped a p ys s"
  have rest: "wp (sbind (q_front a) (\<lambda>x.
     sbind (get_req x) (\<lambda>r.
     sseq (setElapsedTime SIM_THREAD (m_req_time r)) (
     let ty = m_msg_type (m_shmem_msg r) in
     if ty = EX_REQ then processExReqFromL2Cache (processNextReqFromL2Cache n) x None
     else if ty = SH_REQ then processShReqFromL2Cache (processNextReqFromL2Cache n) x None
     else if ty = UPGRADE_REQ then processUpgradeReqFromL2Cache (processNextReqFromL2Cache n) x None
     else sthrow LogError)))) (kept s) ?s" if "ys \<noteq> []"
  proof -
    have q1: "dc_queue ?s a = Some ys"
      using that by (simp add: popped_def)
    have n: "next_ok (processNextReqFromL2Cache n) n" and l: "length ys \<le> n"
      using nx that q(2) xs by (cases ys; simp)+
    obtain r' where r': "req_of ?s a ys (hd ys) r'"
      using req_of_hd [OF s1(1) q1] by blast
    have "wp (setElapsedTime SIM_THREAD (m_req_time r')) (\<lambda>_. wp (
       if m_msg_type (m_shmem_msg r') = EX_REQ then processExReqFromL2Cache (processNextReqFromL2Cache n) (hd ys) None
       else if m_msg_type (m_shmem_msg r') = SH_REQ then processShReqFromL2Cache (processNextReqFromL2Cache n) (hd ys) None
       else if m_msg_type (m_shmem_msg r') = UPGRADE_REQ then processUpgradeReqFromL2Cache (processNextReqFromL2Cache n) (hd ys) None
       else sthrow LogError) (kept s)) ?s"
    proof (rule inv_quiet [OF quiet_env(1) s1(1)], goal_cases)
      case s2: (1 _ s2)
      have r2: "req_of s2 a ys (hd ys) r'"
        using r' same_env_req [OF s2(2)] by simp
      have d: "data_ok s2 None"
        by (simp add: data_ok_def)
      have f: "frame s s2"
        using frame_trans [OF s1(2) same_env_frame(10) [OF s2(2)]] .
      show ?case
        using kept_mono [OF wp_processEx [OF n s2(1) r2 l d] f] kept_mono [OF wp_processSh [OF n s2(1) r2 l d] f]
          kept_mono [OF wp_processUpgrade [OF n s2(1) r2 l d] f] by (simp add: wp)
    qed
    with r' that show ?thesis
      unfolding wp_sbind [of "q_front a"] by (intro wp_q_front [OF q1]) (simp_all add: req_of_def wp Let_def)
  qed
  have e: "empty_rq a (dc_queue ?s) \<longleftrightarrow> ys = []"
    by (simp add: empty_rq_def popped_def)
  show ?thesis
    unfolding processNextReqFromL2Cache.simps wp_sbind [of "q_size a"] wp_q_size wp_sseq [of "sassert b" for b] wp_sassert
      wp_complete [OF q(1) [unfolded xs] r] wp_sbind [of "sget f" for f] wp_sget e
    using rest s1 by (cases "ys = []") (simp_all only: if_True if_False wp_sret simp_thms not_False_eq_True)
qed

lemma processNext_ok: "next_ok (processNextReqFromL2Cache (Suc fuel)) (Suc fuel)"
proof (induction fuel)
  case 0
  show ?case
    using processNext_one wp_processNext [of 0] unfolding next_ok_def by blast
next
  case (Suc fuel)
  then show ?case
    using processNext_one wp_processNext [of "Suc fuel"] unfolding next_ok_def by blast
qed

end
