(* ===== verification/DirCntlrMsgs.thy ===== *)
theory DirCntlrMsgs
  imports DirCntlrStep
begin

section \<open>Every message keeps the invariant of the directory controller\<close>

text \<open>
  The replies of the caches and of DRAM, and the two entry points \<open>handleMsgFromL2Cache\<close> and \<open>handleMsgFromDRAM\<close>.
\<close>

subsection \<open>Replies\<close>

lemma reply_for_stops: "reply_for ty st = Inl e \<Longrightarrow> stops e"
  by (cases ty) (auto simp: reply_for_def ensure_def split: if_splits)

lemma wp_processDRAMReply:
  assumes inv: "dc_inv s" and d: "data_ok s (m_data_buf msg)" and l: "length (rest s (m_msg_address msg)) < fuel"
  shows "wp (processDRAMReply fuel sender msg) (kept s) s"
proof (cases "dc_queue s (m_msg_address msg)")
  case None
  then show ?thesis
    unfolding processDRAMReply_def Let_def wp_sbind [of "q_size a" for a] wp_q_size wp_sseq [of "sassert b" for b] wp_sassert
    by (simp add: size_rq_def)
next
  case (Some xs)
  let ?a = "m_msg_address msg"
  obtain f where fuel: "fuel = Suc f"
    using l by (cases fuel) auto
  have nx: "next_ok (processNextReqFromL2Cache fuel) fuel" and lx: "length xs \<le> fuel"
    using processNext_ok l Some by (simp_all add: fuel)
  obtain r where r: "req_of s ?a xs (hd xs) r" "xs \<noteq> []"
    using req_of_hd [OF inv Some] by blast
  note rk = req_of_ok [OF inv r(1)]
  have fin: "wp (sbind (now SIM_THREAD) (\<lambda>t.
      sseq (sendDataToNUCA ?a i (m_data_buf msg) t False) (processNextReqFromL2Cache fuel ?a))) (kept s) s1"
    if s1: "dc_inv s1" "frame s s1" "req_of s1 ?a xs (hd xs) r" for i s1
    unfolding wp_sbind wp_now wp_sseq
  proof (rule wp_sendDataToNUCA [OF s1(1)], goal_cases)
    case 1
    show ?case
      using req_of_ok(5) [OF s1(1,3)] .
  next
    case 2
    show ?case
      by (rule data_ok_frame [OF s1(2) d])
  next
    case (3 s2)
    with s1 lx show ?case
      by (intro wp_next [OF nx]) (auto simp: same_ctl_def req_of_def intro: frame_trans)
  qed
  have body: "wp (sbind (slift (reply_for (m_msg_type (m_shmem_msg r)) st)) (\<lambda>ty.
      let hit_where = (if m_where msg = HW_DRAM
                       then if sender = m_requester msg then HW_DRAM_LOCAL else HW_DRAM_REMOTE
                       else m_where msg) in
      sbind (sget dc_block_size) (\<lambda>block_size.
      sseq (sendMsg ty TAG_DIR L2_CACHE i i ?a
              (m_data_buf msg) block_size hit_where (m_perf (m_shmem_msg r)) SIM_THREAD) (
      sbind (now SIM_THREAD) (\<lambda>t.
      sseq (sendDataToNUCA ?a i (m_data_buf msg) t False) (
      processNextReqFromL2Cache fuel ?a)))))) (kept s) s1"
    if s1: "dc_inv s1" "frame s s1" "req_of s1 ?a xs (hd xs) r" for i st s1
  proof -
    have "wp (sendMsg ty TAG_DIR L2_CACHE i i ?a (m_data_buf msg) (dc_block_size s1) hw (m_perf (m_shmem_msg r)) SIM_THREAD)
      (\<lambda>_. wp (sbind (now SIM_THREAD) (\<lambda>t.
        sseq (sendDataToNUCA ?a i (m_data_buf msg) t False) (processNextReqFromL2Cache fuel ?a))) (kept s)) s1" for ty hw
    proof (rule inv_quiet [OF quiet_env(6) s1(1)], goal_cases)
      case 1
      show ?case
        using req_of_ok(3) [OF s1(1,3)] .
    next
      case 2
      show ?case
        using data_ok_buf [OF data_ok_frame [OF s1(2) d]] .
    next
      case s2: (3 _ s2)
      show ?case
        using s1(3) same_env_req [OF s2(2)] by (intro fin s2(1) frame_trans [OF s1(2) same_env_frame(10) [OF s2(2)]]) simp
    qed
    then show ?thesis
      using reply_for_stops by (auto simp: wp Let_def split: sum.splits)
  qed
  show ?thesis
    unfolding processDRAMReply_def Let_def wp_sbind [of "q_size a" for a] wp_q_size wp_sseq [of "sassert b" for b] wp_sassert
      wp_sbind [of "q_front a" for a] wp_sseq [of "updateShmemPerf_req p T_UNKNOWN" for p] wp_sbind [of "lookup_some a" for a]
  proof (intro impI wp_q_front [OF Some r(2)] wp_perf_req [OF inv r(1)], goal_cases)
    case s1: (1 s1)
    show ?case
    proof (rule wp_lookup_some [OF s1(2) req_of_ok(5) [OF s1(2,4)]], goal_cases)
      case s2: (1 de e s2)
      have r2: "req_of s2 ?a xs (hd xs) r" and f2: "frame s s2"
        using s1(4) same_reqs_req [OF s2(2)] frame_trans [OF same_env_frame(10) [OF s1(3)]] s2(2) by (simp_all add: same_reqs_def)
      show ?case
        unfolding wp_sbind [of "get_entry p" for p] wp_get_entry entry_of_heap [OF s2(4)] option.case
          wp_sseq [of "updateShmemPerf_req p TD_ACCESS" for p]
      proof (intro wp_perf_req [OF s2(1) r2], goal_cases)
        case s3: (1 s3)
        show ?case
          unfolding wp_sbind [of "get_req p" for p] wp_get_req req_of_ok(6) [OF s3(1,3)] option.case
          using body [unfolded Let_def, OF s3(1) frame_trans [OF f2 same_env_frame(10) [OF s3(2)]] s3(3)] .
      qed
    qed
  qed
qed

lemma wp_wake:
  assumes inv: "dc_inv s" and r: "req_of s a xs p r"
    and g: "\<And>r' s'. dc_inv s' \<Longrightarrow> frame s s' \<Longrightarrow> dc_dir s' = dc_dir s \<Longrightarrow> req_of s' a xs p r' \<Longrightarrow>
      m_shmem_msg r' = m_shmem_msg r \<Longrightarrow> wp (g r') Q s'"
  shows "wp (sseq (upd_req p (\<lambda>r. req_updateTime r t)) (sbind (get_req p) (\<lambda>r.
    sseq (updateElapsedTime (m_req_time r) SIM_THREAD) (g r)))) Q s"
proof -
  let ?r = "req_updateTime r t"
  have m: "m_shmem_msg ?r = m_shmem_msg r"
    by (simp add: req_updateTime_def)
  note rk = req_of_ok [OF inv r]
  have "req_ok s a ?r"
    using rk(9) by (simp add: req_ok_def m)
  note s1 = set_req_inv [OF inv r this]
  have "wp (updateElapsedTime (m_req_time ?r) SIM_THREAD) (\<lambda>_. wp (g ?r) Q) (set_req p ?r s)"
  proof (rule inv_quiet [OF quiet_env(2) s1(1)], goal_cases)
    case (1 _ s2)
    then show ?case
      using frame_trans [OF s1(2) same_env_frame(10) [OF 1(2)]] same_env_frame(1) [OF 1(2)] s1(3,5) same_env_req [OF 1(2)] m
      by (intro g) simp_all
  qed
  then show ?thesis
    using rk(6) s1(3) by (simp add: wp req_of_def)
qed

lemma inv_removed_ok:
  assumes e: "entry_ok n e" "n < 2 ^ 32" "core_in e i" "m_dstate e = D_SHARED \<or> m_dstate e = D_EXCLUSIVE"
  shows "case inv_removed i e of Inl err \<Rightarrow> stops err | Inr e' \<Rightarrow> entry_ok n e' \<and> de_address e' = de_address e"
proof (cases "i \<in> sharer_set e")
  case True
  let ?e = "e\<lparr>m_sharers := (m_sharers e)[nat i := False]\<rparr>"
  have l: "length (m_sharers ?e) < 2 ^ 32" "length (m_sharers (?e\<lparr>m_forwarder_id := f\<rparr>)) < 2 ^ 32" for f
    using e(1,2) by (simp_all add: entry_ok_def)
  show ?thesis
    using e True by (auto simp: inv_removed_def removeSharer_spec Let_def getNumSharers_0 [OF l(1)] getNumSharers_0 [OF l(2)]
        sharer_set_remove entry_ok_def split: dstate_t.splits)
qed (use e(3) in \<open>simp add: inv_removed_def removeSharer_spec\<close>)

lemma flush_removed_ok:
  assumes e: "entry_ok n e" "n < 2 ^ 32" "core_in e i"
  shows "case flush_removed i e of Inl err \<Rightarrow> stops err | Inr e' \<Rightarrow> entry_ok n e' \<and> de_address e' = de_address e \<and>
    sharer_set e' = sharer_set e - {i} \<and> i \<in> sharer_set e"
proof (cases "i \<in> sharer_set e")
  case True
  let ?e = "e\<lparr>m_sharers := (m_sharers e)[nat i := False], m_forwarder_id := INVALID_CORE_ID\<rparr>"
  have l: "length (m_sharers (?e\<lparr>m_owner_id := INVALID_CORE_ID\<rparr>)) < 2 ^ 32"
    using e(1,2) by (simp add: entry_ok_def)
  show ?thesis
    using e True
    by (auto simp: flush_removed_def removeSharer_spec ensure_def setOwner_spec(2) getNumSharers_0 [OF l] sharer_set_remove entry_ok_def
        split: dstate_t.splits)
qed (use e(3) in \<open>simp add: flush_removed_def ensure_def\<close>)

lemma wp_processNullify:
  assumes nx: "next_ok next k" and inv: "dc_inv s" and r: "req_of s a xs p r" and l: "length xs \<le> k"
  shows "wp (processNullifyReq next p) (kept s) s"
  by (rule wp_nullify [OF inv r]) (use r l in \<open>auto simp: same_reqs_def req_of_def intro: wp_next [OF nx]\<close>)

lemma wp_then:
  assumes inv: "dc_inv s" and f: "frame s0 s" and r: "req_of s a xs p r"
    and g: "\<And>s'. dc_inv s' \<Longrightarrow> req_of s' a xs p r \<Longrightarrow> frame s0 s' \<Longrightarrow> wp m (kept s') s'"
  shows "wp (sseq (updateShmemPerf_req p reason) m) (kept s0) s"
  unfolding wp_sseq
proof (rule wp_perf_req [OF inv r], goal_cases)
  case (1 s')
  have "frame s0 s'"
    using frame_trans [OF f same_env_frame(10) [OF 1(2)]] .
  from kept_mono [OF g [OF 1(1,3) this] this] show ?case .
qed

lemma data_ok_None [simp]: "data_ok s None"
  by (simp add: data_ok_def)

lemma set_uncached:
  assumes "entry_ok n e" and "n < 2 ^ 32" and "getNumSharers e = 0"
  shows "entry_ok n (e\<lparr>m_dstate := D_UNCACHED\<rparr>)"
  using assms getNumSharers_0 [of e] by (simp add: entry_ok_def)

lemma dir_sharers: "dc_inv s \<Longrightarrow> sharers_len (dc_dir s) < 2 ^ 32"
  by (simp add: dc_inv_def dir_ok_def)

lemma wp_ifI: "(b \<Longrightarrow> wp m Q s) \<Longrightarrow> (\<not> b \<Longrightarrow> wp n Q s) \<Longrightarrow> wp (if b then m else n) Q s"
  by simp

lemma processNext_fuel: "length (rest s a) < fuel \<Longrightarrow> next_ok (processNextReqFromL2Cache fuel) fuel"
  using processNext_ok by (cases fuel) simp_all

lemmas wp_steps =
  wp_sbind [of "get_entry p" for p] wp_get_entry wp_sseq [of "sassert b" for b] wp_sassert
  wp_sseq [of "upd_dir_entry p f" for p f] wp_upd_dir_entry wp_sbind [of "q_size a" for a] wp_q_size
  wp_sbind [of "q_front a" for a] wp_sbind [of "now t" for t] wp_now wp_sbind [of "slift r" for r] wp_slift

lemma wp_processInvRep:
  assumes inv: "dc_inv s" and a: "addr_ok s (m_msg_address msg)" and i: "core_ok s sender" and l: "length (rest s (m_msg_address msg)) < fuel"
  shows "wp (processInvRepFromL2Cache fuel sender msg) (kept s) s"
proof -
  let ?a = "m_msg_address msg" and ?next = "processNextReqFromL2Cache fuel"
  note nx = processNext_fuel [OF l]
  show ?thesis
    unfolding processInvRepFromL2Cache_def Let_def wp_sbind [of "lookup_some a" for a]
  proof (rule wp_lookup_some [OF inv a], goal_cases)
    case s1: (1 de e s1)
    note e1 = entry_of_ok [OF s1(1,4)] and f1 = s1(2) [unfolded same_reqs_def, THEN conjunct1] and h = entry_of_heap [OF s1(4)]
    have ci: "core_in e sender"
      using e1(5) i frame_ok(1) [OF f1] by simp
    show ?case
      unfolding wp_steps h option.case
    proof (rule impI, goal_cases)
      case st: 1
      note rem = inv_removed_ok [OF e1(1) dir_sharers [OF s1(1)] ci st]
      show ?case
      proof (cases "inv_removed sender e")
        case (Inl err)
        with rem show ?thesis
          by simp
      next
        case (Inr e')
        have e': "entry_ok (sharers_len (dc_dir s1)) e'" "de_address e' = ?a"
          using rem Inr e1(3) by simp_all
        note s2 = set_entry_inv [OF s1(1,4) e']
        let ?s2 = "set_entry de e' s1"
        have f2: "frame s ?s2" and q2: "dc_queue ?s2 = dc_queue s"
          using frame_trans [OF f1] s1(2) s2(2) by (simp_all add: same_reqs_def)
        show ?thesis
          unfolding Inr sum.case
        proof (rule wp_ifI, goal_cases)
          case 1
          then obtain xs where q: "dc_queue ?s2 ?a = Some xs"
            by (auto simp: size_rq_def split: option.splits)
          have lx: "length xs \<le> fuel"
            using q l q2 by simp
          obtain r where r: "req_of ?s2 ?a xs (hd xs) r" "xs \<noteq> []"
            using req_of_hd [OF s2(1) q] by blast
          show ?case
            unfolding wp_steps
          proof (rule wp_q_front [OF q r(2)], rule wp_wake [OF s2(1) r(1)], goal_cases)
            case s3: (1 r' s3)
            note e3 = entry_of_ok [OF s3(1)] and r3 = req_of_ok [OF s3(1,4)]
            have f3: "frame s s3" and h3: "entry_of s3 ?a de e'"
              using frame_trans [OF f2 s3(2)] s2(3) entry_of_dir [OF s3(3)] by simp_all
            note g = wp_then [OF s3(1) f3 s3(4)]
            have ex: "wp (sseq (updateShmemPerf_req (hd xs) t) (processExReqFromL2Cache ?next (hd xs) None)) (kept s) s3"
              and sh: "wp (sseq (updateShmemPerf_req (hd xs) t) (processShReqFromL2Cache ?next (hd xs) None)) (kept s) s3"
              and nul: "wp (sseq (updateShmemPerf_req (hd xs) t) (processNullifyReq ?next (hd xs))) (kept s) s3"
              and up: "wp (sseq (updateShmemPerf_req (hd xs) t) (processUpgradeReqFromL2Cache ?next (hd xs) None)) (kept s) s3" for t
              by (rule g; erule wp_processEx [OF nx] wp_processSh [OF nx] wp_processUpgrade [OF nx] wp_processNullify [OF nx];
                  (assumption | rule lx data_ok_None))+
            have unc: "wp (sseq (updateShmemPerf_req (hd xs) t) (processUpgradeReqFromL2Cache ?next (hd xs) None)) (kept s)
                (set_entry de (e'\<lparr>m_dstate := D_UNCACHED\<rparr>) s3)" if "getNumSharers e' = 0" for t
            proof -
              have "entry_ok (sharers_len (dc_dir s3)) (e'\<lparr>m_dstate := D_UNCACHED\<rparr>)" "de_address (e'\<lparr>m_dstate := D_UNCACHED\<rparr>) = ?a"
                using set_uncached [OF e3(1) [OF h3] dir_sharers [OF s3(1)] that] e'(2) by simp_all
              note s4 = set_entry_inv [OF s3(1) h3 this]
              have f4: "frame s (set_entry de (e'\<lparr>m_dstate := D_UNCACHED\<rparr>) s3)"
                using frame_trans [OF f3] s4(2) by (simp add: same_reqs_def)
              have r4: "req_of (set_entry de (e'\<lparr>m_dstate := D_UNCACHED\<rparr>) s3) ?a xs (hd xs) r'"
                using s3(4) same_reqs_req [OF s4(2)] by simp
              show ?thesis
                by (rule wp_then [OF s4(1) f4 r4]) (rule wp_processUpgrade [OF nx _ _ lx data_ok_None])
            qed
            have "core_in e' (m_requester (m_shmem_msg r'))"
              using e3(5) [OF h3] r3(2) by blast
            with ex sh nul up unc show ?case
              using s3(1) f3 entry_of_heap [OF h3] by (auto simp: wp)
          qed
        next
          case 2
          then show ?case
            using s2(1) f2 by (simp add: wp)
        qed
      qed
    qed
  qed
qed

definition strands :: "dir_cntlr \<Rightarrow> ShmemMsg \<Rightarrow> bool" where
  \<comment> \<open>data arrives for an upgrade that still waits for other sharers: the request keeps a pointer to the message's data\<close>
  "strands s msg \<longleftrightarrow> m_msg_type msg = FLUSH_REP \<and>
     (\<exists>xs r e. dc_queue s (m_msg_address msg) = Some xs \<and> st_map (dc_reqs s) (hd xs) = Some r \<and> m_msg_type (m_shmem_msg r) = UPGRADE_REQ \<and>
        dir_map (dc_dir s) (m_msg_address msg) = Some e \<and> card (sharer_set e) > 1)"

lemma wp_data_then:
  assumes inv: "dc_inv s" and f: "frame s0 s" and a: "addr_ok s a" and d: "data_ok s buf" and r: "req_of s a xs p r"
    and g: "\<And>s'. dc_inv s' \<Longrightarrow> req_of s' a xs p r \<Longrightarrow> frame s0 s' \<Longrightarrow> wp m (kept s') s'"
  shows "wp (sseq (sendDataToDram a i buf t) m) (kept s0) s"
  unfolding wp_sseq
proof (rule wp_sendDataToDram [OF inv a d], goal_cases)
  case (1 s')
  have "frame s0 s'" "req_of s' a xs p r"
    using frame_trans [OF f] r 1(2) by (simp_all add: same_ctl_def req_of_def)
  from kept_mono [OF g [OF 1(1) this(2,1)] this(1)] show ?case .
qed

lemma wp_perf_time:
  assumes inv: "dc_inv s" and r: "req_of s a xs p r"
    and Q: "\<And>s'. dc_inv s' \<Longrightarrow> same_env s s' \<Longrightarrow> req_of s' a xs p r \<Longrightarrow> Q () s'"
  shows "wp (perf_updateTime (m_perf (m_shmem_msg r)) t reason) Q s"
  using req_of_ok(3) [OF inv r] r by (auto intro!: inv_quiet [OF quiet_env(5) inv] Q simp: same_env_req)

lemma wp_flush_wake:
  assumes nx: "next_ok next k" and inv: "dc_inv s" and f: "frame s0 s" and r: "req_of s (m_msg_address msg) xs p r" and l: "length xs \<le> k"
    and e: "entry_of s (m_msg_address msg) de e" and d: "data_ok s (m_data_buf msg)"
    and st: "m_msg_type (m_shmem_msg r) = UPGRADE_REQ \<Longrightarrow> m_data_buf msg \<noteq> None \<Longrightarrow> sharer_set e = {}"
  shows "wp (if m_msg_type (m_shmem_msg r) = EX_REQ then processExReqFromL2Cache next p (m_data_buf msg)
        else if m_msg_type (m_shmem_msg r) = SH_REQ
        then
          sseq (sendDataToDram (m_msg_address msg) (m_requester msg) (m_data_buf msg) t) (
          processShReqFromL2Cache next p (m_data_buf msg))
        else if m_msg_type (m_shmem_msg r) = UPGRADE_REQ
        then
          sbind (get_entry de) (\<lambda>e.
          if getNumSharers e = 0
          then
            sseq (setDState de D_UNCACHED) (
            processUpgradeReqFromL2Cache next p (m_data_buf msg))
          else
            upd_req p (\<lambda>r. r\<lparr>m_shmem_msg := (m_shmem_msg r)\<lparr>m_data_buf := m_data_buf msg\<rparr>\<rparr>))
        else
          sseq (sendDataToDram (m_msg_address msg) (m_requester msg) (m_data_buf msg) t) (
          processNullifyReq next p)) (kept s0) s"
proof -
  let ?a = "m_msg_address msg" and ?d = "m_data_buf msg"
  note e1 = entry_of_ok [OF inv e] and r1 = req_of_ok [OF inv r]
  have ex: "wp (processExReqFromL2Cache next p ?d) (kept s0) s"
    using kept_mono [OF wp_processEx [OF nx inv r l d] f] .
  have sh: "wp (sseq (sendDataToDram ?a i ?d t) (processShReqFromL2Cache next p ?d)) (kept s0) s"
    and nul: "wp (sseq (sendDataToDram ?a i ?d t) (processNullifyReq next p)) (kept s0) s" for i t
    by (rule kept_mono [OF _ f], rule wp_data_then [OF inv frame_refl r1(5) d r],
        (erule wp_processSh [OF nx] wp_processNullify [OF nx]; (assumption | rule l | erule data_ok_frame [OF _ d])))+
  have zero: "getNumSharers e = 0 \<longleftrightarrow> sharer_set e = {}"
    using e1(4) by (rule getNumSharers_0)
  let ?e = "e\<lparr>m_dstate := D_UNCACHED\<rparr>"
  have up: "wp (processUpgradeReqFromL2Cache next p ?d) (kept s0) (set_entry de ?e s)" if "getNumSharers e = 0"
  proof -
    have "entry_ok (sharers_len (dc_dir s)) ?e" "de_address ?e = ?a"
      using set_uncached [OF e1(1) dir_sharers [OF inv] that] e1(3) by simp_all
    note s4 = set_entry_inv [OF inv e this]
    have f4: "frame s (set_entry de ?e s)"
      using s4(2) by (simp add: same_reqs_def)
    show ?thesis
      using kept_mono [OF wp_processUpgrade [OF nx s4(1) _ l data_ok_frame [OF f4 d]] frame_trans [OF f f4]] r same_reqs_req [OF s4(2)] by simp
  qed
  have keep: "kept s0 () (set_req p (r\<lparr>m_shmem_msg := (m_shmem_msg r)\<lparr>m_data_buf := None\<rparr>\<rparr>) s)"
  proof -
    have "req_ok s ?a (r\<lparr>m_shmem_msg := (m_shmem_msg r)\<lparr>m_data_buf := None\<rparr>\<rparr>)"
      using r1(9) by (simp add: req_ok_def)
    from set_req_inv [OF inv r this] frame_trans [OF f] show ?thesis
      by simp
  qed
  show ?thesis
    using ex sh nul up keep st zero entry_of_heap [OF e] r1(6) by (cases ?d) (auto simp: wp)
qed

lemma wp_processFlushRep:
  assumes inv: "dc_inv s" and a: "addr_ok s (m_msg_address msg)" and i: "core_ok s sender" and l: "length (rest s (m_msg_address msg)) < fuel"
    and d: "data_ok s (m_data_buf msg)" and ty: "m_msg_type msg = FLUSH_REP" and st: "\<not> strands s msg"
  shows "wp (processFlushRepFromL2Cache fuel sender msg) (kept s) s"
proof -
  let ?a = "m_msg_address msg" and ?next = "processNextReqFromL2Cache fuel"
  note nx = processNext_fuel [OF l]
  show ?thesis
    unfolding processFlushRepFromL2Cache_def Let_def wp_sbind [of "lookup_some a" for a] wp_steps
  proof (rule wp_lookup_some [OF inv a], goal_cases)
    case s1: (1 de e s1)
    note e1 = entry_of_ok [OF s1(1,4)] and f1 = s1(2) [unfolded same_reqs_def, THEN conjunct1] and h = entry_of_heap [OF s1(4)]
    have ci: "core_in e sender"
      using e1(5) i frame_ok(1) [OF f1] by simp
    note rem = flush_removed_ok [OF e1(1) dir_sharers [OF s1(1)] ci]
    show ?case
    proof (cases "flush_removed sender e")
      case (Inl err)
      with rem h show ?thesis
        unfolding wp_steps by simp
    next
      case (Inr e')
      have e': "entry_ok (sharers_len (dc_dir s1)) e'" "de_address e' = ?a" "sharer_set e' = sharer_set e - {sender}" "sender \<in> sharer_set e"
        using rem Inr e1(3) by simp_all
      note s2 = set_entry_inv [OF s1(1,4) e'(1,2)]
      let ?s2 = "set_entry de e' s1"
      have f2: "frame s ?s2" and q2: "dc_queue ?s2 = dc_queue s" "dc_reqs ?s2 = dc_reqs s"
        using frame_trans [OF f1] s1(2) s2(2) by (simp_all add: same_reqs_def)
      note ok2 = frame_ok [OF f2] and d2 = data_ok_frame [OF f2 d]
      show ?thesis
        unfolding wp_steps h option.case Inr sum.case
      proof (rule wp_ifI, goal_cases)
        case 1
        then obtain xs where q: "dc_queue ?s2 ?a = Some xs"
          by (auto simp: size_rq_def split: option.splits)
        have lx: "length xs \<le> fuel"
          using q l q2 by simp
        obtain r where r: "req_of ?s2 ?a xs (hd xs) r" "xs \<noteq> []"
          using req_of_hd [OF s2(1) q] by blast
        have last: "sharer_set e' = {}" if "m_msg_type (m_shmem_msg r) = UPGRADE_REQ" "m_data_buf msg \<noteq> None"
        proof -
          have "dir_map (dc_dir s) ?a = Some e"
            using s1(5) e'(4) by auto
          then have "card (sharer_set e) \<le> 1"
            using st that ty r(1) q2 by (auto simp: strands_def req_of_def not_less)
          with e'(4) have "card (sharer_set e - {sender}) = 0"
            by (simp add: card_Diff_singleton)
          then show ?thesis
            by (simp add: e'(3) del: card_0_eq add: card_eq_0_iff)
        qed
        show ?case
          unfolding wp_steps
        proof (rule wp_q_front [OF q r(2)], rule wp_wake [OF s2(1) r(1)], goal_cases)
          case s3: (1 r' s3)
          have h3: "entry_of s3 ?a de e'" and f3: "frame s s3"
            using s2(3) entry_of_dir [OF s3(3)] frame_trans [OF f2 s3(2)] by simp_all
          show ?case
            unfolding wp_sseq [of "perf_updateTime p t x" for p t x] wp_sseq [of "updateShmemPerf_req p TD_ACCESS" for p]
          proof (rule wp_perf_time [OF s3(1,4)], rule wp_perf_req, assumption, assumption, goal_cases)
            case s5: (1 s4 s5)
            have e45: "same_env s3 s5"
              using same_env_trans [OF s5(2,5)] .
            have f5: "frame s s5" and h5: "entry_of s5 ?a de e'"
              using frame_trans [OF f3 same_env_frame(10) [OF e45]] h3 entry_of_dir [OF same_env_frame(1) [OF e45]] by simp_all
            show ?case
              using last s3(5) by (intro wp_flush_wake [OF nx s5(4) f5 s5(6) lx h5 data_ok_frame [OF f5 d]]) simp
          qed
        qed
      next
        case 2
        show ?case
        proof (rule wp_sendDataToDram [OF s2(1)], goal_cases)
          case (3 s')
          then show ?case
            using frame_trans [OF f2] by (simp add: same_ctl_def)
        qed (use a ok2(2) d2 in simp_all)
      qed
    qed
  qed
qed

lemma wp_processWbRep:
  assumes inv: "dc_inv s" and a: "addr_ok s (m_msg_address msg)" and i: "core_ok s sender" and l: "length (rest s (m_msg_address msg)) < fuel"
    and d: "data_ok s (m_data_buf msg)"
  shows "wp (processWbRepFromL2Cache fuel sender msg) (kept s) s"
proof -
  let ?a = "m_msg_address msg" and ?next = "processNextReqFromL2Cache fuel"
  note nx = processNext_fuel [OF l]
  show ?thesis
    unfolding processWbRepFromL2Cache_def Let_def wp_sbind [of "lookup_some a" for a] wp_steps
  proof (rule wp_lookup_some [OF inv a], goal_cases)
    case s1: (1 de e s1)
    note e1 = entry_of_ok [OF s1(1,4)] and f1 = s1(2) [unfolded same_reqs_def, THEN conjunct1] and h = entry_of_heap [OF s1(4)]
    have ci: "core_in e sender"
      using e1(5) i frame_ok(1) [OF f1] by simp
    show ?case
      unfolding wp_steps h option.case hasSharer_in [OF ci] sum.case wp_sseq [of "setDState p st" for p st] wp_setDState setOwner_spec(2)
        set_entry_simps fun_upd_same
    proof (rule impI, rule wp_ifI, goal_cases)
      case 1
      let ?e = "e\<lparr>m_owner_id := INVALID_CORE_ID, m_dstate := D_SHARED\<rparr>"
      have e': "entry_ok (sharers_len (dc_dir s1)) ?e" "de_address ?e = ?a"
        using e1(1,3) 1(1) by (auto simp: entry_ok_def)
      note s2 = set_entry_inv [OF s1(1,4) e']
      let ?s2 = "set_entry de ?e s1"
      have f2: "frame s ?s2" and q2: "dc_queue ?s2 = dc_queue s"
        using frame_trans [OF f1] s1(2) s2(2) by (simp_all add: same_reqs_def)
      obtain xs where q: "dc_queue ?s2 ?a = Some xs"
        using 1(2) by (auto simp: size_rq_def split: option.splits)
      have lx: "length xs \<le> fuel"
        using q l q2 by simp
      obtain r where r: "req_of ?s2 ?a xs (hd xs) r" "xs \<noteq> []"
        using req_of_hd [OF s2(1) q] by blast
      show ?case
        unfolding wp_steps
      proof (rule wp_q_front [OF q r(2)], rule wp_wake [OF s2(1) r(1)], goal_cases)
        case s3: (1 r' s3)
        show ?case
          unfolding wp_sseq [of "perf_updateTime p t x" for p t x] wp_sseq [of "updateShmemPerf_req p TD_ACCESS" for p]
        proof (rule wp_perf_time [OF s3(1,4)], rule wp_perf_req, assumption, assumption, goal_cases)
          case s5: (1 s4 s5)
          have f5: "frame s s5"
            using frame_trans [OF frame_trans [OF f2 s3(2)] same_env_frame(10) [OF same_env_trans [OF s5(2,5)]]] .
          show ?case
            unfolding wp_steps using kept_mono [OF wp_processSh [OF nx s5(4,6) lx data_ok_frame [OF f5 d]] f5] by simp
        qed
      qed
    next
      case 2
      show ?case
        by (simp add: wp)
    qed
  qed
qed

subsection \<open>Messages\<close>

definition msg_ok :: "dir_cntlr \<Rightarrow> ShmemMsg \<Rightarrow> bool" where
  \<comment> \<open>a message about a block, from a core of the system, with a block of data if with any\<close>
  "msg_ok s msg \<longleftrightarrow> addr_ok s (m_msg_address msg) \<and> core_ok s (m_requester msg) \<and> perf_valid s (m_perf msg) \<and>
     data_ok s (m_data_buf msg)"

lemma wp_request:
  assumes inv: "dc_inv s" and f: "frame s0 s" and m: "msg_ok s msg" and l: "length (rest s (m_msg_address msg)) < fuel"
    and l32: "length (rest s (m_msg_address msg)) + 1 < 2 ^ 32"
    and g: "\<And>s' xs p r. dc_inv s' \<Longrightarrow> req_of s' (m_msg_address msg) xs p r \<Longrightarrow> length xs \<le> fuel \<Longrightarrow>
      wp (process (processNextReqFromL2Cache fuel) p None) (kept s') s'"
  shows "wp (sbind (new_req msg t) (\<lambda>p. sseq (q_enqueue (m_msg_address msg) p) (sbind (q_size (m_msg_address msg)) (\<lambda>size.
    if size = 1 then process (processNextReqFromL2Cache fuel) p None else sret ())))) (kept s0) s"
proof (cases "m_data_buf msg")
  case None
  let ?a = "m_msg_address msg" and ?p = "st_next (dc_reqs s)"
  define r where "r = \<lparr>m_shmem_msg = ShmemMsg_copy (dc_junk_where s) msg, m_req_time = t, m_wait_for_data = False,
     m_forwarding_from = INVALID_CORE_ID\<rparr>"
  have r: "req_ok s ?a r" and a: "addr_ok s ?a"
    using m None by (simp_all add: r_def req_ok_def ShmemMsg_copy_def msg_ok_def)
  note s1 = pushed_inv [OF inv a r l32]
  have r1: "req_of (pushed ?a r s) ?a (rest s ?a @ [?p]) ?p r"
    using s1(5,6) by (simp add: req_of_def)
  have "wp (process (processNextReqFromL2Cache fuel) ?p None) (kept s0) (pushed ?a r s)"
    using l by (intro kept_mono [OF g [OF s1(1) r1]] frame_trans [OF f s1(2)]) simp
  then show ?thesis
    using s1(1) frame_trans [OF f s1(2)] None by (simp add: wp pushed_unfold r_def)
qed (simp add: wp)

lemma wp_handleMsgFromL2Cache:
  assumes inv: "dc_inv s" and m: "msg_ok s msg" and i: "core_ok s sender" and st: "\<not> strands s msg"
    and l: "length (rest s (m_msg_address msg)) < fuel" "length (rest s (m_msg_address msg)) + 1 < 2 ^ 32"
  shows "wp (handleMsgFromL2Cache fuel sender msg) (kept s) s"
proof -
  let ?a = "m_msg_address msg"
  have ok: "addr_ok s ?a" "perf_valid s (m_perf msg)" "data_ok s (m_data_buf msg)"
    using m by (simp_all add: msg_ok_def)
  show ?thesis
    unfolding handleMsgFromL2Cache_def Let_def wp_sbind [of "lookup a b" for a b] wp_steps wp_sseq [of "updateShmemPerf msg x" for x]
  proof (rule wp_lookup [OF inv ok(1)], goal_cases)
    case s1: (1 de s1)
    have f1: "frame s s1" and q1: "dc_queue s1 = dc_queue s" "dc_reqs s1 = dc_reqs s"
      using s1(2) by (simp_all add: same_reqs_def)
    have p1: "perf_valid s1 (m_perf msg)"
      using ok(2) frame_ok(3) [OF f1] by simp
    have old: "dir_map (dc_dir s) ?a = Some e \<or> sharer_set e = {}" if "dir_map (dc_dir s1) ?a = Some e" for e
      using s1(4,5) that by (auto simp: dir_map_def entry_of_def split: option.splits)
    show ?case
    proof (rule inv_quiet [OF quiet_updateShmemPerf [OF p1] s1(1)], goal_cases)
      case s2: (1 _ s2)
      note g = same_env_frame [OF s2(2)]
      have f2: "frame s s2"
        using frame_trans [OF f1 g(10)] .
      note k = frame_ok [OF f2]
      have m2: "msg_ok s2 msg" and a2: "addr_ok s2 ?a" and d2: "data_ok s2 (m_data_buf msg)" and i2: "core_ok s2 sender"
        using m i k data_ok_frame [OF f2 ok(3)] by (simp_all add: msg_ok_def)
      have l2: "length (rest s2 ?a) < fuel" "length (rest s2 ?a) + 1 < 2 ^ 32"
        using l g(2) q1 by simp_all
      have st2: "\<not> strands s2 msg"
      proof
        assume "strands s2 msg"
        then obtain xs r e where x: "m_msg_type msg = FLUSH_REP" "dc_queue s ?a = Some xs"
            "st_map (dc_reqs s) (hd xs) = Some r" "m_msg_type (m_shmem_msg r) = UPGRADE_REQ" "dir_map (dc_dir s1) ?a = Some e"
            "card (sharer_set e) > 1"
          unfolding strands_def g(1,2,3) q1 by (elim exE conjE) (rule that)
        with old [of e] st show False
          by (auto simp: strands_def)
      qed
      note nx = processNext_fuel [OF l2(1)] and req = wp_request [OF s2(1) f2 m2 l2]
      note ex = req [of processExReqFromL2Cache, OF wp_processEx [OF nx _ _ _ data_ok_None]]
        and sh = req [of processShReqFromL2Cache, OF wp_processSh [OF nx _ _ _ data_ok_None]]
        and up = req [of processUpgradeReqFromL2Cache, OF wp_processUpgrade [OF nx _ _ _ data_ok_None]]
      note iv = kept_mono [OF wp_processInvRep [OF s2(1) a2 i2 l2(1)] f2]
        and fl = kept_mono [OF wp_processFlushRep [OF s2(1) a2 i2 l2(1) d2 _ st2] f2]
        and wb = kept_mono [OF wp_processWbRep [OF s2(1) a2 i2 l2(1) d2] f2]
      show ?case
        using ex sh up iv fl wb by (simp add: wp_sthrow)
    qed
  qed
qed

lemma wp_handleMsgFromDRAM:
  assumes "dc_inv s" and "data_ok s (m_data_buf msg)" and "length (rest s (m_msg_address msg)) < fuel"
  shows "wp (handleMsgFromDRAM fuel sender msg) (kept s) s"
  unfolding handleMsgFromDRAM_def using wp_processDRAMReply [OF assms] by (simp add: wp_sthrow)

subsection \<open>Packets\<close>

definition packet_ok :: "dir_cntlr \<Rightarrow> NetPacket \<Rightarrow> bool" where
  \<comment> \<open>a packet for the tag directory; its payload is a block, or it has none\<close>
  "packet_ok s packet \<longleftrightarrow>
     (case pkt_data packet of (msg, payload) \<Rightarrow>
        m_receiver_mem_component msg = TAG_DIR \<and> core_ok s (pkt_sender packet) \<and> addr_ok s (m_msg_address msg) \<and>
        core_ok s (m_requester msg) \<and> perf_valid s (m_perf msg) \<and>
        (if m_data_length msg > 0 then m_data_length msg = dc_block_size s \<and> unat (dc_block_size s) \<le> length payload
         else m_data_buf msg = None))"

abbreviation on_packet :: "nat \<Rightarrow> NetPacket \<Rightarrow> unit dcm" where
  \<comment> \<open>the packets of the tag directory do not reach the other two handlers\<close>
  "on_packet fuel \<equiv>
     handleMsgFromNetwork (\<lambda>_ _. sthrow Undefined) (handleMsgFromL2Cache fuel) (handleMsgFromDRAM fuel) (\<lambda>_ _. sthrow Undefined)"

lemma quiet_updatePacket: "perf_valid s perf \<Longrightarrow> quiet stop (perf_updatePacket perf time delay) (\<lambda>_. True) s"
  by (auto simp: quiet_def perf_updatePacket_def perf_valid_def sm_defs same_env_perfs same_env_refl split: option.split)

definition dispatch :: "nat \<Rightarrow> NetPacket \<Rightarrow> ShmemMsg \<Rightarrow> unit dcm" where
  "dispatch fuel packet msg =
     sseq (setElapsedTime SIM_THREAD (pkt_time packet)) (
     sseq (perf_updatePacket (m_perf msg) (pkt_time packet) (pkt_queue_delay packet)) (
     if m_sender_mem_component msg = LAST_LEVEL_CACHE then handleMsgFromL2Cache fuel (pkt_sender packet) msg
     else if m_sender_mem_component msg = DRAM then handleMsgFromDRAM fuel (pkt_sender packet) msg
     else sthrow LogError))"

lemma wp_dispatch:
  assumes inv: "dc_inv s" and m: "msg_ok s msg" and i: "core_ok s (pkt_sender packet)" and st: "\<not> strands s msg"
    and l: "length (rest s (m_msg_address msg)) < fuel" "length (rest s (m_msg_address msg)) + 1 < 2 ^ 32"
  shows "wp (dispatch fuel packet msg) (kept s) s"
  unfolding dispatch_def wp_sseq
proof (rule inv_quiet [OF quiet_env(1) inv], rule inv_quiet [OF quiet_updatePacket], goal_cases)
  case (1 _ s1)
  then show ?case
    using m by (simp add: msg_ok_def)
next
  case (3 _ s1 _ s2)
  have e: "same_env s s2"
    using same_env_trans [OF 3(2,5)] .
  note f = same_env_frame [OF e]
  note k = frame_ok [OF f(10)]
  have d: "data_ok s2 (m_data_buf msg)"
    using m data_ok_frame [OF f(10)] by (simp add: msg_ok_def)
  have "msg_ok s2 msg" "core_ok s2 (pkt_sender packet)" "\<not> strands s2 msg"
      and l2: "length (rest s2 (m_msg_address msg)) < fuel" "length (rest s2 (m_msg_address msg)) + 1 < 2 ^ 32"
    using m i st l d by (simp_all add: msg_ok_def k strands_def f)
  note a = wp_handleMsgFromL2Cache [OF 3(4) this] and b = wp_handleMsgFromDRAM [OF 3(4) d l2(1)]
  show ?case
    using kept_mono [OF a f(10)] kept_mono [OF b f(10)] by (simp add: wp_sthrow)
qed assumption

lemma TAG_DIR_distinct: "TAG_DIR \<noteq> L2_CACHE" "TAG_DIR \<noteq> LAST_LEVEL_CACHE"
  by (simp_all add: TAG_DIR_def L2_CACHE_def LAST_LEVEL_CACHE_def)

lemma wp_on_packet:
  assumes inv: "dc_inv s" and p: "packet_ok s packet" and st: "\<not> strands s (fst (pkt_data packet))"
    and l: "length (rest s (m_msg_address (fst (pkt_data packet)))) < fuel" "length (rest s (m_msg_address (fst (pkt_data packet)))) + 1 < 2 ^ 32"
  shows "wp (on_packet fuel packet) (kept s) s"
proof -
  obtain msg payload where pd: "pkt_data packet = (msg, payload)"
    by fastforce
  have m: "m_receiver_mem_component msg = TAG_DIR" "core_ok s (pkt_sender packet)" "addr_ok s (m_msg_address msg)"
      "core_ok s (m_requester msg)" "perf_valid s (m_perf msg)"
      "if m_data_length msg > 0 then m_data_length msg = dc_block_size s \<and> unat (dc_block_size s) \<le> length payload else m_data_buf msg = None"
    using p unfolding packet_ok_def pd prod.case by blast+
  show ?thesis
  proof (cases "m_data_length msg > 0")
    case False
    have "msg_ok s msg"
      using m False by (simp add: msg_ok_def)
    then have "wp (dispatch fuel packet msg) (kept s) s"
      using st l pd by (intro wp_dispatch [OF inv _ m(2)]) simp_all
    with False m(1) pd show ?thesis
      by (simp add: handleMsgFromNetwork_def dispatch_def getShmemMsg_def wp Let_def TAG_DIR_distinct cong: if_cong)
  next
    case True
    let ?d = "take (unat (m_data_length msg)) payload"
    have n: "m_data_length msg = dc_block_size s" "unat (dc_block_size s) \<le> length payload"
      using m(6) True by simp_all
    have "wp (with_buf ?d (\<lambda>p. sseq (dispatch fuel packet (msg\<lparr>m_data_buf := Some p\<rparr>)) (sbind (read_buf (Some p)) (\<lambda>_. sret ()))))
        (\<lambda>_ s'. dc_inv s' \<and> frame s s' \<and> True) s"
    proof (rule wp_with_buf [OF inv], goal_cases)
      case s1: (1 p s1)
      have f1: "frame s s1"
        using s1(2) by (simp add: same_ctl_def)
      note k = frame_ok [OF f1]
      have "msg_ok s1 (msg\<lparr>m_data_buf := Some p\<rparr>)" "core_ok s1 (pkt_sender packet)" "\<not> strands s1 (msg\<lparr>m_data_buf := Some p\<rparr>)"
        "length (rest s1 (m_msg_address (msg\<lparr>m_data_buf := Some p\<rparr>))) < fuel"
        "length (rest s1 (m_msg_address (msg\<lparr>m_data_buf := Some p\<rparr>))) + 1 < 2 ^ 32"
        using m n s1(2,4) k f1 st l pd by (simp_all add: msg_ok_def data_ok_def frame_def strands_def same_ctl_def)
      from wp_dispatch [OF s1(1) this] show ?case
        unfolding wp_sseq by (rule wp_mono) (use s1(4) in \<open>auto simp: read_buf_def wp st_get_def frame_def\<close>)
    qed simp
    then show ?thesis
      using True m(1) n by (simp add: handleMsgFromNetwork_def with_buf_def new_buf_def dispatch_def getShmemMsg_def pd wp Let_def TAG_DIR_distinct st_new_def read_buf_def
        cong: if_cong)
  qed
qed

subsection \<open>Reachable states\<close>

lemma DramDirectoryCntlr_new_inv:
  assumes new: "DramDirectoryCntlr_new env junk core_id home nuca entries assoc bs max_num max_hw ty access junk_core junk_ptrs trap protocol = Inr s"
    and env: "env_wf env" and home: "home_ok home" and nuca: "case nuca of None \<Rightarrow> True | Some n \<Rightarrow> nuca_wf n \<and> nc_block_size n = bs"
    and geom: "0 < assoc" "unat (entries div assoc) = 2 ^ k" "k < 32" "bs \<noteq> 0"
  shows "dc_inv s"
proof -
  obtain dir where dir: "DramDirectoryCache_new junk_core junk_ptrs ty entries assoc bs max_hw max_num trap = Inr dir"
      and s: "dc_dir s = dir" "dc_queue s = Map.empty" "dc_reqs s = st_empty" "dc_nuca s = nuca" "dc_block_size s = bs" "dc_home s = home"
        "env_perfs s = env_perfs env" "env_bufs s = env_bufs env"
    using new by (auto simp: DramDirectoryCntlr_new_def)
  note d = DramDirectoryCache_new_wf [OF geom(1,3,2,4) dir]
  have "sharers_len dir < 2 ^ 32"
    using unat_lt_two_power [of max_num] d(5) by (simp add: sharers_len_def sharers_size_def)
  with d have "dir_ok s"
    by (simp add: dir_ok_def s)
  then show ?thesis
    using env home nuca by (simp add: dc_inv_def queues_ok_def nuca_ok_def env_wf_def s split: option.splits)
qed

inductive dir_reach :: "dir_cntlr \<Rightarrow> dir_cntlr \<Rightarrow> bool" for s0 where
  start: "dir_reach s0 s0"
| packet: "dir_reach s0 s \<Longrightarrow> packet_ok s packet \<Longrightarrow> \<not> strands s (fst (pkt_data packet)) \<Longrightarrow>
    length (rest s (m_msg_address (fst (pkt_data packet)))) < fuel \<Longrightarrow> length (rest s (m_msg_address (fst (pkt_data packet)))) + 1 < 2 ^ 32 \<Longrightarrow>
    on_packet fuel packet s = Inr ((), s') \<Longrightarrow> dir_reach s0 s'"

lemma dir_reach_inv: "dir_reach s0 s \<Longrightarrow> dc_inv s0 \<Longrightarrow> dc_inv s"
  by (induction rule: dir_reach.induct) (auto dest: wp_resultD [OF wp_on_packet])

definition example_env :: mem_env where
  "example_env = \<lparr>env_core_id = 0, env_spm = ShmemPerfModel_new, env_perfs = st_empty, env_bufs = st_empty, env_sizeof_msg = 56, env_net = []\<rparr>"

definition example_home :: AddressHomeLookup where
  "example_home = \<lparr>m_ahl_param = 0, m_ahl_mask = 0, m_core_list = [0], m_total_modules = 1, m_cache_block_size = 1\<rparr>"

definition example_dc :: "dir_cntlr res" where
  \<comment> \<open>a full-map directory of two entries for four cores, blocks of one byte, no NUCA cache\<close>
  "example_dc = DramDirectoryCntlr_new example_env
     \<lparr>env_core_id = 0, env_spm = ShmemPerfModel_new, env_perfs = st_empty, env_bufs = st_empty, env_sizeof_msg = 56, env_net = [],
      dc_home = example_home,
      dc_dir = \<lparr>m_directory = \<lparr>m_directory_type = FULL_MAP, m_num_entries = 0, m_num_entries_allocated = 0, m_max_hw_sharers = 0,
          m_use_max_hw_sharers = 0, m_max_num_sharers = 0, m_limitless_software_trap_penalty = 0, m_directory_entry_list = [],
          d_heap = Map.empty, d_next = 0, d_junk = 7\<rparr>,
        m_replacement_ptrs = [], m_replaced_directory_entry_list = [], m_total_entries = 0, ddc_associativity = 0, ddc_num_sets = 0,
        ddc_block_size = 0, m_log_num_sets = 0, m_log_cache_block_size = 0\<rparr>,
      dc_queue = Map.empty, dc_reqs = st_empty, dc_nuca = None, dc_core_id = 0, dc_block_size = 0, dc_access_time = 0, dc_protocol = MSI,
      dc_evict = (\<lambda>_. 0), dc_forward = 0, dc_forward_failed = 0, dc_junk_where = HW_UNKNOWN, dc_junk_eviction = False,
      dc_junk_address = 0, dc_junk_byte = (\<lambda>_. 0)\<rparr>
     0 example_home None 2 2 1 4 4 ''full_map'' 10 7 (\<lambda>_. 0) None ''msi''"

definition example_packet :: "msg_t \<Rightarrow> component_t \<Rightarrow> core_id_t \<Rightarrow> core_id_t \<Rightarrow> u8 list \<Rightarrow> NetPacket" where
  "example_packet ty from_component sender requester data =
     \<lparr>pkt_start_time = 0, pkt_time = 0, pkt_queue_delay = 0, pkt_sender = sender, pkt_receiver = 0, pkt_length = 0,
      pkt_data = (ShmemMsg_new ty from_component TAG_DIR requester 64 None (of_nat (length data)) None, data)\<rparr>"


lemma example_dc_inv: "\<exists>s. example_dc = Inr s \<and> dc_inv s \<and> packet_ok s (example_packet EX_REQ LAST_LEVEL_CACHE 1 1 []) \<and> dc_queue s = Map.empty"
proof -
  obtain s where s: "example_dc = Inr s"
    by (simp add: example_dc_def DramDirectoryCntlr_new_def DramDirectoryCache_new_def Directory_new_def parseDirectoryType_def
        parse_protocol_def Let_def)
  have inv: "dc_inv s"
    by (rule DramDirectoryCntlr_new_inv [OF s [unfolded example_dc_def], of 0])
      (simp_all add: example_env_def example_home_def env_wf_def home_ok_def unat_div)
  moreover have "packet_ok s (example_packet EX_REQ LAST_LEVEL_CACHE 1 1 [])" "dc_queue s = Map.empty"
    using s by (auto simp: example_dc_def DramDirectoryCntlr_new_def DramDirectoryCache_new_def Directory_new_def parseDirectoryType_def
        parse_protocol_def Let_def packet_ok_def example_packet_def ShmemMsg_new_def core_ok_def addr_ok_def sharers_len_def
        sharers_size_def INVALID_ADDRESS_def)
  ultimately show ?thesis
    using s by blast
qed

lemma example_not_strands: "\<not> strands s (fst (pkt_data (example_packet EX_REQ c i j d)))"
  by (simp add: strands_def example_packet_def ShmemMsg_new_def)



text \<open>Code equations that run a step only once its state is known.\<close>

lemma monad_code [code]:
  "sbind m f s = (case m s of Inl e \<Rightarrow> Inl e | Inr (x, s') \<Rightarrow> f x s')" "sseq m m' s = (case m s of Inl e \<Rightarrow> Inl e | Inr (x, s') \<Rightarrow> m' s')"
  "sret x s = Inr (x, s)" "sthrow e s = Inl e" "slift r s = (case r of Inl e \<Rightarrow> Inl e | Inr x \<Rightarrow> Inr (x, s))"
  "sassert b s = (if b then Inr ((), s) else Inl AssertFailed)" "sget g s = Inr (g s, s)" "smod h s = Inr ((), h s)"
  by (simp_all add: sbind_def sseq_def sret_def sthrow_def slift_def sassert_def sget_def smod_def split: sum.split)

lemma processNext_code [code]:
  "processNextReqFromL2Cache fuel address s = (case fuel of 0 \<Rightarrow> Inl OutOfFuel | Suc fuel \<Rightarrow>
     sbind (q_size address) (\<lambda>size.
     sseq (sassert (size \<ge> 1)) (
     sbind (q_dequeue address) (\<lambda>completed_shmem_req.
     sseq (delete_req completed_shmem_req) (
     sbind (sget (\<lambda>s. empty_rq address (dc_queue s))) (\<lambda>is_empty.
     if is_empty then sret ()
     else
       sbind (q_front address) (\<lambda>shmem_req.
       sbind (get_req shmem_req) (\<lambda>r.
       sseq (setElapsedTime SIM_THREAD (m_req_time r)) (
       let ty = m_msg_type (m_shmem_msg r) in
       if ty = EX_REQ then processExReqFromL2Cache (processNextReqFromL2Cache fuel) shmem_req None
       else if ty = SH_REQ then processShReqFromL2Cache (processNextReqFromL2Cache fuel) shmem_req None
       else if ty = UPGRADE_REQ then processUpgradeReqFromL2Cache (processNextReqFromL2Cache fuel) shmem_req None
       else sthrow LogError)))))))) s)" by (cases fuel) (simp_all add: sthrow_def)

lemmas steps_code [THEN fun_cong, code] =
  handleMsgFromNetwork_def handleMsgFromL2Cache_def handleMsgFromDRAM_def 
  setElapsedTime_def perf_updatePacket_def now_def updateElapsedTime_def incrElapsedTime_def perf_updateTime_def
  lookup_def lookup_some_def new_req_def q_enqueue_def q_size_def q_front_def q_dequeue_def delete_req_def get_req_def upd_req_def
  get_entry_def put_entry_def upd_dir_entry_def setDState_def setForwarder_def entry_addSharer_def dram_node_def with_buf_def
  updateShmemPerf_def updateShmemPerf_req_def sendDataToNUCA_def sendDataToDram_def read_nuca_def fetch_data_def 
  retrieveDataAndSendToL2Cache_def inv_sharers_def processNullifyReq_def processDirectoryEntryAllocationReq_def entry_for_def
  take_ownership_def processExReqFromL2Cache_def processShReqFromL2Cache_def processUpgradeReqFromL2Cache_def
  processDRAMReply_def processInvRepFromL2Cache_def processFlushRepFromL2Cache_def processWbRepFromL2Cache_def
  sendMsg_def send_to_def broadcastMsg_def new_buf_def free_buf_def read_buf_def netSend_def

lemmas loops_code [THEN fun_cong, code] = sfor.simps inv_others.simps

lemma example_ex_req:
  "rbind example_dc (\<lambda>s. rbind (on_packet 1 (example_packet EX_REQ LAST_LEVEL_CACHE 1 1 []) s) (\<lambda>(_, s).
     Inr (map_option m_dstate (dir_map (dc_dir s) 64), map (\<lambda>p. (m_msg_type (fst (pkt_data p)), pkt_receiver p)) (env_net s)))) =
   Inr (Some D_MODIFIED, [(DRAM_READ_REQ, 0)])"
  by code_simp


end
